(* ===== verification/HackPrelude.thy ===== *)
theory HackPrelude
  imports Main "HOL-Library.Word" "HOL-Library.Monad_Syntax"
begin

text \<open>
  Shared vocabulary of the development: the C integer types, packet memory as a list of
  bytes with checked loads and stores, and the host byte order.

  A load or a store outside the memory region is the value \<^term>\<open>None\<close> of the option
  type, so that a theorem that an operation is not \<^term>\<open>None\<close> says that it never touches
  a byte outside the region.  Multi-byte loads are little-endian: the packet programs of
  the repository are built for little-endian hosts (\<^verbatim>\<open>xdp_redirect_dev.c\<close> compares
  \<^verbatim>\<open>h_proto\<close> with \<^verbatim>\<open>0x08U\<close>, the little-endian reading of the IPv4 type).
\<close>

unbundle bit_operations_syntax

text \<open>Offsets stay numerals: they are not rewritten to successors.\<close>

declare add_2_eq_Suc [simp del] add_2_eq_Suc' [simp del]

named_theorems mem_simps \<open>success conditions and effects of checked loads and stores\<close>
named_theorems hdr_defs \<open>header sizes and field offsets\<close>

type_synonym u8 = "8 word"
type_synonym u16 = "16 word"
type_synonym u32 = "32 word"
type_synonym u64 = "64 word"
type_synonym packet = "u8 list"

section \<open>Byte order\<close>

definition le16 :: "u8 \<Rightarrow> u8 \<Rightarrow> u16" where
  "le16 lo hi = word_cat hi lo"

definition lo8 :: "u16 \<Rightarrow> u8" where
  "lo8 w = ucast w"

definition hi8 :: "u16 \<Rightarrow> u8" where
  "hi8 w = ucast (drop_bit 8 w)"

text \<open>\<^verbatim>\<open>bpf_htons\<close>, \<^verbatim>\<open>bpf_ntohs\<close>, \<^verbatim>\<open>htons\<close> and \<^verbatim>\<open>ntohs\<close> on a little-endian host.\<close>

definition swap16 :: "u16 \<Rightarrow> u16" where
  "swap16 w = le16 (hi8 w) (lo8 w)"

lemma lo8_le16 [simp]: "lo8 (le16 a b) = a"
  unfolding lo8_def le16_def by (rule bit_word_eqI) (simp add: bit_simps)

lemma hi8_le16 [simp]: "hi8 (le16 a b) = b"
  unfolding hi8_def le16_def by (rule bit_word_eqI) (auto simp: bit_simps)

lemma le16_lo8_hi8 [simp]: "le16 (lo8 w) (hi8 w) = w"
  unfolding lo8_def hi8_def le16_def by (rule bit_word_eqI) (auto simp: bit_simps)

lemma swap16_swap16 [simp]: "swap16 (swap16 w) = w"
  by (simp add: swap16_def)

lemma swap16_le16 [simp]: "swap16 (le16 a b) = le16 b a"
  by (simp add: swap16_def)

lemma swap16_eq_iff [simp]: "swap16 v = swap16 w \<longleftrightarrow> v = w"
  by (metis swap16_swap16)

lemma le16_eq_iff [simp]: "le16 a b = le16 c d \<longleftrightarrow> a = c \<and> b = d"
  by (metis lo8_le16 hi8_le16)

lemma unat_u8_less: "unat (b :: u8) < 256"
  using unsigned_less [of b, where ?'a = nat] by simp

lemma unat_u16_less: "unat (w :: u16) < 65536"
  using unsigned_less [of w, where ?'a = nat] by simp

lemma unat_u32_less: "unat (w :: u32) < 4294967296"
  using unsigned_less [of w, where ?'a = nat] by simp

lemma unat_le16: "unat (le16 a b) = unat a + 256 * unat b"
proof -
  have "le16 a b = push_bit 8 (ucast b) + ucast a"
    by (simp add: le16_def word_cat_eq)
  also have "\<dots> = ucast b * 256 + (ucast a :: u16)"
    by (simp add: push_bit_eq_mult)
  finally have eq: "le16 a b = (ucast b :: u16) * 256 + ucast a" .
  have b: "unat b < 256" and a: "unat a < 256"
    by (rule unat_u8_less)+
  have "unat (ucast b :: u16) = unat b" and "unat (ucast a :: u16) = unat a"
    by (simp_all add: unsigned_ucast_eq take_bit_nat_eq_self_iff less_trans [OF unat_u8_less])
  then have "unat (le16 a b) = (256 * unat b + unat a) mod 65536"
    by (simp add: eq unat_word_ariths mod_add_left_eq mult.commute)
  moreover have "256 * unat b + unat a < 65536"
    using a b by linarith
  ultimately show ?thesis
    by simp
qed

section \<open>Checked memory access\<close>

definition load8 :: "packet \<Rightarrow> nat \<Rightarrow> u8 option" where
  "load8 p i = (if i < length p then Some (p ! i) else None)"

definition load16 :: "packet \<Rightarrow> nat \<Rightarrow> u16 option" where
  "load16 p i = (if i + 1 < length p then Some (le16 (p ! i) (p ! (i + 1))) else None)"

definition store16 :: "packet \<Rightarrow> nat \<Rightarrow> u16 \<Rightarrow> packet option" where
  "store16 p i w =
     (if i + 1 < length p then Some (p[i := lo8 w, i + 1 := hi8 w]) else None)"

text \<open>\<^verbatim>\<open>memcpy\<close> out of and into the region.\<close>

definition load_bytes :: "packet \<Rightarrow> nat \<Rightarrow> nat \<Rightarrow> packet option" where
  "load_bytes p i n = (if i + n \<le> length p then Some (take n (drop i p)) else None)"

definition store_bytes :: "packet \<Rightarrow> nat \<Rightarrow> packet \<Rightarrow> packet option" where
  "store_bytes p i bs =
     (if i + length bs \<le> length p
      then Some (take i p @ bs @ drop (i + length bs) p) else None)"

lemma load8_ok [mem_simps]: "i < length p \<Longrightarrow> load8 p i = Some (p ! i)"
  by (simp add: load8_def)

lemma load16_ok [mem_simps]:
  "i + 1 < length p \<Longrightarrow> load16 p i = Some (le16 (p ! i) (p ! (i + 1)))"
  by (simp add: load16_def)

lemma load16_exists: "i + 1 < length p \<Longrightarrow> \<exists>w. load16 p i = Some w"
  by (simp add: load16_def)

lemma store16_ok [mem_simps]:
  "i + 1 < length p \<Longrightarrow> store16 p i w = Some (p[i := lo8 w, i + 1 := hi8 w])"
  by (simp add: store16_def)

lemma load_bytes_ok [mem_simps]:
  "i + n \<le> length p \<Longrightarrow> load_bytes p i n = Some (take n (drop i p))"
  by (simp add: load_bytes_def)

lemma store_bytes_ok [mem_simps]:
  "i + length bs \<le> length p \<Longrightarrow>
   store_bytes p i bs = Some (take i p @ bs @ drop (i + length bs) p)"
  by (simp add: store_bytes_def)

lemma store16_length: "store16 p i w = Some q \<Longrightarrow> length q = length p"
  by (auto simp: store16_def split: if_splits)

lemma store_bytes_length: "store_bytes p i bs = Some q \<Longrightarrow> length q = length p"
  by (auto simp: store_bytes_def split: if_splits)

lemma load_bytes_length: "load_bytes p i n = Some bs \<Longrightarrow> length bs = n"
  by (auto simp: load_bytes_def split: if_splits)

lemma load16_store16: "store16 p i w = Some q \<Longrightarrow> load16 q i = Some w"
  by (auto simp: store16_def load16_def split: if_splits)

lemma store16_outside:
  "store16 p i w = Some q \<Longrightarrow> j \<noteq> i \<Longrightarrow> j \<noteq> i + 1 \<Longrightarrow> q ! j = p ! j"
  by (auto simp: store16_def split: if_splits)

lemma store_bytes_outside:
  "store_bytes p i bs = Some q \<Longrightarrow> j < i \<or> i + length bs \<le> j \<Longrightarrow> j < length p \<Longrightarrow>
   q ! j = p ! j"
  by (auto simp: store_bytes_def nth_append split: if_splits)

lemma load_store_bytes:
  "store_bytes p i bs = Some q \<Longrightarrow> load_bytes q i (length bs) = Some bs"
  by (auto simp: store_bytes_def load_bytes_def split: if_splits)

lemma load16_append [simp]:
  "load16 (a @ b # c # d) (length a) = Some (le16 b c)"
  by (simp add: load16_def nth_append)


lemma update_pair_twice [simp]:
  "x[i := a, Suc i := b, i := c, Suc i := d] = x[i := c, Suc i := d]"
  by (simp add: list_update_swap [of "Suc i" i])

text \<open>Access inside one segment of a packet.\<close>

lemma load8_segment:
  "i < length x \<Longrightarrow> load8 (pre @ x @ post) (length pre + i) = Some (x ! i)"
  by (simp add: load8_def nth_append)

lemma load16_segment:
  "i + 1 < length x \<Longrightarrow>
   load16 (pre @ x @ post) (length pre + i) = Some (le16 (x ! i) (x ! (i + 1)))"
  by (simp add: load16_def nth_append)

lemma store16_segment:
  "i + 1 < length x \<Longrightarrow>
   store16 (pre @ x @ post) (length pre + i) w =
     Some (pre @ x[i := lo8 w, i + 1 := hi8 w] @ post)"
  by (simp add: store16_def list_update_append)

end
