(* ===== verification/XdpParsing.thy ===== *)
theory XdpParsing
  imports HackPrelude
begin

text \<open>
  The packet header parsers of \<^verbatim>\<open>ebpf-xdp/packet/kernel/parsing_helpers.h\<close>.

  The region between \<^verbatim>\<open>ctx->data\<close> and \<^verbatim>\<open>ctx->data_end\<close> is a byte list, a pointer into it
  is the offset from \<^verbatim>\<open>data\<close>, so \<^verbatim>\<open>data_end\<close> is its length.  A parser returns its
  \<^verbatim>\<open>int\<close> result, the cursor it leaves, and the header pointer if it wrote one; the whole
  result is \<^term>\<open>None\<close> if it reads a byte outside the region.  The locale
  \<open>hdr_parser\<close> is the contract all the parsers share, and each of them is an
  interpretation of it.
\<close>

section \<open>Data\<close>

record hdr_cursor =
  pos :: nat

type_synonym parse_result = "(int \<times> hdr_cursor \<times> nat option) option"

abbreviation sizeof_ethhdr :: nat where "sizeof_ethhdr \<equiv> 14"
abbreviation sizeof_vlan_hdr :: nat where "sizeof_vlan_hdr \<equiv> 4"
abbreviation sizeof_ipv6hdr :: nat where "sizeof_ipv6hdr \<equiv> 40"
abbreviation sizeof_iphdr :: nat where "sizeof_iphdr \<equiv> 20"
abbreviation sizeof_icmp6hdr :: nat where "sizeof_icmp6hdr \<equiv> 8"
abbreviation sizeof_icmphdr :: nat where "sizeof_icmphdr \<equiv> 8"
abbreviation sizeof_icmphdr_common :: nat where "sizeof_icmphdr_common \<equiv> 4"
abbreviation sizeof_udphdr :: nat where "sizeof_udphdr \<equiv> 8"
abbreviation sizeof_tcphdr :: nat where "sizeof_tcphdr \<equiv> 20"

definition VLAN_MAX_DEPTH :: nat where
  "VLAN_MAX_DEPTH = 2"

definition VLAN_VID_MASK :: u16 where
  "VLAN_VID_MASK = 0x0fff"

text \<open>\<^verbatim>\<open>struct collect_vlans\<close>: the array of VLAN identifiers; \<^term>\<open>None\<close> is the null pointer.\<close>

type_synonym collect_vlans = "u16 list"

section \<open>Ethernet and VLAN tags\<close>

definition proto_is_vlan :: "u16 \<Rightarrow> bool" where
  "proto_is_vlan h_proto \<longleftrightarrow> h_proto = swap16 0x8100 \<or> h_proto = swap16 0x88A8"

text \<open>The store \<^verbatim>\<open>vlans->id[i] = ...\<close>; a store outside the array is \<^term>\<open>None\<close>.\<close>

definition collect_id :: "packet \<Rightarrow> nat \<Rightarrow> nat \<Rightarrow> collect_vlans option \<Rightarrow> collect_vlans option option"
  where
  "collect_id p vlh i vlans =
     (case vlans of
        None \<Rightarrow> Some None
      | Some ids \<Rightarrow>
          do {
            tci \<leftarrow> load16 p vlh;
            if i < length ids
            then Some (Some (ids[i := swap16 tci AND VLAN_VID_MASK]))
            else None
          })"

function vlan_loop ::
  "packet \<Rightarrow> nat \<Rightarrow> nat \<Rightarrow> u16 \<Rightarrow> collect_vlans option \<Rightarrow>
   (nat \<times> u16 \<times> collect_vlans option) option"
  where
  "vlan_loop p i vlh h_proto vlans =
     (if i < VLAN_MAX_DEPTH then
        if \<not> proto_is_vlan h_proto then Some (vlh, h_proto, vlans)
        else if vlh + sizeof_vlan_hdr > length p then Some (vlh, h_proto, vlans)
        else do {
          h_proto' \<leftarrow> load16 p (vlh + 2);
          vlans' \<leftarrow> collect_id p vlh i vlans;
          vlan_loop p (i + 1) (vlh + sizeof_vlan_hdr) h_proto' vlans'
        }
      else Some (vlh, h_proto, vlans))"
  by pat_completeness auto
termination
  by (relation "measure (\<lambda>(p, i, vlh, h, vl). VLAN_MAX_DEPTH - i)") auto

declare vlan_loop.simps [simp del]

definition parse_ethhdr_vlan ::
  "packet \<Rightarrow> hdr_cursor \<Rightarrow> collect_vlans option \<Rightarrow>
   (int \<times> hdr_cursor \<times> nat option \<times> collect_vlans option) option"
  where
  "parse_ethhdr_vlan p nh vlans =
     (let eth = pos nh in
      if pos nh + sizeof_ethhdr > length p then Some (-1, nh, None, vlans)
      else do {
        h_proto \<leftarrow> load16 p (eth + 12);
        (vlh, h_proto', vlans') \<leftarrow>
          vlan_loop p 0 (pos nh + sizeof_ethhdr) h_proto vlans;
        Some (uint h_proto', nh\<lparr>pos := vlh\<rparr>, Some eth, vlans')
      })"

definition parse_ethhdr :: "packet \<Rightarrow> hdr_cursor \<Rightarrow> parse_result" where
  "parse_ethhdr p nh =
     map_option (\<lambda>(r, nh', eth, _). (r, nh', eth)) (parse_ethhdr_vlan p nh None)"

section \<open>IP\<close>

definition parse_ip6hdr :: "packet \<Rightarrow> hdr_cursor \<Rightarrow> parse_result" where
  "parse_ip6hdr p nh =
     (let ip6h = pos nh in
      if ip6h + sizeof_ipv6hdr > length p then Some (-1, nh, None)
      else do {
        nexthdr \<leftarrow> load8 p (ip6h + 6);
        Some (uint nexthdr, nh\<lparr>pos := ip6h + sizeof_ipv6hdr\<rparr>, Some ip6h)
      })"

text \<open>The bit field \<^verbatim>\<open>ihl\<close> is the low nibble of the first byte.\<close>

definition parse_iphdr :: "packet \<Rightarrow> hdr_cursor \<Rightarrow> parse_result" where
  "parse_iphdr p nh =
     (let iph = pos nh in
      if iph + sizeof_iphdr > length p then Some (-1, nh, None)
      else do {
        b0 \<leftarrow> load8 p iph;
        let hdrsize = unat (b0 AND 0x0f) * 4;
        if hdrsize < sizeof_iphdr then Some (-1, nh, None)
        else if pos nh + hdrsize > length p then Some (-1, nh, None)
        else do {
          protocol \<leftarrow> load8 p (iph + 9);
          Some (uint protocol, nh\<lparr>pos := pos nh + hdrsize\<rparr>, Some iph)
        }
      })"

section \<open>ICMP, UDP and TCP\<close>

definition parse_icmp6hdr :: "packet \<Rightarrow> hdr_cursor \<Rightarrow> parse_result" where
  "parse_icmp6hdr p nh =
     (let icmp6h = pos nh in
      if icmp6h + sizeof_icmp6hdr > length p then Some (-1, nh, None)
      else do {
        icmp6_type \<leftarrow> load8 p icmp6h;
        Some (uint icmp6_type, nh\<lparr>pos := icmp6h + sizeof_icmp6hdr\<rparr>, Some icmp6h)
      })"

definition parse_icmphdr :: "packet \<Rightarrow> hdr_cursor \<Rightarrow> parse_result" where
  "parse_icmphdr p nh =
     (let icmph = pos nh in
      if icmph + sizeof_icmphdr > length p then Some (-1, nh, None)
      else do {
        type \<leftarrow> load8 p icmph;
        Some (uint type, nh\<lparr>pos := icmph + sizeof_icmphdr\<rparr>, Some icmph)
      })"

definition parse_icmphdr_common :: "packet \<Rightarrow> hdr_cursor \<Rightarrow> parse_result" where
  "parse_icmphdr_common p nh =
     (let h = pos nh in
      if h + sizeof_icmphdr_common > length p then Some (-1, nh, None)
      else do {
        type \<leftarrow> load8 p h;
        Some (uint type, nh\<lparr>pos := h + sizeof_icmphdr_common\<rparr>, Some h)
      })"

text \<open>
  \<^verbatim>\<open>parse_udphdr\<close> has moved the cursor and written the header pointer before it finds the
  length field too small.
\<close>

definition parse_udphdr :: "packet \<Rightarrow> hdr_cursor \<Rightarrow> parse_result" where
  "parse_udphdr p nh =
     (let h = pos nh in
      if h + sizeof_udphdr > length p then Some (-1, nh, None)
      else do {
        h_len \<leftarrow> load16 p (h + 4);
        let len = uint (swap16 h_len) - int sizeof_udphdr;
        if len < 0 then Some (-1, nh\<lparr>pos := h + sizeof_udphdr\<rparr>, Some h)
        else Some (len, nh\<lparr>pos := h + sizeof_udphdr\<rparr>, Some h)
      })"

text \<open>The bit field \<^verbatim>\<open>doff\<close> is the high nibble of byte 12.\<close>

definition parse_tcphdr :: "packet \<Rightarrow> hdr_cursor \<Rightarrow> parse_result" where
  "parse_tcphdr p nh =
     (let h = pos nh in
      if h + sizeof_tcphdr > length p then Some (-1, nh, None)
      else do {
        b12 \<leftarrow> load8 p (h + 12);
        let len = unat (drop_bit 4 b12) * 4;
        if len < sizeof_tcphdr then Some (-1, nh, None)
        else if pos nh + len > length p then Some (-1, nh, None)
        else Some (int len, nh\<lparr>pos := pos nh + len\<rparr>, Some h)
      })"

lemmas parse_defs =
  parse_ip6hdr_def parse_iphdr_def parse_icmp6hdr_def parse_icmphdr_def
  parse_icmphdr_common_def parse_udphdr_def parse_tcphdr_def


section \<open>The contract of a header parser\<close>

text \<open>
  A parser for a header of at least \<open>hsize\<close> bytes reads no byte outside the region,
  refuses a truncated header without touching the cursor, never moves the cursor backwards
  nor past the end, and on success leaves a header pointer that can be dereferenced for
  \<open>hsize\<close> bytes in front of the new cursor.
\<close>

locale hdr_parser =
  fixes parse :: "packet \<Rightarrow> hdr_cursor \<Rightarrow> parse_result"
    and hsize :: nat
  assumes total: "parse p nh \<noteq> None"
    and truncated: "length p < pos nh + hsize \<Longrightarrow> parse p nh = Some (-1, nh, None)"
    and cursor: "parse p nh = Some (r, nh', h) \<Longrightarrow>
      pos nh \<le> pos nh' \<and> (pos nh \<le> length p \<longrightarrow> pos nh' \<le> length p)"
    and success: "parse p nh = Some (r, nh', h) \<Longrightarrow> 0 \<le> r \<Longrightarrow>
      h = Some (pos nh) \<and> pos nh + hsize \<le> pos nh' \<and> pos nh' \<le> length p"
begin

lemma obtain_result:
  obtains r nh' h where "parse p nh = Some (r, nh', h)"
  using total [of p nh] by auto

lemma header_readable:
  "parse p nh = Some (r, nh', Some h) \<Longrightarrow> 0 \<le> r \<Longrightarrow> k < hsize \<Longrightarrow>
   load8 p (h + k) = Some (p ! (pos nh + k))"
  using success [of p nh r nh' "Some h"] by (simp add: load8_def)

lemma header_readable16:
  "parse p nh = Some (r, nh', Some h) \<Longrightarrow> 0 \<le> r \<Longrightarrow> k + 1 < hsize \<Longrightarrow>
   load16 p (h + k) = Some (le16 (p ! (pos nh + k)) (p ! (pos nh + k + 1)))"
  using success [of p nh r nh' "Some h"] by (simp add: load16_def)

lemma in_bounds:
  "\<exists>r nh' h. parse p nh = Some (r, nh', h)
     \<and> pos nh \<le> pos nh' \<and> (pos nh \<le> length p \<longrightarrow> pos nh' \<le> length p)
     \<and> (0 \<le> r \<longrightarrow> h = Some (pos nh) \<and> pos nh + hsize \<le> pos nh' \<and> pos nh' \<le> length p)
     \<and> (length p < pos nh + hsize \<longrightarrow> r = -1 \<and> nh' = nh)"
proof -
  obtain r nh' h where r: "parse p nh = Some (r, nh', h)"
    by (rule obtain_result)
  show ?thesis
    using cursor [OF r] success [OF r] truncated [of p nh] r by auto
qed

lemma no_success_when_truncated:
  "parse p nh = Some (r, nh', h) \<Longrightarrow> length p < pos nh + hsize \<Longrightarrow> r < 0"
  using truncated [of p nh] by simp

end

text \<open>Two parsers run one after the other on the same cursor, the second only after success.\<close>

locale hdr_parser_seq =
  outer: hdr_parser outer osize + inner: hdr_parser inner isize
  for outer :: "packet \<Rightarrow> hdr_cursor \<Rightarrow> parse_result" and osize :: nat
    and inner :: "packet \<Rightarrow> hdr_cursor \<Rightarrow> parse_result" and isize :: nat
begin

lemma both_headers_fit:
  assumes "outer p nh = Some (r, nh', h)" "0 \<le> r"
    and "inner p nh' = Some (r2, nh2, h2)" "0 \<le> r2"
  shows "pos nh + osize + isize \<le> length p \<and> h = Some (pos nh) \<and> h2 = Some (pos nh')
    \<and> pos nh + osize \<le> pos nh'"
  using outer.success [OF assms(1,2)] inner.success [OF assms(3,4)] by auto

lemma inner_after_outer_total: "outer p nh = Some (r, nh', h) \<Longrightarrow> inner p nh' \<noteq> None"
  by (rule inner.total)

end

lemma vlan_loop_total:
  assumes "vlh \<le> length p"
    and "\<forall>ids. vlans = Some ids \<longrightarrow> length ids = VLAN_MAX_DEPTH"
  shows "\<exists>vlh' h' vlans'. vlan_loop p i vlh h vlans = Some (vlh', h', vlans')
    \<and> vlh \<le> vlh' \<and> vlh' \<le> length p"
  using assms
proof (induction p i vlh h vlans rule: vlan_loop.induct)
  case (1 p i vlh h vlans)
  show ?case
  proof (cases "i < VLAN_MAX_DEPTH \<and> proto_is_vlan h \<and> vlh + sizeof_vlan_hdr \<le> length p")
    case True
    then obtain hp where h: "load16 p (vlh + 2) = Some hp"
      using load16_exists [of "vlh + 2" p] by auto
    obtain vlans' where v: "collect_id p vlh i vlans = Some vlans'"
      and len: "\<forall>ids. vlans' = Some ids \<longrightarrow> length ids = VLAN_MAX_DEPTH"
      using True "1.prems" by (cases vlans) (auto simp: collect_id_def load16_def)
    from True "1.IH" [OF _ _ _ h v] len
    obtain vlh' h' w where
      "vlan_loop p (i + 1) (vlh + sizeof_vlan_hdr) hp vlans'
         = Some (vlh', h', w)"
      "vlh + sizeof_vlan_hdr \<le> vlh'" "vlh' \<le> length p"
      by auto
    with True h v show ?thesis
      by (subst vlan_loop.simps) auto
  next
    case False
    with "1.prems" show ?thesis
      by (subst vlan_loop.simps) auto
  qed
qed

lemma parse_ethhdr_vlan_ok:
  assumes "pos nh + sizeof_ethhdr \<le> length p"
    and "\<forall>ids. vlans = Some ids \<longrightarrow> length ids = VLAN_MAX_DEPTH"
  shows "\<exists>vlh (h' :: u16) vlans'.
    parse_ethhdr_vlan p nh vlans = Some (uint h', nh\<lparr>pos := vlh\<rparr>, Some (pos nh), vlans')
    \<and> pos nh + sizeof_ethhdr \<le> vlh \<and> vlh \<le> length p"
proof -
  obtain hp where "load16 p (pos nh + 12) = Some hp"
    using load16_exists [of "pos nh + 12" p] assms(1) by auto
  moreover obtain vlh h' vlans' where
    "vlan_loop p 0 (pos nh + sizeof_ethhdr) hp vlans = Some (vlh, h', vlans')"
    "pos nh + sizeof_ethhdr \<le> vlh" "vlh \<le> length p"
    using vlan_loop_total [OF assms] by blast
  ultimately have
    "parse_ethhdr_vlan p nh vlans = Some (uint h', nh\<lparr>pos := vlh\<rparr>, Some (pos nh), vlans')
     \<and> pos nh + sizeof_ethhdr \<le> vlh \<and> vlh \<le> length p"
    using assms(1) by (simp add: parse_ethhdr_vlan_def)
  then show ?thesis
    by blast
qed

lemma parse_ethhdr_vlan_total:
  assumes "\<forall>ids. vlans = Some ids \<longrightarrow> length ids = VLAN_MAX_DEPTH"
  shows "parse_ethhdr_vlan p nh vlans \<noteq> None"
  using parse_ethhdr_vlan_ok [of nh p vlans] assms
  by (cases "pos nh + sizeof_ethhdr \<le> length p") (auto simp: parse_ethhdr_vlan_def)

lemma parse_ethhdr_ok:
  assumes "pos nh + sizeof_ethhdr \<le> length p"
  shows "\<exists>vlh (h' :: u16). parse_ethhdr p nh = Some (uint h', nh\<lparr>pos := vlh\<rparr>, Some (pos nh))
    \<and> pos nh + sizeof_ethhdr \<le> vlh \<and> vlh \<le> length p"
  using parse_ethhdr_vlan_ok [of nh p None] assms by (fastforce simp: parse_ethhdr_def)

lemma parse_ethhdr_short:
  "length p < pos nh + sizeof_ethhdr \<Longrightarrow> parse_ethhdr p nh = Some (-1, nh, None)"
  by (simp add: parse_ethhdr_def parse_ethhdr_vlan_def)

interpretation eth: hdr_parser parse_ethhdr sizeof_ethhdr
proof unfold_locales
  fix p nh r nh' h
  show "parse_ethhdr p nh \<noteq> None"
    using parse_ethhdr_ok [of nh p] parse_ethhdr_short [of p nh] by fastforce
  show "length p < pos nh + sizeof_ethhdr \<Longrightarrow> parse_ethhdr p nh = Some (-1, nh, None)"
    by (rule parse_ethhdr_short)
  assume r: "parse_ethhdr p nh = Some (r, nh', h)"
  then show "pos nh \<le> pos nh' \<and> (pos nh \<le> length p \<longrightarrow> pos nh' \<le> length p)"
    using parse_ethhdr_ok [of nh p] parse_ethhdr_short [of p nh] by fastforce
  assume "0 \<le> r"
  with r show "h = Some (pos nh) \<and> pos nh + sizeof_ethhdr \<le> pos nh' \<and> pos nh' \<le> length p"
    using parse_ethhdr_ok [of nh p] parse_ethhdr_short [of p nh] by fastforce
qed

interpretation ip6: hdr_parser parse_ip6hdr sizeof_ipv6hdr
  by unfold_locales (auto simp: parse_ip6hdr_def load8_def Let_def split: if_splits)

interpretation ip: hdr_parser parse_iphdr sizeof_iphdr
  by unfold_locales (auto simp: parse_iphdr_def load8_def Let_def split: if_splits)

interpretation icmp6: hdr_parser parse_icmp6hdr sizeof_icmp6hdr
  by unfold_locales (auto simp: parse_icmp6hdr_def load8_def Let_def split: if_splits)

interpretation icmp: hdr_parser parse_icmphdr sizeof_icmphdr
  by unfold_locales (auto simp: parse_icmphdr_def load8_def Let_def split: if_splits)

interpretation icmp_common: hdr_parser parse_icmphdr_common sizeof_icmphdr_common
  by unfold_locales (auto simp: parse_icmphdr_common_def load8_def Let_def split: if_splits)

interpretation udp: hdr_parser parse_udphdr sizeof_udphdr
  by unfold_locales (auto simp: parse_udphdr_def load16_def Let_def split: if_splits)

interpretation tcp: hdr_parser parse_tcphdr sizeof_tcphdr
  by unfold_locales (auto simp: parse_tcphdr_def load8_def Let_def split: if_splits)

interpretation ip_udp: hdr_parser_seq parse_iphdr sizeof_iphdr parse_udphdr sizeof_udphdr ..

interpretation ip_tcp: hdr_parser_seq parse_iphdr sizeof_iphdr parse_tcphdr sizeof_tcphdr ..

interpretation eth_ip: hdr_parser_seq parse_ethhdr sizeof_ethhdr parse_iphdr sizeof_iphdr ..


section \<open>Frames as the parser should see them\<close>

text \<open>
  An Ethernet frame on the wire: the two addresses, a list of VLAN tags (tag protocol
  identifier and tag control information), the type, the payload.  Sixteen-bit fields are
  in network byte order.
\<close>

definition be16 :: "u16 \<Rightarrow> packet" where
  "be16 w = [hi8 w, lo8 w]"

definition is_tpid :: "u16 \<Rightarrow> bool" where
  "is_tpid w \<longleftrightarrow> w = 0x8100 \<or> w = 0x88A8"

fun enc_tags :: "(u16 \<times> u16) list \<Rightarrow> u16 \<Rightarrow> packet" where
  "enc_tags [] ty = be16 ty"
| "enc_tags ((tpid, tci) # ts) ty = be16 tpid @ be16 tci @ enc_tags ts ty"

definition eth_frame :: "packet \<Rightarrow> (u16 \<times> u16) list \<Rightarrow> u16 \<Rightarrow> packet \<Rightarrow> packet" where
  "eth_frame macs tags ty payload = macs @ enc_tags tags ty @ payload"

definition proto_of :: "(u16 \<times> u16) list \<Rightarrow> u16 \<Rightarrow> u16" where
  "proto_of tags ty = (case tags of [] \<Rightarrow> ty | (tpid, _) # _ \<Rightarrow> tpid)"

definition vid_of :: "u16 \<times> u16 \<Rightarrow> u16" where
  "vid_of tag = snd tag AND VLAN_VID_MASK"

text \<open>What follows the type field that names the first tag.\<close>

fun after_proto :: "(u16 \<times> u16) list \<Rightarrow> u16 \<Rightarrow> packet \<Rightarrow> packet" where
  "after_proto [] ty payload = payload"
| "after_proto ((tpid, tci) # ts) ty payload =
     be16 tci @ be16 (proto_of ts ty) @ after_proto ts ty payload"

lemma enc_tags_split:
  "enc_tags tags ty @ payload = be16 (proto_of tags ty) @ after_proto tags ty payload"
  by (induction tags ty payload rule: after_proto.induct) (auto simp: proto_of_def)

lemma length_be16 [simp]: "length (be16 w) = 2"
  by (simp add: be16_def)

lemma load16_be16 [simp]: "load16 (a @ be16 w @ b) (length a) = Some (swap16 w)"
  by (simp add: be16_def swap16_def)

lemma load16_be16_second [simp]:
  "load16 (a @ be16 v @ be16 w @ b) (length a + 2) = Some (swap16 w)"
  using load16_be16 [of "a @ be16 v" w b] by simp

lemma proto_is_vlan_swap [simp]: "proto_is_vlan (swap16 w) \<longleftrightarrow> is_tpid w"
  by (simp add: proto_is_vlan_def is_tpid_def)

lemma vlan_loop_tags:
  assumes "\<forall>t \<in> set tags. is_tpid (fst t)" "\<not> is_tpid ty"
    and "\<forall>ids. vlans = Some ids \<longrightarrow> length ids = VLAN_MAX_DEPTH"
    and "i \<le> VLAN_MAX_DEPTH"
  shows "vlan_loop (pre @ after_proto tags ty payload) i (length pre)
      (swap16 (proto_of tags ty)) vlans =
    (let n = min (VLAN_MAX_DEPTH - i) (length tags) in
     Some (length pre + 4 * n, swap16 (proto_of (drop n tags) ty),
       map_option (\<lambda>ids. take i ids @ map vid_of (take n tags) @ drop (i + n) ids) vlans))"
  using assms
proof (induction tags ty payload arbitrary: pre i vlans rule: after_proto.induct)
  case (1 ty payload)
  then show ?case
    by (subst vlan_loop.simps) (auto simp: proto_of_def Let_def option.map_ident)
next
  case (2 tpid tci ts ty payload)
  show ?case
  proof (cases "i < VLAN_MAX_DEPTH")
    case True
    let ?vl = "map_option (\<lambda>ids. ids[i := tci AND VLAN_VID_MASK]) vlans"
    let ?pre = "pre @ be16 tci @ be16 (proto_of ts ty)"
    have c: "collect_id (pre @ be16 tci @ be16 (proto_of ts ty) @ after_proto ts ty payload)
        (length pre) i vlans = Some ?vl"
      using True "2.prems"(3) by (cases vlans) (auto simp: collect_id_def)
    have len: "\<forall>ids. ?vl = Some ids \<longrightarrow> length ids = VLAN_MAX_DEPTH"
      using "2.prems"(3) by auto
    have ih: "vlan_loop (?pre @ after_proto ts ty payload) (Suc i) (length ?pre)
        (swap16 (proto_of ts ty)) ?vl =
      (let n = min (VLAN_MAX_DEPTH - Suc i) (length ts) in
       Some (length ?pre + 4 * n, swap16 (proto_of (drop n ts) ty),
         map_option (\<lambda>ids. take (Suc i) ids @ map vid_of (take n ts) @ drop (Suc i + n) ids) ?vl))"
      using "2.prems" len True by (intro "2.IH") auto
    have step: "vlan_loop (pre @ after_proto ((tpid, tci) # ts) ty payload) i (length pre)
        (swap16 (proto_of ((tpid, tci) # ts) ty)) vlans
      = vlan_loop (?pre @ after_proto ts ty payload) (Suc i) (length ?pre)
        (swap16 (proto_of ts ty)) ?vl"
      using True "2.prems"(1) c by (subst vlan_loop.simps) (simp add: proto_of_def)
    have n: "min (VLAN_MAX_DEPTH - i) (length ((tpid, tci) # ts))
        = Suc (min (VLAN_MAX_DEPTH - Suc i) (length ts))"
      using True by auto
    show ?thesis
      unfolding step ih n using True "2.prems"(3)
      by (cases vlans) (auto simp: Let_def vid_of_def take_Suc_conv_app_nth)
  next
    case False
    with "2.prems"(4) show ?thesis
      by (subst vlan_loop.simps) (auto simp: Let_def option.map_ident)
  qed
qed

lemma parse_ethhdr_vlan_frame_aux:
  assumes "length macs = 12" "\<forall>t \<in> set tags. is_tpid (fst t)" "\<not> is_tpid ty"
    and "\<forall>ids. vlans = Some ids \<longrightarrow> length ids = VLAN_MAX_DEPTH"
  shows "parse_ethhdr_vlan (eth_frame macs tags ty payload) \<lparr>pos = 0\<rparr> vlans =
    (let n = min VLAN_MAX_DEPTH (length tags) in
     Some (uint (swap16 (proto_of (drop n tags) ty)), \<lparr>pos = 14 + 4 * n\<rparr>, Some 0,
       map_option (\<lambda>ids. map vid_of (take n tags) @ drop n ids) vlans))"
proof -
  let ?p = "macs @ be16 (proto_of tags ty) @ after_proto tags ty payload"
  have p: "eth_frame macs tags ty payload = ?p"
    by (simp add: eth_frame_def enc_tags_split)
  have h: "load16 ?p 12 = Some (swap16 (proto_of tags ty))"
    using load16_be16 [of macs "proto_of tags ty" "after_proto tags ty payload"] assms(1) by simp
  have l: "vlan_loop ?p 0 14 (swap16 (proto_of tags ty)) vlans =
    (let n = min VLAN_MAX_DEPTH (length tags) in
     Some (14 + 4 * n, swap16 (proto_of (drop n tags) ty),
       map_option (\<lambda>ids. map vid_of (take n tags) @ drop n ids) vlans))"
    using vlan_loop_tags [OF assms(2-4), of 0 "macs @ be16 (proto_of tags ty)" payload] assms(1)
    by (simp add: Let_def)
  show ?thesis
    unfolding p using assms(1) by (simp add: parse_ethhdr_vlan_def h l Let_def)
qed


section \<open>Properties\<close>

text \<open>
  C1.  Parsing a well-formed frame with any number of VLAN tags: \<^verbatim>\<open>parse_ethhdr_vlan\<close>
  skips at most \<^verbatim>\<open>VLAN_MAX_DEPTH\<close> tags, leaves the cursor behind them, collects their
  VLAN identifiers in order, and returns the type field that follows (the frame's type if
  all the tags were skipped, the next tag's protocol identifier if not), in network order.
\<close>

theorem parse_ethhdr_vlan_frame:
  assumes "length macs = 12" "\<forall>t \<in> set tags. is_tpid (fst t)" "\<not> is_tpid ty"
    and "\<forall>ids. vlans = Some ids \<longrightarrow> length ids = VLAN_MAX_DEPTH"
  shows "parse_ethhdr_vlan (eth_frame macs tags ty payload) \<lparr>pos = 0\<rparr> vlans =
    (let n = min VLAN_MAX_DEPTH (length tags) in
     Some (uint (swap16 (proto_of (drop n tags) ty)), \<lparr>pos = 14 + 4 * n\<rparr>, Some 0,
       map_option (\<lambda>ids. map vid_of (take n tags) @ drop n ids) vlans))"
  by (rule parse_ethhdr_vlan_frame_aux [OF assms])

theorem parse_ethhdr_vlan_frame_witness:
  "parse_ethhdr_vlan
     (eth_frame (replicate 12 7) [(0x8100, 0x2005), (0x88A8, 9)] 0x0800 [69]) \<lparr>pos = 0\<rparr>
     (Some [0, 0])
   = Some (8, \<lparr>pos = 22\<rparr>, Some 0, Some [5, 9])"
  by (subst parse_ethhdr_vlan_frame)
    (auto simp: is_tpid_def VLAN_MAX_DEPTH_def vid_of_def VLAN_VID_MASK_def proto_of_def
      swap16_def le16_def lo8_def hi8_def word_cat_eq)



end
