(* ===== verification/XdpRewrite.thy ===== *)
theory XdpRewrite
  imports XdpParsing
begin

text \<open>
  The packet rewriters of \<^verbatim>\<open>ebpf-xdp/packet/kernel/rewrite_helpers.h\<close> and the action
  statistics of \<^verbatim>\<open>stats_kern.h\<close>.

  The kernel helper \<^verbatim>\<open>bpf_xdp_adjust_head\<close> is a parameter: a function from the packet and
  the signed displacement to the packet after the move, \<^term>\<open>None\<close> for a non-zero return.
  \<open>adjust_head_contract\<close> is its documented behaviour.
\<close>

section \<open>VLAN tags\<close>

type_synonym adjust_head = "packet \<Rightarrow> int \<Rightarrow> packet option"

definition adjust_head_contract :: "adjust_head \<Rightarrow> bool" where
  "adjust_head_contract adj \<longleftrightarrow>
     (\<forall>p n q. adj p (int n) = Some q \<longrightarrow> n \<le> length p \<and> q = drop n p)
   \<and> (\<forall>p n q. adj p (- int n) = Some q \<longrightarrow> length q = n + length p \<and> drop n q = p)"

definition vlan_tag_pop :: "adjust_head \<Rightarrow> packet \<Rightarrow> nat \<Rightarrow> (int \<times> packet) option" where
  "vlan_tag_pop adj p eth =
     do {
       proto \<leftarrow> load16 p (eth + 12);
       if \<not> proto_is_vlan proto then Some (-1, p)
       else
         let vlh = eth + sizeof_ethhdr in
         if vlh + sizeof_vlan_hdr > length p then Some (-1, p)
         else do {
           tci \<leftarrow> load16 p vlh;
           let vlid = uint (swap16 tci);
           h_proto \<leftarrow> load16 p (vlh + 2);
           eth_cpy \<leftarrow> load_bytes p eth sizeof_ethhdr;
           case adj p (int sizeof_vlan_hdr) of
             None \<Rightarrow> Some (-1, p)
           | Some q \<Rightarrow>
               if sizeof_ethhdr > length q then Some (-1, q)
               else do {
                 q \<leftarrow> store_bytes q 0 eth_cpy;
                 q \<leftarrow> store16 q 12 h_proto;
                 Some (vlid, q)
               }
         }
     }"

definition vlan_tag_push :: "adjust_head \<Rightarrow> packet \<Rightarrow> nat \<Rightarrow> int \<Rightarrow> (int \<times> packet) option" where
  "vlan_tag_push adj p eth vlid =
     do {
       eth_cpy \<leftarrow> load_bytes p eth sizeof_ethhdr;
       case adj p (- int sizeof_vlan_hdr) of
         None \<Rightarrow> Some (-1, p)
       | Some q \<Rightarrow>
           if sizeof_ethhdr > length q then Some (-1, q)
           else do {
             q \<leftarrow> store_bytes q 0 eth_cpy;
             let vlh = sizeof_ethhdr;
             if vlh + sizeof_vlan_hdr > length q then Some (-1, q)
             else do {
               q \<leftarrow> store16 q vlh (swap16 (word_of_int vlid));
               proto \<leftarrow> load16 q 12;
               q \<leftarrow> store16 q (vlh + 2) proto;
               q \<leftarrow> store16 q 12 (swap16 0x8100);
               Some (0, q)
             }
           }
     }"

section \<open>Address swaps\<close>

definition swap_src_dst_mac :: "packet \<Rightarrow> nat \<Rightarrow> packet option" where
  "swap_src_dst_mac p eth =
     do {
       h_tmp \<leftarrow> load_bytes p (eth + 6) 6;
       h_dest \<leftarrow> load_bytes p eth 6;
       p \<leftarrow> store_bytes p (eth + 6) h_dest;
       store_bytes p eth h_tmp
     }"

definition swap_src_dst_ipv6 :: "packet \<Rightarrow> nat \<Rightarrow> packet option" where
  "swap_src_dst_ipv6 p ipv6 =
     do {
       tmp \<leftarrow> load_bytes p (ipv6 + 8) 16;
       daddr \<leftarrow> load_bytes p (ipv6 + 24) 16;
       p \<leftarrow> store_bytes p (ipv6 + 8) daddr;
       store_bytes p (ipv6 + 24) tmp
     }"

definition swap_src_dst_ipv4 :: "packet \<Rightarrow> nat \<Rightarrow> packet option" where
  "swap_src_dst_ipv4 p iphdr =
     do {
       tmp \<leftarrow> load_bytes p (iphdr + 12) 4;
       daddr \<leftarrow> load_bytes p (iphdr + 16) 4;
       p \<leftarrow> store_bytes p (iphdr + 12) daddr;
       store_bytes p (iphdr + 16) tmp
     }"

section \<open>Action statistics\<close>

datatype xdp_action = XDP_ABORTED | XDP_DROP | XDP_PASS | XDP_TX | XDP_REDIRECT

fun xdp_action_code :: "xdp_action \<Rightarrow> u32" where
  "xdp_action_code XDP_ABORTED = 0"
| "xdp_action_code XDP_DROP = 1"
| "xdp_action_code XDP_PASS = 2"
| "xdp_action_code XDP_TX = 3"
| "xdp_action_code XDP_REDIRECT = 4"

definition XDP_ACTION_MAX :: u32 where
  "XDP_ACTION_MAX = xdp_action_code XDP_REDIRECT + 1"

record datarec =
  rx_packets :: u64
  rx_bytes :: u64

text \<open>The per-CPU array map, as seen by the CPU that runs the program.\<close>

definition xdp_stats_record_action ::
  "(u32 \<rightharpoonup> datarec) \<Rightarrow> packet \<Rightarrow> u32 \<Rightarrow> u32 \<times> (u32 \<rightharpoonup> datarec)" where
  "xdp_stats_record_action xdp_stats_map p action =
     (if action \<ge> XDP_ACTION_MAX then (xdp_action_code XDP_ABORTED, xdp_stats_map)
      else case xdp_stats_map action of
        None \<Rightarrow> (xdp_action_code XDP_ABORTED, xdp_stats_map)
      | Some rec \<Rightarrow>
          (action, xdp_stats_map(action \<mapsto>
             rec\<lparr>rx_packets := rx_packets rec + 1,
                 rx_bytes := rx_bytes rec + ucast (of_nat (length p) :: u32)\<rparr>)))"

section \<open>Tags on frames\<close>

lemma list12_cases:
  assumes "length xs = 12"
  obtains a b c d e f g h i j k l where "xs = [a, b, c, d, e, f, g, h, i, j, k, l]"
  using assms by (auto simp: numeral_eq_Suc length_Suc_conv)

lemma list4_cases:
  assumes "length xs = 4"
  obtains a b c d where "xs = [a, b, c, d]"
  using assms by (auto simp: numeral_eq_Suc length_Suc_conv)

lemma frame_cases:
  "eth_frame macs tags ty payload = macs @ be16 (proto_of tags ty) @ after_proto tags ty payload"
  by (simp add: eth_frame_def enc_tags_split)

lemma adjust_head_grow:
  assumes "adjust_head_contract adj" "adj p (- int n) = Some q"
  obtains x where "length x = n" "q = x @ p"
proof
  have "length q = n + length p \<and> drop n q = p"
    using assms unfolding adjust_head_contract_def by blast
  then show "length (take n q) = n" "q = take n q @ p"
    using append_take_drop_id [of n q] by simp_all
qed

lemma adjust_head_shrink:
  "adjust_head_contract adj \<Longrightarrow> adj p (int n) = Some q \<Longrightarrow> n \<le> length p \<and> q = drop n p"
  unfolding adjust_head_contract_def by blast

lemma vlan_tag_push_frame_aux:
  assumes adj: "adjust_head_contract adj"
    and len: "length macs = 12"
    and ok: "adj (eth_frame macs tags ty payload) (- int sizeof_vlan_hdr) = Some q"
  shows "vlan_tag_push adj (eth_frame macs tags ty payload) 0 vlid =
    Some (0, eth_frame macs ((0x8100, word_of_int vlid) # tags) ty payload)"
proof -
  obtain x where x: "length x = 4" "q = x @ eth_frame macs tags ty payload"
    by (rule adjust_head_grow [OF adj ok])
  from len obtain a b c d e f g h i j k l where m: "macs = [a, b, c, d, e, f, g, h, i, j, k, l]"
    by (rule list12_cases)
  from x(1) obtain x1 x2 x3 x4 where x': "x = [x1, x2, x3, x4]"
    by (rule list4_cases)
  show ?thesis
    using ok unfolding x(2) x' frame_cases m
    by (simp add: vlan_tag_push_def load_bytes_def store_bytes_def store16_def load16_def
        be16_def proto_of_def swap16_def numeral_eq_Suc)
qed


lemma vlan_tag_pop_frame_aux:
  assumes adj: "adjust_head_contract adj"
    and len: "length macs = 12"
    and tag: "is_tpid tpid"
    and ok: "adj (eth_frame macs ((tpid, tci) # tags) ty payload) (int sizeof_vlan_hdr) = Some q"
  shows "vlan_tag_pop adj (eth_frame macs ((tpid, tci) # tags) ty payload) 0 =
    Some (uint tci, eth_frame macs tags ty payload)"
proof -
  from adjust_head_shrink [OF adj ok]
  have q: "q = drop 4 (eth_frame macs ((tpid, tci) # tags) ty payload)"
    by simp
  from len obtain a b c d e f g h i j k l where m: "macs = [a, b, c, d, e, f, g, h, i, j, k, l]"
    by (rule list12_cases)
  have "proto_is_vlan (le16 (hi8 tpid) (lo8 tpid))"
    using tag by (simp flip: swap16_def)
  then show ?thesis
    using ok unfolding q frame_cases m
    by (simp add: vlan_tag_pop_def load_bytes_def store_bytes_def store16_def load16_def
        be16_def proto_of_def numeral_eq_Suc)
qed

lemma vlan_tag_pop_untagged:
  assumes "length macs = 12" "\<not> is_tpid ty"
  shows "vlan_tag_pop adj (eth_frame macs [] ty payload) 0 =
    Some (-1, eth_frame macs [] ty payload)"
proof -
  have "load16 (macs @ be16 ty @ payload) 12 = Some (swap16 ty)"
    using load16_be16 [of macs ty payload] assms(1) by simp
  with assms(2) show ?thesis
    by (simp add: vlan_tag_pop_def eth_frame_def)
qed

section \<open>Swapping two adjacent fields\<close>

lemma swap_src_dst_mac_fields:
  assumes "length d = 6" "length s = 6"
  shows "swap_src_dst_mac (pre @ d @ s @ post) (length pre) = Some (pre @ s @ d @ post)"
  using assms by (simp add: swap_src_dst_mac_def load_bytes_def store_bytes_def)

lemma swap_src_dst_ipv6_fields:
  assumes "length h = 8" "length s = 16" "length d = 16"
  shows "swap_src_dst_ipv6 (pre @ h @ s @ d @ post) (length pre) = Some (pre @ h @ d @ s @ post)"
  using assms by (simp add: swap_src_dst_ipv6_def load_bytes_def store_bytes_def)

lemma swap_src_dst_ipv4_fields:
  assumes "length h = 12" "length s = 4" "length d = 4"
  shows "swap_src_dst_ipv4 (pre @ h @ s @ d @ post) (length pre) = Some (pre @ h @ d @ s @ post)"
  using assms by (simp add: swap_src_dst_ipv4_def load_bytes_def store_bytes_def)


lemma split_fields:
  assumes "a + n + n \<le> length p"
  obtains pre x y post where "p = pre @ x @ y @ post" "length pre = a" "length x = n" "length y = n"
proof
  show "p = take a p @ take n (drop a p) @ take n (drop (a + n) p) @ drop (a + n + n) p"
    by (metis append_take_drop_id drop_drop add.commute)
qed (use assms in auto)

section \<open>Properties\<close>

text \<open>
  C3.  \<^verbatim>\<open>vlan_tag_push\<close> followed by \<^verbatim>\<open>vlan_tag_pop\<close>: whenever the kernel grants the two
  head moves, the push puts one 802.1Q tag with the given identifier in front of the tags
  the frame already had, and the pop takes it off again, returns the identifier and gives
  back the original packet, byte for byte.
\<close>

theorem vlan_push_then_pop:
  assumes "adjust_head_contract adj" "length macs = 12" "0 \<le> vlid" "vlid < 65536"
    and "adj (eth_frame macs tags ty payload) (- 4) = Some q"
    and "adj (eth_frame macs ((0x8100, word_of_int vlid) # tags) ty payload) 4 = Some q2"
  shows "\<exists>tagged. vlan_tag_push adj (eth_frame macs tags ty payload) 0 vlid = Some (0, tagged)
    \<and> tagged = eth_frame macs ((0x8100, word_of_int vlid) # tags) ty payload
    \<and> vlan_tag_pop adj tagged 0 = Some (vlid, eth_frame macs tags ty payload)"
proof -
  have "uint (word_of_int vlid :: u16) = vlid"
    using assms(3,4) by (simp add: uint_word_of_int_eq take_bit_int_eq_self)
  moreover have "is_tpid 0x8100"
    by (simp add: is_tpid_def)
  ultimately show ?thesis
    using vlan_tag_push_frame_aux [OF assms(1,2), of tags ty payload q vlid]
      vlan_tag_pop_frame_aux [OF assms(1,2), of "0x8100" "word_of_int vlid" tags ty payload q2]
      assms(5,6)
    by simp
qed

text \<open>A head adjustment with headroom for growth: the witness's instance of the helper.\<close>

definition demo_adjust_head :: adjust_head where
  "demo_adjust_head p d =
     (if 0 \<le> d then if nat d \<le> length p then Some (drop (nat d) p) else None
      else Some (replicate (nat (- d)) 0 @ p))"

lemma demo_adjust_head_contract: "adjust_head_contract demo_adjust_head"
proof -
  have "demo_adjust_head p (int n) = Some q \<Longrightarrow> n \<le> length p \<and> q = drop n p" for p n q
    by (simp add: demo_adjust_head_def split: if_splits)
  moreover have "demo_adjust_head p (- int n) = Some q \<Longrightarrow> length q = n + length p \<and> drop n q = p"
    for p n q
    by (cases n) (auto simp: demo_adjust_head_def split: if_splits)
  ultimately show ?thesis
    unfolding adjust_head_contract_def by blast
qed

theorem vlan_push_then_pop_witness:
  "vlan_tag_push demo_adjust_head (eth_frame (replicate 12 7) [] 0x0800 [1, 2]) 0 100
     = Some (0, eth_frame (replicate 12 7) [(0x8100, 100)] 0x0800 [1, 2])
   \<and> vlan_tag_pop demo_adjust_head (eth_frame (replicate 12 7) [(0x8100, 100)] 0x0800 [1, 2]) 0
     = Some (100, eth_frame (replicate 12 7) [] 0x0800 [1, 2])"
  using vlan_push_then_pop [OF demo_adjust_head_contract, of "replicate 12 7" 100 "[]" "0x0800" "[1, 2]"]
  by (simp add: demo_adjust_head_def eth_frame_def be16_def)

text \<open>
  C4.  What \<^verbatim>\<open>vlan_tag_pop\<close> returns: on a tagged frame (802.1Q or 802.1ad) the sixteen bits
  of the tag control information, and the frame without its outermost tag; on an untagged
  frame an error, with the packet unchanged.  The header comment calls the result the VLAN
  ID; the priority bits are part of it.
\<close>

theorem vlan_tag_pop_frame:
  assumes "adjust_head_contract adj" "length macs = 12" "\<not> is_tpid ty"
    and "\<forall>t \<in> set tags. is_tpid (fst t)"
    and "adj (eth_frame macs tags ty payload) 4 \<noteq> None"
  shows "vlan_tag_pop adj (eth_frame macs tags ty payload) 0 =
    (case tags of
       [] \<Rightarrow> Some (-1, eth_frame macs [] ty payload)
     | (_, tci) # rest \<Rightarrow> Some (uint tci, eth_frame macs rest ty payload))"
proof (cases tags)
  case Nil
  then show ?thesis
    using vlan_tag_pop_untagged [OF assms(2,3)] by simp
next
  case (Cons t rest)
  then show ?thesis
    using vlan_tag_pop_frame_aux [OF assms(1,2), of "fst t" "snd t" rest ty payload] assms(4,5)
    by (cases t) auto
qed

theorem vlan_tag_pop_frame_witness:
  "vlan_tag_pop demo_adjust_head (eth_frame (replicate 12 7) [(0x8100, 0x2005)] 0x0800 [1]) 0
     = Some (0x2005, eth_frame (replicate 12 7) [] 0x0800 [1])
   \<and> (0x2005 :: int) \<noteq> uint (vid_of (0x8100, 0x2005))"
  using vlan_tag_pop_frame [OF demo_adjust_head_contract, of "replicate 12 7" "0x0800" "[(0x8100, 0x2005)]" "[1]"]
  by (simp add: is_tpid_def demo_adjust_head_def eth_frame_def be16_def vid_of_def VLAN_VID_MASK_def)

text \<open>
  The three address swaps stay inside the packet, exchange exactly the two address
  fields, leave every other byte alone, and undo themselves.
\<close>

theorem address_swaps_involutive:
  "(o_mac + 12 \<le> length p \<longrightarrow>
      (\<exists>q. swap_src_dst_mac p o_mac = Some q \<and> swap_src_dst_mac q o_mac = Some p
         \<and> q = take o_mac p @ take 6 (drop (o_mac + 6) p) @ take 6 (drop o_mac p) @ drop (o_mac + 12) p))
   \<and> (o_ip6 + 40 \<le> length p \<longrightarrow>
      (\<exists>q. swap_src_dst_ipv6 p o_ip6 = Some q \<and> swap_src_dst_ipv6 q o_ip6 = Some p
         \<and> q = take (o_ip6 + 8) p @ take 16 (drop (o_ip6 + 24) p) @ take 16 (drop (o_ip6 + 8) p)
               @ drop (o_ip6 + 40) p))
   \<and> (o_ip + 20 \<le> length p \<longrightarrow>
      (\<exists>q. swap_src_dst_ipv4 p o_ip = Some q \<and> swap_src_dst_ipv4 q o_ip = Some p
         \<and> q = take (o_ip + 12) p @ take 4 (drop (o_ip + 16) p) @ take 4 (drop (o_ip + 12) p)
               @ drop (o_ip + 20) p))"
proof (intro conjI impI)
  assume "o_mac + 12 \<le> length p"
  then have "o_mac + 6 + 6 \<le> length p"
    by simp
  then obtain pre d s post
    where "p = pre @ d @ s @ post" "length pre = o_mac" "length d = 6" "length s = 6"
    by (rule split_fields)
  then show "\<exists>q. swap_src_dst_mac p o_mac = Some q \<and> swap_src_dst_mac q o_mac = Some p
      \<and> q = take o_mac p @ take 6 (drop (o_mac + 6) p) @ take 6 (drop o_mac p) @ drop (o_mac + 12) p"
    using swap_src_dst_mac_fields [of d s pre post] swap_src_dst_mac_fields [of s d pre post] by auto
next
  assume "o_ip6 + 40 \<le> length p"
  then have "(o_ip6 + 8) + 16 + 16 \<le> length p"
    by simp
  then obtain pre s d post
    where p: "p = pre @ s @ d @ post" "length pre = o_ip6 + 8" "length s = 16" "length d = 16"
    by (rule split_fields)
  then show "\<exists>q. swap_src_dst_ipv6 p o_ip6 = Some q \<and> swap_src_dst_ipv6 q o_ip6 = Some p
      \<and> q = take (o_ip6 + 8) p @ take 16 (drop (o_ip6 + 24) p) @ take 16 (drop (o_ip6 + 8) p)
            @ drop (o_ip6 + 40) p"
    using swap_src_dst_ipv6_fields [of "drop o_ip6 pre" s d "take o_ip6 pre" post]
      swap_src_dst_ipv6_fields [of "drop o_ip6 pre" d s "take o_ip6 pre" post]
    by (auto simp flip: append_assoc)
next
  assume "o_ip + 20 \<le> length p"
  then have "(o_ip + 12) + 4 + 4 \<le> length p"
    by simp
  then obtain pre s d post
    where p: "p = pre @ s @ d @ post" "length pre = o_ip + 12" "length s = 4" "length d = 4"
    by (rule split_fields)
  then show "\<exists>q. swap_src_dst_ipv4 p o_ip = Some q \<and> swap_src_dst_ipv4 q o_ip = Some p
      \<and> q = take (o_ip + 12) p @ take 4 (drop (o_ip + 16) p) @ take 4 (drop (o_ip + 12) p)
            @ drop (o_ip + 20) p"
    using swap_src_dst_ipv4_fields [of "drop o_ip pre" s d "take o_ip pre" post]
      swap_src_dst_ipv4_fields [of "drop o_ip pre" d s "take o_ip pre" post]
    by (auto simp flip: append_assoc)
qed

theorem address_swaps_involutive_witness:
  "\<exists>q. swap_src_dst_ipv4 (replicate 14 0 @ [1, 2, 3, 4, 5, 6, 7, 8]) 2 = Some q
     \<and> swap_src_dst_ipv4 q 2 = Some (replicate 14 0 @ [1, 2, 3, 4, 5, 6, 7, 8])
     \<and> q = replicate 14 0 @ [5, 6, 7, 8, 1, 2, 3, 4]"
  using address_swaps_involutive [of 0 "replicate 14 0 @ [1, 2, 3, 4, 5, 6, 7, 8]" 0 2]
  by simp

end
