(* ===== verification/XdpBlock.thy ===== *)
theory XdpBlock
  imports XdpRewrite
begin

text \<open>
  The port filter of \<^verbatim>\<open>ebpf-xdp/packet/kernel/xdp_packet_block.c\<close>, over the parsers of
  \<^verbatim>\<open>XdpParsing\<close>.  \<^verbatim>\<open>bpf_printk\<close> has no effect on the result and is left out.  The map
  \<^verbatim>\<open>rxcnt\<close> is the one-element per-CPU array, as seen by the CPU that runs the program.
\<close>

section \<open>The program\<close>

definition ETH_P_IP :: u16 where "ETH_P_IP = 0x0800"
definition ETH_P_IPV6 :: u16 where "ETH_P_IPV6 = 0x86DD"
definition IPPROTO_ICMP :: int where "IPPROTO_ICMP = 1"
definition IPPROTO_TCP :: int where "IPPROTO_TCP = 6"
definition IPPROTO_UDP :: int where "IPPROTO_UDP = 17"

type_synonym rxcnt_map = "u32 \<rightharpoonup> u64"

text \<open>\<^verbatim>\<open>check += bpf_htons(1); if (!check) check += bpf_htons(1);\<close>\<close>

definition bump_check :: "packet \<Rightarrow> nat \<Rightarrow> packet option" where
  "bump_check p off =
     do {
       c \<leftarrow> load16 p off;
       p \<leftarrow> store16 p off (c + swap16 1);
       c \<leftarrow> load16 p off;
       if c = 0 then store16 p off (c + swap16 1) else Some p
     }"

definition block_udp :: "rxcnt_map \<Rightarrow> packet \<Rightarrow> nat \<Rightarrow> (xdp_action \<times> packet \<times> rxcnt_map) option"
  where
  "block_udp rxcnt p udphdr =
     do {
       dest \<leftarrow> load16 p (udphdr + 2);
       p \<leftarrow> store16 p (udphdr + 2) (swap16 (swap16 dest - 1));
       p \<leftarrow> bump_check p (udphdr + 6);
       Some (XDP_PASS, p, rxcnt)
     }"

definition block_tcp :: "rxcnt_map \<Rightarrow> packet \<Rightarrow> nat \<Rightarrow> (xdp_action \<times> packet \<times> rxcnt_map) option"
  where
  "block_tcp rxcnt p tcphdr =
     do {
       dest \<leftarrow> load16 p (tcphdr + 2);
       p \<leftarrow> store16 p (tcphdr + 2) (swap16 dest);
       p \<leftarrow> bump_check p (tcphdr + 16);
       dest \<leftarrow> load16 p (tcphdr + 2);
       if dest = 9999 then
         Some (XDP_DROP, p,
           case rxcnt 0 of Some value \<Rightarrow> rxcnt(0 \<mapsto> value + 1) | None \<Rightarrow> rxcnt)
       else do {
         p \<leftarrow> store16 p (tcphdr + 2) (swap16 dest);
         Some (XDP_PASS, p, rxcnt)
       }
     }"

definition xdp_block_port_func ::
  "rxcnt_map \<Rightarrow> packet \<Rightarrow> (xdp_action \<times> packet \<times> rxcnt_map) option" where
  "xdp_block_port_func rxcnt p =
     do {
       (eth_type, nh, _) \<leftarrow> parse_ethhdr p \<lparr>pos = 0\<rparr>;
       if eth_type < 0 then Some (XDP_ABORTED, p, rxcnt)
       else if eth_type \<noteq> uint (swap16 ETH_P_IP) \<and> eth_type \<noteq> uint (swap16 ETH_P_IPV6)
       then Some (XDP_PASS, p, rxcnt)
       else do {
         (ip_type, nh, _) \<leftarrow>
           (if eth_type = uint (swap16 ETH_P_IP) then parse_iphdr p nh else parse_ip6hdr p nh);
         if ip_type = IPPROTO_UDP then do {
           (len, _, udphdr) \<leftarrow> parse_udphdr p nh;
           if len < 0 then Some (XDP_ABORTED, p, rxcnt)
           else do {
             udphdr \<leftarrow> udphdr;
             block_udp rxcnt p udphdr
           }
         }
         else if ip_type = IPPROTO_TCP then do {
           (len, _, tcphdr) \<leftarrow> parse_tcphdr p nh;
           if len < 0 then Some (XDP_ABORTED, p, rxcnt)
           else do {
             tcphdr \<leftarrow> tcphdr;
             block_tcp rxcnt p tcphdr
           }
         }
         else Some (XDP_PASS, p, rxcnt)
       }
     }"

section \<open>Safety\<close>

lemma load16_update_exists: "i + 1 < length p \<Longrightarrow> length q = length p \<Longrightarrow> \<exists>w. load16 q i = Some w"
  by (simp add: load16_def)

lemma bump_check_ok:
  "off + 1 < length p \<Longrightarrow> \<exists>q. bump_check p off = Some q \<and> length q = length p"
  by (simp add: bump_check_def load16_def store16_def)

lemma block_udp_ok:
  assumes "udphdr + sizeof_udphdr \<le> length p"
  shows "\<exists>q. block_udp rxcnt p udphdr = Some (XDP_PASS, q, rxcnt) \<and> length q = length p"
proof -
  obtain dest where d: "load16 p (udphdr + 2) = Some dest"
    using load16_exists [of "udphdr + 2" p] assms by auto
  obtain p1 where p1: "store16 p (udphdr + 2) (swap16 (swap16 dest - 1)) = Some p1"
    "length p1 = length p"
    using assms by (simp add: store16_def)
  obtain p2 where p2: "bump_check p1 (udphdr + 6) = Some p2" "length p2 = length p1"
    using bump_check_ok [of "udphdr + 6" p1] assms p1 by auto
  from d p1 p2 show ?thesis
    by (simp add: block_udp_def)
qed

lemma block_tcp_ok:
  assumes "tcphdr + sizeof_tcphdr \<le> length p"
  shows "\<exists>a q m. block_tcp rxcnt p tcphdr = Some (a, q, m) \<and> length q = length p"
proof -
  obtain dest where d: "load16 p (tcphdr + 2) = Some dest"
    using load16_exists [of "tcphdr + 2" p] assms by auto
  obtain p1 where p1: "store16 p (tcphdr + 2) (swap16 dest) = Some p1" "length p1 = length p"
    using assms by (simp add: store16_def)
  obtain p2 where p2: "bump_check p1 (tcphdr + 16) = Some p2" "length p2 = length p1"
    using bump_check_ok [of "tcphdr + 16" p1] assms p1 by auto
  obtain dest2 where d2: "load16 p2 (tcphdr + 2) = Some dest2"
    using load16_exists [of "tcphdr + 2" p2] assms p1 p2 by auto
  obtain p3 where p3: "store16 p2 (tcphdr + 2) (swap16 dest2) = Some p3" "length p3 = length p2"
    using assms p1 p2 by (simp add: store16_def)
  from d p1 p2 d2 p3 show ?thesis
    by (simp add: block_tcp_def)
qed

text \<open>
  C6.  The port filter is memory safe: on every packet and every state of its map it
  returns an action without reading or writing a byte outside the packet, and it keeps the
  packet's length.
\<close>

theorem xdp_block_port_safe:
  "\<exists>action q rxcnt'. xdp_block_port_func rxcnt p = Some (action, q, rxcnt') \<and> length q = length p"
proof -
  obtain r nh h where e: "parse_ethhdr p \<lparr>pos = 0\<rparr> = Some (r, nh, h)"
    by (rule eth.obtain_result)
  define ip where
    "ip = (if r = uint (swap16 ETH_P_IP) then parse_iphdr p nh else parse_ip6hdr p nh)"
  obtain t nh2 h2 where i: "ip = Some (t, nh2, h2)"
    using ip.obtain_result [of p nh] ip6.obtain_result [of p nh] unfolding ip_def by metis
  obtain ru nhu hu where u: "parse_udphdr p nh2 = Some (ru, nhu, hu)"
    by (rule udp.obtain_result)
  obtain rt nht ht where t: "parse_tcphdr p nh2 = Some (rt, nht, ht)"
    by (rule tcp.obtain_result)
  have udp: "\<exists>q. block_udp rxcnt p (pos nh2) = Some (XDP_PASS, q, rxcnt) \<and> length q = length p"
    if "0 \<le> ru"
    using block_udp_ok udp.success [OF u that] by auto
  have tcp: "\<exists>a q m. block_tcp rxcnt p (pos nh2) = Some (a, q, m) \<and> length q = length p"
    if "0 \<le> rt"
    using block_tcp_ok tcp.success [OF t that] by auto
  show ?thesis
    unfolding xdp_block_port_func_def e using i u t udp tcp udp.success [OF u] tcp.success [OF t]
    by (auto simp: ip_def [symmetric] not_less)
qed


section \<open>Well-formed packets\<close>

text \<open>An IPv4 header whose length field is its length, and the transport headers.\<close>

definition wf_iphdr :: "packet \<Rightarrow> bool" where
  "wf_iphdr ip \<longleftrightarrow> 20 \<le> length ip \<and> length ip = 4 * unat (ip ! 0 AND 0x0f)"

definition wf_tcphdr :: "packet \<Rightarrow> bool" where
  "wf_tcphdr tcp \<longleftrightarrow> 20 \<le> length tcp \<and> length tcp = 4 * unat (drop_bit 4 (tcp ! 12))"

definition wf_udphdr :: "packet \<Rightarrow> bool" where
  "wf_udphdr udp \<longleftrightarrow> length udp = 8 \<and> 8 \<le> unat (le16 (udp ! 5) (udp ! 4))"

text \<open>The sixteen-bit network-order field at an offset.\<close>

definition net16 :: "packet \<Rightarrow> nat \<Rightarrow> u16" where
  "net16 h i = le16 (h ! (i + 1)) (h ! i)"

definition set_net16 :: "packet \<Rightarrow> nat \<Rightarrow> u16 \<Rightarrow> packet" where
  "set_net16 h i w = h[i := hi8 w, i + 1 := lo8 w]"

definition ip_packet :: "packet \<Rightarrow> (u16 \<times> u16) list \<Rightarrow> packet \<Rightarrow> packet \<Rightarrow> packet \<Rightarrow> packet" where
  "ip_packet macs tags ip l4 payload = eth_frame macs tags ETH_P_IP (ip @ l4 @ payload)"

lemma parse_iphdr_segment:
  assumes "wf_iphdr ip"
  shows "parse_iphdr (pre @ ip @ post) \<lparr>pos = length pre\<rparr> =
    Some (uint (ip ! 9), \<lparr>pos = length pre + length ip\<rparr>, Some (length pre))"
proof -
  have len: "20 \<le> length ip" and ihl: "unat (ip ! 0 AND 0x0f) * 4 = length ip"
    using assms by (simp_all add: wf_iphdr_def)
  have "load8 (pre @ ip @ post) (length pre) = Some (ip ! 0)"
    using load8_segment [of 0 ip pre post] len by force
  moreover have "load8 (pre @ ip @ post) (length pre + 9) = Some (ip ! 9)"
    using load8_segment [of 9 ip pre post] len by auto
  ultimately show ?thesis
    using len ihl by (simp add: parse_iphdr_def Let_def)
qed

lemma parse_tcphdr_segment:
  assumes "wf_tcphdr tcp"
  shows "\<exists>nh. parse_tcphdr (pre @ tcp @ post) \<lparr>pos = length pre\<rparr> =
    Some (int (length tcp), nh, Some (length pre))"
proof -
  have len: "20 \<le> length tcp" and doff: "unat (drop_bit 4 (tcp ! 12)) * 4 = length tcp"
    using assms by (simp_all add: wf_tcphdr_def)
  have "load8 (pre @ tcp @ post) (length pre + 12) = Some (tcp ! 12)"
    using load8_segment [of 12 tcp pre post] len by auto
  then show ?thesis
    using len doff by (simp add: parse_tcphdr_def Let_def)
qed

lemma parse_udphdr_segment:
  assumes "wf_udphdr udp"
  shows "\<exists>len nh. parse_udphdr (pre @ udp @ post) \<lparr>pos = length pre\<rparr> =
    Some (len, nh, Some (length pre)) \<and> 0 \<le> len"
proof -
  have len: "length udp = 8" and l: "8 \<le> unat (le16 (udp ! 5) (udp ! 4))"
    using assms by (simp_all add: wf_udphdr_def)
  have "load16 (pre @ udp @ post) (length pre + 4) = Some (le16 (udp ! 4) (udp ! 5))"
    using load16_segment [of 4 udp pre post] len by simp
  moreover have "8 \<le> uint (le16 (udp ! 5) (udp ! 4))"
    unfolding uint_nat using l by linarith
  ultimately show ?thesis
    using len by (simp add: parse_udphdr_def Let_def)
qed

lemma parse_ethhdr_ip_packet:
  assumes "length macs = 12" "\<forall>t \<in> set tags. is_tpid (fst t)" "length tags \<le> VLAN_MAX_DEPTH"
  shows "parse_ethhdr (ip_packet macs tags ip l4 payload) \<lparr>pos = 0\<rparr> =
    Some (uint (swap16 ETH_P_IP), \<lparr>pos = length (macs @ enc_tags tags ETH_P_IP)\<rparr>, Some 0)"
proof -
  have "length (enc_tags tags ETH_P_IP) = 2 + 4 * length tags"
    by (induction tags) auto
  moreover have "\<not> is_tpid ETH_P_IP"
    by (simp add: is_tpid_def ETH_P_IP_def)
  ultimately show ?thesis
    using assms parse_ethhdr_vlan_frame_aux [OF assms(1,2), of ETH_P_IP None "ip @ l4 @ payload"]
    by (simp add: parse_ethhdr_def ip_packet_def Let_def min_absorb2 proto_of_def)
qed

text \<open>
  On a little-endian host \<^verbatim>\<open>bpf_htons(1)\<close> is \<^verbatim>\<open>0x0100\<close>: the addition changes the second
  byte of the field, the low one in network order, and loses the carry.
\<close>

definition bumped :: "u8 \<Rightarrow> u8 \<Rightarrow> u8" where
  "bumped a b = (if a = 0 \<and> b = 255 then 1 else b + 1)"

lemma le16_add_htons1: "le16 a b + swap16 1 = le16 a (b + 1)"
proof -
  have one: "swap16 1 = (256 :: u16)"
    by (simp add: swap16_def le16_def lo8_def hi8_def word_cat_eq)
  have a: "unat a < 256" and b: "unat b < 256"
    by (rule unat_u8_less)+
  have "unat (le16 a b + 256) = (unat a + 256 * unat b + 256) mod 65536"
    by (simp add: unat_word_ariths unat_le16)
  also have "\<dots> = unat a + 256 * ((unat b + 1) mod 256)"
  proof (cases "unat b = 255")
    case False
    then have "unat b + 1 < 256" "unat a + 256 * unat b + 256 < 65536"
      using a b by linarith+
    then show ?thesis
      by simp
  qed (use a in simp)
  also have "\<dots> = unat (le16 a (b + 1))"
    by (simp add: unat_word_ariths unat_le16)
  finally show ?thesis
    unfolding one by (simp add: word_unat_eq_iff)
qed

lemma le16_eq_0: "le16 a b = 0 \<longleftrightarrow> a = 0 \<and> b = 0"
proof -
  have "(0 :: u16) = le16 0 0"
    by (simp add: le16_def word_cat_eq)
  then show ?thesis
    by (metis le16_eq_iff)
qed

lemma u8_inc_eq_0: "b + 1 = 0 \<longleftrightarrow> b = (255 :: u8)"
proof
  assume "b + 1 = 0"
  then have "b = - 1"
    by (simp add: eq_neg_iff_add_eq_0)
  then show "b = 255"
    by simp
qed simp

lemma bump_check_segment:
  assumes "i + 1 < length x"
  shows "bump_check (pre @ x @ post) (length pre + i) =
    Some (pre @ x[i + 1 := bumped (x ! i) (x ! (i + 1))] @ post)"
proof (cases "x ! i = 0 \<and> x ! (i + 1) = 255")
  case True
  then have new: "bumped (x ! i) (x ! (i + 1)) = 1"
    by (simp add: bumped_def)
  have z: "le16 (x ! i) (x ! (i + 1)) + swap16 1 = 0"
    using True by (simp add: le16_add_htons1 le16_eq_0 u8_inc_eq_0)
  have lo: "lo8 0 = 0" "hi8 0 = 0" "lo8 (swap16 1) = 0" "hi8 (swap16 1) = 1"
    by (simp_all add: swap16_def) (simp_all add: lo8_def hi8_def)
  have same: "x[i := 0, Suc i := c] = x[Suc i := c]" for c
    using True by (metis list_update_id)
  show ?thesis
    unfolding new using assms z lo same
    by (simp add: bump_check_def load16_segment store16_segment list_update_swap [of "Suc i" i])
next
  case False
  then have "le16 (x ! i) (x ! (i + 1) + 1) \<noteq> 0"
    by (simp add: le16_eq_0 u8_inc_eq_0)
  with False assms show ?thesis
    by (auto simp: bump_check_def load16_segment store16_segment le16_add_htons1 bumped_def)
qed

lemma block_tcp_segment:
  assumes "20 \<le> length tcp"
  shows "block_tcp rxcnt (pre @ tcp @ post) (length pre) =
    (if net16 tcp 2 = 9999 then
       Some (XDP_DROP,
         pre @ tcp[2 := tcp ! 3, 3 := tcp ! 2, 17 := bumped (tcp ! 16) (tcp ! 17)] @ post,
         case rxcnt 0 of Some value \<Rightarrow> rxcnt(0 \<mapsto> value + 1) | None \<Rightarrow> rxcnt)
     else
       Some (XDP_PASS, pre @ tcp[17 := bumped (tcp ! 16) (tcp ! 17)] @ post, rxcnt))"
proof -
  let ?t1 = "tcp[2 := tcp ! 3, 3 := tcp ! 2]"
  let ?t2 = "?t1[17 := bumped (tcp ! 16) (tcp ! 17)]"
  have 1: "load16 (pre @ tcp @ post) (length pre + 2) = Some (le16 (tcp ! 2) (tcp ! 3))"
    using load16_segment [of 2 tcp pre post] assms by simp
  have 2: "store16 (pre @ tcp @ post) (length pre + 2) (le16 (tcp ! 3) (tcp ! 2)) =
      Some (pre @ ?t1 @ post)"
    using store16_segment [of 2 tcp pre post] assms by simp
  have 3: "bump_check (pre @ ?t1 @ post) (length pre + 16) = Some (pre @ ?t2 @ post)"
    using bump_check_segment [of 16 ?t1 pre post] assms by simp
  have 4: "load16 (pre @ ?t2 @ post) (length pre + 2) = Some (net16 tcp 2)"
    using load16_segment [of 2 ?t2 pre post] assms by (simp add: net16_def)
  have "?t2[2 := tcp ! 2, 3 := tcp ! 3] = tcp[17 := bumped (tcp ! 16) (tcp ! 17)]"
    by (simp add: list_update_swap [of 17 2] list_update_swap [of 17 3] list_update_swap [of 3 2])
  then have 5: "store16 (pre @ ?t2 @ post) (length pre + 2) (swap16 (net16 tcp 2)) =
      Some (pre @ tcp[17 := bumped (tcp ! 16) (tcp ! 17)] @ post)"
    using store16_segment [of 2 ?t2 pre post] assms by (simp add: net16_def)
  show ?thesis
    by (simp add: block_tcp_def 1 2 3 4 5)
qed

lemma block_udp_segment:
  assumes "length udp = 8"
  shows "block_udp rxcnt (pre @ udp @ post) (length pre) =
    Some (XDP_PASS,
      pre @ (set_net16 udp 2 (net16 udp 2 - 1))[7 := bumped (udp ! 6) (udp ! 7)] @ post, rxcnt)"
proof -
  let ?u1 = "set_net16 udp 2 (net16 udp 2 - 1)"
  have 1: "load16 (pre @ udp @ post) (length pre + 2) = Some (swap16 (net16 udp 2))"
    using load16_segment [of 2 udp pre post] assms by (simp add: net16_def)
  have 2: "store16 (pre @ udp @ post) (length pre + 2) (swap16 (net16 udp 2 - 1)) =
      Some (pre @ ?u1 @ post)"
    using store16_segment [of 2 udp pre post] assms by (simp add: set_net16_def swap16_def)
  have 3: "bump_check (pre @ ?u1 @ post) (length pre + 6) =
      Some (pre @ ?u1[7 := bumped (udp ! 6) (udp ! 7)] @ post)"
    using bump_check_segment [of 6 ?u1 pre post] assms by (simp add: set_net16_def)
  show ?thesis
    by (simp add: block_udp_def 1 2 3)
qed


lemma xdp_block_port_l4:
  assumes "length macs = 12" "\<forall>t \<in> set tags. is_tpid (fst t)" "length tags \<le> VLAN_MAX_DEPTH"
    and "wf_iphdr ip"
  defines "pre \<equiv> macs @ enc_tags tags ETH_P_IP @ ip"
  shows "uint (ip ! 9) = IPPROTO_TCP \<Longrightarrow> wf_tcphdr l4 \<Longrightarrow>
      xdp_block_port_func rxcnt (ip_packet macs tags ip l4 payload) =
        block_tcp rxcnt (pre @ l4 @ payload) (length pre)"
    and "uint (ip ! 9) = IPPROTO_UDP \<Longrightarrow> wf_udphdr l4 \<Longrightarrow>
      xdp_block_port_func rxcnt (ip_packet macs tags ip l4 payload) =
        block_udp rxcnt (pre @ l4 @ payload) (length pre)"
proof -
  have p: "ip_packet macs tags ip l4 payload = pre @ l4 @ payload"
    by (simp add: ip_packet_def eth_frame_def pre_def)
  have e: "parse_ethhdr (pre @ l4 @ payload) \<lparr>pos = 0\<rparr> =
      Some (uint (swap16 ETH_P_IP), \<lparr>pos = length (macs @ enc_tags tags ETH_P_IP)\<rparr>, Some 0)"
    using parse_ethhdr_ip_packet [OF assms(1-3), of ip l4 payload] by (simp add: p)
  have i: "parse_iphdr (pre @ l4 @ payload) \<lparr>pos = length (macs @ enc_tags tags ETH_P_IP)\<rparr> =
      Some (uint (ip ! 9), \<lparr>pos = length pre\<rparr>, Some (length (macs @ enc_tags tags ETH_P_IP)))"
    using parse_iphdr_segment [OF assms(4), of "macs @ enc_tags tags ETH_P_IP" "l4 @ payload"]
    by (simp add: pre_def)
  show "uint (ip ! 9) = IPPROTO_TCP \<Longrightarrow> wf_tcphdr l4 \<Longrightarrow>
      xdp_block_port_func rxcnt (ip_packet macs tags ip l4 payload) =
        block_tcp rxcnt (pre @ l4 @ payload) (length pre)"
    unfolding p xdp_block_port_func_def e
    using i parse_tcphdr_segment [of l4 pre payload]
    by (auto simp: IPPROTO_TCP_def IPPROTO_UDP_def)
  show "uint (ip ! 9) = IPPROTO_UDP \<Longrightarrow> wf_udphdr l4 \<Longrightarrow>
      xdp_block_port_func rxcnt (ip_packet macs tags ip l4 payload) =
        block_udp rxcnt (pre @ l4 @ payload) (length pre)"
    unfolding p xdp_block_port_func_def e
    using i parse_udphdr_segment [of l4 pre payload]
    by (auto simp: IPPROTO_UDP_def)
qed

lemma mod_neq_of_close:
  fixes x y m :: nat
  assumes "x < y" "y - x < m"
  shows "x mod m \<noteq> y mod m"
proof
  assume "x mod m = y mod m"
  then have "m dvd y - x"
    using assms(1) mod_eq_dvd_iff_nat [of x y m] by simp
  then show False
    using assms by (auto dest: dvd_imp_le)
qed

lemma unat_minus_one_u16 [simp]: "unat (- 1 :: u16) = 65535"
  by (simp add: unsigned_minus_1_eq_mask mask_eq_exp_minus_1)

lemma unat_dec: "unat (d - 1) = (if d = 0 then 65535 else unat d - 1)" for d :: u16
proof (cases "d = 0")
  case False
  then show ?thesis
    by (simp add: unat_minus_one)
qed simp

lemma unat_bumped:
  "unat (bumped a b) = (if b = 255 then if a = 0 then 1 else 0 else unat b + 1)"
proof (cases "b = 255")
  case False
  then have "unat b \<noteq> unat (255 :: u8)"
    by (metis word_unat_eq_iff)
  then have "unat b \<noteq> 255"
    by simp
  with unat_u8_less [of b] have "unat b + 1 < 256"
    by linarith
  with False show ?thesis
    by (simp add: bumped_def unat_word_ariths)
qed (simp add: bumped_def)

lemma udp_sum_iff:
  "(unat (d - 1) + unat (le16 (bumped a b) a)) mod 65535 = (unat d + unat (le16 b a)) mod 65535
   \<longleftrightarrow> d \<noteq> 0 \<and> b \<noteq> 255" for d :: u16
proof -
  let ?x = "unat (d - 1) + unat (le16 (bumped a b) a)" and ?y = "unat d + unat (le16 b a)"
  have b255: "b = 255 \<Longrightarrow> unat b = 255"
    by simp
  have d0: "d \<noteq> 0 \<Longrightarrow> 0 < unat d"
    by (simp add: unat_gt_0)
  consider "d \<noteq> 0" "b \<noteq> 255" | "d = 0" "b \<noteq> 255" | "b = 255"
    by blast
  then show ?thesis
  proof cases
    case 1
    then have "?x = ?y"
      using d0 by (simp add: unat_dec unat_le16 unat_bumped)
    with 1 show ?thesis
      by simp
  next
    case 2
    then have "?x = ?y + 1 + 65535"
      by (simp add: unat_dec unat_le16 unat_bumped)
    then have "?x mod 65535 = (?y + 1) mod 65535"
      by (metis mod_add_self2)
    with 2 show ?thesis
      using mod_neq_of_close [of ?y "?y + 1" 65535] by simp
  next
    case 3
    then have "?x mod 65535 \<noteq> ?y mod 65535"
      using d0 b255
      by (cases "d = 0"; cases "a = 0")
        (simp_all add: unat_dec unat_le16 unat_bumped mod_neq_of_close)
    with 3 show ?thesis
      by simp
  qed
qed

section \<open>Properties\<close>

text \<open>
  C7.  TCP over IPv4, with up to two VLAN tags and any IP options: a segment to port 9999 is
  dropped and counted once; any other segment passes, unchanged but for its checksum field,
  which is bumped although no header field has changed.
\<close>

theorem xdp_block_port_tcp:
  assumes "length macs = 12" "\<forall>t \<in> set tags. is_tpid (fst t)" "length tags \<le> VLAN_MAX_DEPTH"
    and "wf_iphdr ip" "uint (ip ! 9) = IPPROTO_TCP" "wf_tcphdr tcp"
  shows "if net16 tcp 2 = 9999
    then (\<exists>q. xdp_block_port_func rxcnt (ip_packet macs tags ip tcp payload) =
        Some (XDP_DROP, q,
          case rxcnt 0 of Some value \<Rightarrow> rxcnt(0 \<mapsto> value + 1) | None \<Rightarrow> rxcnt))
    else xdp_block_port_func rxcnt (ip_packet macs tags ip tcp payload) =
        Some (XDP_PASS,
          ip_packet macs tags ip (tcp[17 := bumped (tcp ! 16) (tcp ! 17)]) payload, rxcnt)"
  using xdp_block_port_l4(1) [OF assms, of rxcnt payload] assms(6)
    block_tcp_segment [of tcp rxcnt "macs @ enc_tags tags ETH_P_IP @ ip" payload]
  by (simp add: wf_tcphdr_def ip_packet_def eth_frame_def)

definition demo_ip :: "u8 \<Rightarrow> packet" where
  "demo_ip proto = [0x45, 0, 0, 40, 0, 0, 0, 0, 64, proto, 0, 0, 10, 0, 0, 1, 10, 0, 0, 2]"

definition demo_tcp :: "u8 \<Rightarrow> u8 \<Rightarrow> packet" where
  "demo_tcp p1 p2 = [0, 80, p1, p2, 0, 0, 0, 0, 0, 0, 0, 0, 0x50, 0, 0, 0, 0x12, 0x34, 0, 0]"

theorem xdp_block_port_tcp_witness:
  "\<exists>q. xdp_block_port_func [0 \<mapsto> 6] (ip_packet (replicate 12 7) [(0x8100, 5)] (demo_ip 6)
      (demo_tcp 0x27 0x0f) []) = Some (XDP_DROP, q, [0 \<mapsto> 7])"
proof -
  have net: "net16 (demo_tcp 0x27 0x0f) 2 = 9999"
    by (simp add: net16_def demo_tcp_def le16_def word_cat_eq)
  show ?thesis
    using xdp_block_port_tcp [of "replicate 12 7" "[(0x8100, 5)]" "demo_ip 6" "demo_tcp 0x27 0x0f"
        "[0 \<mapsto> 6]" "[]"] net
    by (simp add: is_tpid_def VLAN_MAX_DEPTH_def wf_iphdr_def demo_ip_def IPPROTO_TCP_def
        wf_tcphdr_def demo_tcp_def)
qed

text \<open>
  C8.  UDP over IPv4: the datagram passes with its destination port lowered by one (modulo
  65536) and only the low byte of its checksum field changed.  The new header has the same
  ones' complement sum as the old one, so that a correct checksum stays correct, exactly
  when the port was not zero and the low byte of the checksum was not \<^verbatim>\<open>0xff\<close>: the code
  loses the end-around carry.
\<close>

theorem xdp_block_port_udp:
  assumes "length macs = 12" "\<forall>t \<in> set tags. is_tpid (fst t)" "length tags \<le> VLAN_MAX_DEPTH"
    and "wf_iphdr ip" "uint (ip ! 9) = IPPROTO_UDP" "wf_udphdr udp"
  shows "\<exists>udp'. xdp_block_port_func rxcnt (ip_packet macs tags ip udp payload) =
      Some (XDP_PASS, ip_packet macs tags ip udp' payload, rxcnt)
    \<and> net16 udp' 2 = net16 udp 2 - 1
    \<and> (\<forall>i. i \<notin> {2, 3, 7} \<longrightarrow> udp' ! i = udp ! i)
    \<and> ((unat (net16 udp' 2) + unat (net16 udp' 6)) mod 65535
        = (unat (net16 udp 2) + unat (net16 udp 6)) mod 65535
       \<longleftrightarrow> net16 udp 2 \<noteq> 0 \<and> udp ! 7 \<noteq> 255)"
proof -
  let ?u = "(set_net16 udp 2 (net16 udp 2 - 1))[7 := bumped (udp ! 6) (udp ! 7)]"
  have len: "length udp = 8"
    using assms(6) by (simp add: wf_udphdr_def)
  have run: "xdp_block_port_func rxcnt (ip_packet macs tags ip udp payload) =
      Some (XDP_PASS, ip_packet macs tags ip ?u payload, rxcnt)"
    using xdp_block_port_l4(2) [OF assms, of rxcnt payload]
      block_udp_segment [OF len, of rxcnt "macs @ enc_tags tags ETH_P_IP @ ip" payload]
    by (simp add: ip_packet_def eth_frame_def)
  have port: "net16 ?u 2 = net16 udp 2 - 1"
    using len by (simp add: set_net16_def net16_def)
  have frame: "i \<notin> {2, 3, 7} \<Longrightarrow> ?u ! i = udp ! i" for i
    by (simp add: set_net16_def)
  have chk: "net16 ?u 6 = le16 (bumped (udp ! 6) (udp ! 7)) (udp ! 6)"
    using len by (simp add: set_net16_def net16_def)
  have sum: "(unat (net16 ?u 2) + unat (net16 ?u 6)) mod 65535
        = (unat (net16 udp 2) + unat (net16 udp 6)) mod 65535
       \<longleftrightarrow> net16 udp 2 \<noteq> 0 \<and> udp ! 7 \<noteq> 255"
    unfolding port chk by (simp add: net16_def [of udp 6] udp_sum_iff)
  show ?thesis
    using run port frame sum by blast
qed


theorem xdp_block_port_udp_witness:
  "\<exists>udp'. xdp_block_port_func Map.empty
       (ip_packet (replicate 12 7) [] (demo_ip 17) [0, 80, 0, 53, 0, 8, 0x12, 0xff] []) =
     Some (XDP_PASS, ip_packet (replicate 12 7) [] (demo_ip 17) udp' [], Map.empty)
   \<and> (unat (net16 udp' 2) + unat (net16 udp' 6)) mod 65535 \<noteq> (53 + 0x12ff) mod 65535"
proof -
  have wf: "wf_udphdr [0, 80, 0, 53, 0, 8, 0x12, 0xff]"
    by (simp add: wf_udphdr_def unat_le16)
  have net: "unat (net16 [0, 80, 0, 53, 0, 8, 0x12, 0xff] 2) = 53"
    "unat (net16 [0, 80, 0, 53, 0, 8, 0x12, 0xff] 6) = 0x12ff"
    by (simp_all add: net16_def unat_le16)
  show ?thesis
    using xdp_block_port_udp [of "replicate 12 7" "[]" "demo_ip 17" "[0, 80, 0, 53, 0, 8, 0x12, 0xff]"
        Map.empty "[]"] wf net
    by (auto simp: VLAN_MAX_DEPTH_def wf_iphdr_def demo_ip_def IPPROTO_UDP_def)
qed

end
