(* ===== verification/XdpProgs.thy ===== *)
theory XdpProgs
  imports XdpBlock
begin

text \<open>
  The XDP programs of \<^verbatim>\<open>ebpf-xdp/kernel\<close>: \<^verbatim>\<open>xdp_pass.c\<close>, \<^verbatim>\<open>xdp_map_allow.c\<close>,
  \<^verbatim>\<open>xdp_redirect_dev.c\<close>, \<^verbatim>\<open>xdp_redirect_xsk.c\<close> and \<^verbatim>\<open>_xsk_def_xdp_prog.c\<close>.

  The kernel helpers are parameters: \<^verbatim>\<open>bpf_fib_lookup\<close> (from the request to the return code
  and the filled structure), \<^verbatim>\<open>bpf_redirect\<close>, \<^verbatim>\<open>bpf_redirect_map\<close> and the lookup in the
  trie \<^verbatim>\<open>allowed_addr\<close>.  A big-endian address is the four bytes it has in memory.
\<close>

section \<open>Data\<close>

record fib_params =
  fib_family :: u8
  ipv4_src :: packet
  ipv4_dst :: packet
  ifindex :: u32
  smac :: packet
  dmac :: packet

definition BPF_FIB_LKUP_RET_SUCCESS :: int where "BPF_FIB_LKUP_RET_SUCCESS = 0"
definition BPF_FIB_LKUP_RET_NO_NEIGH :: int where "BPF_FIB_LKUP_RET_NO_NEIGH = 7"

type_synonym fib_lookup = "fib_params \<Rightarrow> int \<times> fib_params"

text \<open>The address arrays \<^verbatim>\<open>smac\<close> and \<^verbatim>\<open>dmac\<close> have \<^verbatim>\<open>ETH_ALEN\<close> bytes.\<close>

definition fib_contract :: "fib_lookup \<Rightarrow> bool" where
  "fib_contract fib \<longleftrightarrow>
     (\<forall>req. length (smac (snd (fib req))) = 6 \<and> length (dmac (snd (fib req))) = 6)"

text \<open>The zeroed request with the four fields the programs set.\<close>

definition fib_request :: "packet \<Rightarrow> packet \<Rightarrow> u32 \<Rightarrow> fib_params" where
  "fib_request src dst ingress =
     \<lparr>fib_family = 2, ipv4_src = src, ipv4_dst = dst, ifindex = ingress,
      smac = replicate 6 0, dmac = replicate 6 0\<rparr>"

definition set_macs :: "packet \<Rightarrow> fib_params \<Rightarrow> packet option" where
  "set_macs p fp = do { p \<leftarrow> store_bytes p 0 (dmac fp); store_bytes p 6 (smac fp) }"

section \<open>xdp\_pass.c and xdp\_map\_allow.c\<close>

definition xdp_pass_prog :: "packet \<Rightarrow> xdp_action" where
  "xdp_pass_prog p = XDP_PASS"

text \<open>
  The trie's values are 32 bits wide; the program reads the first two bytes of the value,
  its low half on a little-endian host.
\<close>

definition allowed_addr_prog :: "(u32 \<times> u32 \<rightharpoonup> u32) \<Rightarrow> packet \<Rightarrow> xdp_action option" where
  "allowed_addr_prog allowed_addr p =
     (if sizeof_ethhdr > length p then Some XDP_DROP
      else do {
        h_proto \<leftarrow> load16 p 12;
        if swap16 h_proto \<noteq> 0x0800 then Some XDP_PASS
        else if sizeof_ethhdr + sizeof_iphdr > length p then Some XDP_DROP
        else
          case allowed_addr (32, 0) of
            None \<Rightarrow> Some XDP_DROP
          | Some allow_port_v \<Rightarrow>
              let allow_port = (ucast allow_port_v :: u16) in
              if allow_port = 0 then Some XDP_DROP
              else do {
                protocol \<leftarrow> load8 p (14 + 9);
                if uint protocol = IPPROTO_UDP then
                  if sizeof_ethhdr + sizeof_iphdr + sizeof_udphdr > length p then Some XDP_DROP
                  else do {
                    dest \<leftarrow> load16 p (34 + 2);
                    if swap16 dest = allow_port then Some XDP_PASS else Some XDP_DROP
                  }
                else Some XDP_DROP
              }
      })"

section \<open>xdp\_redirect\_dev.c\<close>

text \<open>
  The ICMP branch: look up the way back, swap the two IPv4 addresses, set the MAC addresses,
  redirect.  \<^verbatim>\<open>saddr\<close> is at offset 26, \<^verbatim>\<open>daddr\<close> at offset 30.
\<close>

definition redirect_icmp ::
  "fib_lookup \<Rightarrow> u32 \<Rightarrow> packet \<Rightarrow> (xdp_action + packet \<times> fib_params) option" where
  "redirect_icmp fib ingress p =
     do {
       daddr \<leftarrow> load_bytes p 30 4;
       saddr \<leftarrow> load_bytes p 26 4;
       let (rc, fp) = fib (fib_request daddr saddr ingress);
       if rc \<noteq> BPF_FIB_LKUP_RET_SUCCESS \<and> rc \<noteq> BPF_FIB_LKUP_RET_NO_NEIGH
       then Some (Inl XDP_DROP)
       else if rc = BPF_FIB_LKUP_RET_NO_NEIGH then Some (Inl XDP_PASS)
       else do {
         oldipdst \<leftarrow> load_bytes p 30 4;
         saddr \<leftarrow> load_bytes p 26 4;
         p \<leftarrow> store_bytes p 30 saddr;
         p \<leftarrow> store_bytes p 26 oldipdst;
         p \<leftarrow> set_macs p fp;
         Some (Inr (p, fp))
       }
     }"

text \<open>The TCP and UDP branches: look up the way to the destination and set the MAC addresses.\<close>

definition redirect_forward ::
  "fib_lookup \<Rightarrow> u32 \<Rightarrow> packet \<Rightarrow> (xdp_action + packet \<times> fib_params) option" where
  "redirect_forward fib ingress p =
     do {
       saddr \<leftarrow> load_bytes p 26 4;
       daddr \<leftarrow> load_bytes p 30 4;
       let (rc, fp) = fib (fib_request saddr daddr ingress);
       if rc \<noteq> BPF_FIB_LKUP_RET_SUCCESS \<and> rc \<noteq> BPF_FIB_LKUP_RET_NO_NEIGH
       then Some (Inl XDP_DROP)
       else if rc = BPF_FIB_LKUP_RET_NO_NEIGH then Some (Inl XDP_PASS)
       else do {
         p \<leftarrow> set_macs p fp;
         Some (Inr (p, fp))
       }
     }"

definition xdp_sock2_prog ::
  "fib_lookup \<Rightarrow> (u32 \<Rightarrow> xdp_action) \<Rightarrow> u32 \<Rightarrow> packet \<Rightarrow> (xdp_action \<times> packet) option" where
  "xdp_sock2_prog fib bpf_redirect ingress p =
     (if sizeof_ethhdr > length p then Some (XDP_PASS, p)
      else do {
        h_proto \<leftarrow> load16 p 12;
        if h_proto \<noteq> 0x08 then Some (XDP_PASS, p)
        else if sizeof_ethhdr + sizeof_iphdr > length p then Some (XDP_PASS, p)
        else do {
          protocol \<leftarrow> load8 p (14 + 9);
          let finish = (\<lambda>r. case r of
              Inl action \<Rightarrow> Some (action, p)
            | Inr (q, fp) \<Rightarrow> Some (bpf_redirect (ifindex fp), q));
          if uint protocol = IPPROTO_ICMP then redirect_icmp fib ingress p \<bind> finish
          else if uint protocol = IPPROTO_TCP then
            if 34 + sizeof_tcphdr > length p then Some (XDP_PASS, p)
            else redirect_forward fib ingress p \<bind> finish
          else if uint protocol = IPPROTO_UDP then
            if 34 + sizeof_udphdr > length p then Some (XDP_PASS, p)
            else redirect_forward fib ingress p \<bind> finish
          else Some (XDP_PASS, p)
        }
      })"

section \<open>xdp\_redirect\_xsk.c and \_xsk\_def\_xdp\_prog.c\<close>

definition xdp_def_prog ::
  "int \<Rightarrow> fib_lookup \<Rightarrow> (u32 \<Rightarrow> xdp_action \<Rightarrow> xdp_action) \<Rightarrow> u32 \<Rightarrow> u32 \<Rightarrow> packet \<Rightarrow>
   (xdp_action \<times> packet) option" where
  "xdp_def_prog refcnt fib bpf_redirect_map ingress rx_queue_index p =
     (if refcnt = 0 then Some (XDP_PASS, p)
      else if sizeof_ethhdr > length p then Some (XDP_PASS, p)
      else do {
        h_proto \<leftarrow> load16 p 12;
        if swap16 h_proto \<noteq> 0x0800 then Some (XDP_PASS, p)
        else if sizeof_ethhdr + sizeof_iphdr > length p then Some (XDP_PASS, p)
        else do {
          protocol \<leftarrow> load8 p (14 + 9);
          let finish = (\<lambda>r. case r of
              Inl action \<Rightarrow> Some (action, p)
            | Inr (q, fp) \<Rightarrow> Some (bpf_redirect_map rx_queue_index XDP_PASS, q));
          if uint protocol = IPPROTO_ICMP then redirect_icmp fib ingress p \<bind> finish
          else if uint protocol = IPPROTO_TCP \<or> uint protocol = IPPROTO_UDP
          then redirect_forward fib ingress p \<bind> finish
          else Some (bpf_redirect_map rx_queue_index XDP_PASS, p)
        }
      })"

definition xsk_def_prog ::
  "int \<Rightarrow> fib_lookup \<Rightarrow> (u32 \<Rightarrow> xdp_action \<Rightarrow> xdp_action) \<Rightarrow> u32 \<Rightarrow> u32 \<Rightarrow> packet \<Rightarrow>
   (xdp_action \<times> packet) option" where
  "xsk_def_prog refcnt fib bpf_redirect_map ingress rx_queue_index p =
     (if refcnt = 0 then Some (XDP_PASS, p)
      else if sizeof_ethhdr > length p then Some (XDP_PASS, p)
      else do {
        h_proto \<leftarrow> load16 p 12;
        if swap16 h_proto \<noteq> 0x0800 then Some (XDP_PASS, p)
        else if sizeof_ethhdr + sizeof_iphdr > length p then Some (XDP_PASS, p)
        else do {
          r \<leftarrow> redirect_forward fib ingress p;
          case r of
            Inl action \<Rightarrow> Some (action, p)
          | Inr (q, fp) \<Rightarrow> Some (bpf_redirect_map rx_queue_index XDP_PASS, q)
        }
      })"


section \<open>The shape of an IPv4 packet without tags\<close>

text \<open>
  MAC addresses, type, the first twelve bytes of the IPv4 header, source and destination
  address, and the rest.  Every packet of at least 34 bytes has this shape.
\<close>

definition ip_shape :: "packet \<Rightarrow> packet \<Rightarrow> packet \<Rightarrow> packet \<Rightarrow> packet \<Rightarrow> bool" where
  "ip_shape m t h s d \<longleftrightarrow>
     length m = 12 \<and> length t = 2 \<and> length h = 12 \<and> length s = 4 \<and> length d = 4"

lemma ip_shape_exists:
  assumes "34 \<le> length p"
  obtains m t h s d rest where "p = m @ t @ h @ s @ d @ rest" "ip_shape m t h s d"
proof
  show "p = take 12 p @ take 2 (drop 12 p) @ take 12 (drop 14 p) @ take 4 (drop 26 p)
      @ take 4 (drop 30 p) @ drop 34 p"
    using append_take_drop_id [of 12 p] append_take_drop_id [of 2 "drop 12 p"]
      append_take_drop_id [of 12 "drop 14 p"] append_take_drop_id [of 4 "drop 26 p"]
      append_take_drop_id [of 4 "drop 30 p"]
    by simp
qed (use assms in \<open>auto simp: ip_shape_def\<close>)

lemma ip_shape_fields:
  assumes "ip_shape m t h s d"
  shows "load16 (m @ t @ h @ s @ d @ rest) 12 = Some (le16 (t ! 0) (t ! 1))"
    and "load8 (m @ t @ h @ s @ d @ rest) 23 = Some (h ! 9)"
    and "load_bytes (m @ t @ h @ s @ d @ rest) 26 4 = Some s"
    and "load_bytes (m @ t @ h @ s @ d @ rest) 30 4 = Some d"
  using assms
  by (simp_all add: ip_shape_def load16_def load8_def load_bytes_def nth_append)

lemma set_macs_shape:
  assumes "length m = 12" "length (smac fp) = 6" "length (dmac fp) = 6"
  shows "set_macs (m @ rest) fp = Some (dmac fp @ smac fp @ rest)"
  using assms by (simp add: set_macs_def store_bytes_def)

lemma fib_contractD:
  assumes "fib_contract fib" "fib req = (rc, fp)"
  shows "length (smac fp) = 6" "length (dmac fp) = 6"
  using assms unfolding fib_contract_def by (metis snd_conv)+

lemma redirect_icmp_shape:
  assumes "fib_contract fib" "ip_shape m t h s d"
  shows "redirect_icmp fib ingress (m @ t @ h @ s @ d @ rest) =
    (case fib (fib_request d s ingress) of (rc, fp) \<Rightarrow>
       if rc = BPF_FIB_LKUP_RET_NO_NEIGH then Some (Inl XDP_PASS)
       else if rc = BPF_FIB_LKUP_RET_SUCCESS
       then Some (Inr (dmac fp @ smac fp @ t @ h @ d @ s @ rest, fp))
       else Some (Inl XDP_DROP))"
proof -
  obtain rc fp where f: "fib (fib_request d s ingress) = (rc, fp)"
    by fastforce
  note l = fib_contractD [OF assms(1) f]
  have "store_bytes (m @ t @ h @ s @ d @ rest) 30 s = Some (m @ t @ h @ s @ s @ rest)"
    and "store_bytes (m @ t @ h @ s @ s @ rest) 26 d = Some (m @ t @ h @ d @ s @ rest)"
    using assms(2) by (simp_all add: ip_shape_def store_bytes_def)
  then show ?thesis
    using f l assms(2) set_macs_shape [of m fp "t @ h @ d @ s @ rest"]
    by (auto simp: redirect_icmp_def ip_shape_fields ip_shape_def)
qed

lemma redirect_forward_shape:
  assumes "fib_contract fib" "ip_shape m t h s d"
  shows "redirect_forward fib ingress (m @ t @ h @ s @ d @ rest) =
    (case fib (fib_request s d ingress) of (rc, fp) \<Rightarrow>
       if rc = BPF_FIB_LKUP_RET_NO_NEIGH then Some (Inl XDP_PASS)
       else if rc = BPF_FIB_LKUP_RET_SUCCESS
       then Some (Inr (dmac fp @ smac fp @ t @ h @ s @ d @ rest, fp))
       else Some (Inl XDP_DROP))"
proof -
  obtain rc fp where f: "fib (fib_request s d ingress) = (rc, fp)"
    by fastforce
  note fib_contractD [OF assms(1) f]
  then show ?thesis
    using f assms(2) set_macs_shape [of m fp "t @ h @ s @ d @ rest"]
    by (auto simp: redirect_forward_def ip_shape_fields ip_shape_def)
qed

text \<open>The sum of the sixteen-bit words of a header, as the IPv4 checksum adds them up.\<close>

fun words_sum :: "packet \<Rightarrow> nat" where
  "words_sum (a # b # r) = 256 * unat a + unat b + words_sum r"
| "words_sum [a] = 256 * unat a"
| "words_sum [] = 0"

lemma words_sum_append: "even (length a) \<Longrightarrow> words_sum (a @ b) = words_sum a + words_sum b"
  by (induction a rule: words_sum.induct) auto


lemma proto_ip_iff: "swap16 w = 0x0800 \<longleftrightarrow> w = 0x08"
proof -
  have "swap16 0x08 = (0x0800 :: u16)"
    by (simp add: swap16_def le16_def lo8_def hi8_def word_cat_eq)
  then show ?thesis
    by (metis swap16_swap16)
qed

lemma redirect_icmp_ok:
  assumes "fib_contract fib" "34 \<le> length p"
  shows "\<exists>r. redirect_icmp fib ingress p = Some r
    \<and> (\<forall>q fp. r = Inr (q, fp) \<longrightarrow> length q = length p)"
proof -
  obtain m t h s d rest where p: "p = m @ t @ h @ s @ d @ rest" "ip_shape m t h s d"
    by (rule ip_shape_exists [OF assms(2)])
  show ?thesis
    unfolding p(1) redirect_icmp_shape [OF assms(1) p(2)] using p(2)
    by (cases "fib (fib_request d s ingress)")
      (auto simp: ip_shape_def fib_contractD [OF assms(1)])
qed

lemma redirect_forward_ok:
  assumes "fib_contract fib" "34 \<le> length p"
  shows "\<exists>r. redirect_forward fib ingress p = Some r
    \<and> (\<forall>q fp. r = Inr (q, fp) \<longrightarrow> length q = length p)"
proof -
  obtain m t h s d rest where p: "p = m @ t @ h @ s @ d @ rest" "ip_shape m t h s d"
    by (rule ip_shape_exists [OF assms(2)])
  show ?thesis
    unfolding p(1) redirect_forward_shape [OF assms(1) p(2)] using p(2)
    by (cases "fib (fib_request s d ingress)")
      (auto simp: ip_shape_def fib_contractD [OF assms(1)])
qed

lemma eth_ip_fields_exist:
  "14 \<le> length p \<Longrightarrow> \<exists>w. load16 p 12 = Some w"
  "34 \<le> length p \<Longrightarrow> \<exists>b. load8 p 23 = Some b"
  by (simp_all add: load16_def load8_def)

section \<open>Properties\<close>

text \<open>
  C9.  The four programs are memory safe: on every packet each returns a verdict without
  touching a byte outside the packet, and a rewritten packet keeps its length.
\<close>

theorem xdp_progs_safe:
  assumes "fib_contract fib"
  shows "(\<exists>a. allowed_addr_prog trie p = Some a)
    \<and> (\<exists>a q. xdp_sock2_prog fib redirect ingress p = Some (a, q) \<and> length q = length p)
    \<and> (\<exists>a q. xdp_def_prog refcnt fib redirect_map ingress queue p = Some (a, q) \<and> length q = length p)
    \<and> (\<exists>a q. xsk_def_prog refcnt fib redirect_map ingress queue p = Some (a, q) \<and> length q = length p)"
proof (cases "34 \<le> length p")
  case True
  then obtain w b where wb: "load16 p 12 = Some w" "load8 p 23 = Some b"
    using eth_ip_fields_exist [of p] by auto
  obtain ri where ri: "redirect_icmp fib ingress p = Some ri"
    "\<forall>q fp. ri = Inr (q, fp) \<longrightarrow> length q = length p"
    using redirect_icmp_ok [OF assms True] by blast
  obtain rf where rf: "redirect_forward fib ingress p = Some rf"
    "\<forall>q fp. rf = Inr (q, fp) \<longrightarrow> length q = length p"
    using redirect_forward_ok [OF assms True] by blast
  have allow: "\<exists>a. allowed_addr_prog trie p = Some a"
    using True wb by (auto simp: allowed_addr_prog_def load16_def Let_def split: option.splits)
  have dev: "\<exists>a q. xdp_sock2_prog fib redirect ingress p = Some (a, q) \<and> length q = length p"
    using True wb ri rf by (auto simp: xdp_sock2_prog_def Let_def split: sum.splits)
  have xsk: "\<exists>a q. xdp_def_prog refcnt fib redirect_map ingress queue p = Some (a, q)
      \<and> length q = length p"
    using True wb ri rf by (auto simp: xdp_def_prog_def Let_def split: sum.splits)
  have def: "\<exists>a q. xsk_def_prog refcnt fib redirect_map ingress queue p = Some (a, q)
      \<and> length q = length p"
    using True wb rf by (auto simp: xsk_def_prog_def Let_def split: sum.splits)
  show ?thesis
    using allow dev xsk def by blast
next
  case False
  then show ?thesis
    using eth_ip_fields_exist(1) [of p]
    by (auto simp: allowed_addr_prog_def xdp_sock2_prog_def xdp_def_prog_def xsk_def_prog_def
        not_less)
qed

definition demo_fib :: fib_lookup where
  "demo_fib req = (0, req\<lparr>ifindex := 3, smac := replicate 6 1, dmac := replicate 6 2\<rparr>)"

lemma demo_fib_contract: "fib_contract demo_fib"
  by (simp add: fib_contract_def demo_fib_def)

theorem xdp_progs_safe_witness:
  "\<exists>a q. xdp_sock2_prog demo_fib (\<lambda>_. XDP_REDIRECT) 1 (replicate 60 8) = Some (a, q)
     \<and> length q = 60"
  using xdp_progs_safe [OF demo_fib_contract, of Map.empty "replicate 60 8" "\<lambda>_. XDP_REDIRECT" 1]
  by simp

text \<open>
  C10.  The allow list, on every packet: \<^verbatim>\<open>allowed_addr_prog\<close> passes a frame if and only if
  it has a full Ethernet header and either is not IPv4, or is a UDP datagram whose header is
  complete (for an IPv4 header without options) and whose destination port is the non-zero
  port stored in the trie.
\<close>

theorem allowed_addr_prog_pass_iff:
  "allowed_addr_prog trie p = Some XDP_PASS \<longleftrightarrow>
     14 \<le> length p \<and>
     (net16 p 12 = 0x0800 \<longrightarrow>
        42 \<le> length p \<and> p ! 23 = 17 \<and>
        (\<exists>v. trie (32, 0) = Some v \<and> (ucast v :: u16) \<noteq> 0 \<and> net16 p 36 = ucast v))"
proof (cases "14 \<le> length p")
  case True
  then have h: "load16 p 12 = Some (swap16 (net16 p 12))"
    by (simp add: load16_def net16_def)
  have udp: "uint b = IPPROTO_UDP \<longleftrightarrow> b = 17" for b :: u8
    by (simp add: IPPROTO_UDP_def word_uint_eq_iff)
  have d: "42 \<le> length p \<Longrightarrow> load16 p 36 = Some (swap16 (net16 p 36))"
    by (simp add: load16_def net16_def)
  have b: "34 \<le> length p \<Longrightarrow> load8 p 23 = Some (p ! 23)"
    by (simp add: load8_def)
  show ?thesis
    using True h d b
    by (cases "34 \<le> length p"; cases "42 \<le> length p"; cases "trie (32, 0)")
      (auto simp: allowed_addr_prog_def udp Let_def)
qed (simp add: allowed_addr_prog_def)


theorem allowed_addr_prog_pass_iff_witness:
  "allowed_addr_prog [(32, 0) \<mapsto> 53]
     ([7, 7, 7, 7, 7, 7, 7, 7, 7, 7, 7, 7] @ [8, 0] @ [69, 0, 0, 28, 0, 0, 0, 0, 64, 17, 0, 0, 10, 0, 0, 1, 10, 0, 0, 2]
      @ [0, 80, 0, 53, 0, 8, 0, 0]) = Some XDP_PASS"
  unfolding allowed_addr_prog_pass_iff
  by (simp add: net16_def le16_def)

text \<open>
  C11.  \<^verbatim>\<open>xdp_redirect_dev\<close> answers ICMP: when the route back is known, an IPv4 ICMP packet
  leaves with source and destination address exchanged and the MAC addresses of the route,
  everything else as it came; the words of the IPv4 header add up to the same sum, so that
  its checksum stays valid.  Without a neighbour entry the packet passes unchanged, and any
  other lookup result drops it.
\<close>

theorem xdp_sock2_prog_icmp:
  assumes "fib_contract fib" "ip_shape m t h s d" "t = [8, 0]" "h ! 9 = 1"
    and "fib (fib_request d s ingress) = (rc, fp)"
  shows "xdp_sock2_prog fib redirect ingress (m @ t @ h @ s @ d @ rest) =
      (if rc = BPF_FIB_LKUP_RET_SUCCESS
       then Some (redirect (ifindex fp), dmac fp @ smac fp @ t @ h @ d @ s @ rest)
       else if rc = BPF_FIB_LKUP_RET_NO_NEIGH then Some (XDP_PASS, m @ t @ h @ s @ d @ rest)
       else Some (XDP_DROP, m @ t @ h @ s @ d @ rest))
    \<and> words_sum (h @ d @ s) = words_sum (h @ s @ d)"
proof -
  have "le16 (t ! 0) (t ! 1) = 8"
    using assms(3) by (simp add: le16_def word_cat_eq)
  then have prog: "xdp_sock2_prog fib redirect ingress (m @ t @ h @ s @ d @ rest) =
      (if rc = BPF_FIB_LKUP_RET_SUCCESS
       then Some (redirect (ifindex fp), dmac fp @ smac fp @ t @ h @ d @ s @ rest)
       else if rc = BPF_FIB_LKUP_RET_NO_NEIGH then Some (XDP_PASS, m @ t @ h @ s @ d @ rest)
       else Some (XDP_DROP, m @ t @ h @ s @ d @ rest))"
    using assms ip_shape_fields [OF assms(2), of rest]
      redirect_icmp_shape [OF assms(1,2), of ingress rest]
    by (auto simp: xdp_sock2_prog_def ip_shape_def IPPROTO_ICMP_def
        BPF_FIB_LKUP_RET_SUCCESS_def BPF_FIB_LKUP_RET_NO_NEIGH_def)
  have "even (length h)" "even (length s)" "even (length d)"
    using assms(2) by (simp_all add: ip_shape_def)
  then have "words_sum (h @ d @ s) = words_sum (h @ s @ d)"
    by (simp add: words_sum_append)
  with prog show ?thesis
    by blast
qed

theorem xdp_sock2_prog_icmp_witness:
  "xdp_sock2_prog demo_fib (\<lambda>_. XDP_REDIRECT) 1
     (replicate 12 9 @ [8, 0] @ [69, 0, 0, 20, 0, 0, 0, 0, 64, 1, 0, 0] @ [10, 0, 0, 1]
      @ [10, 0, 0, 2] @ [])
   = Some (XDP_REDIRECT, replicate 6 2 @ replicate 6 1 @ [8, 0]
       @ [69, 0, 0, 20, 0, 0, 0, 0, 64, 1, 0, 0] @ [10, 0, 0, 2] @ [10, 0, 0, 1] @ [])"
  using xdp_sock2_prog_icmp [OF demo_fib_contract, of "replicate 12 9" "[8, 0]"
      "[69, 0, 0, 20, 0, 0, 0, 0, 64, 1, 0, 0]" "[10, 0, 0, 1]" "[10, 0, 0, 2]" 1]
  by (simp add: ip_shape_def demo_fib_def fib_request_def BPF_FIB_LKUP_RET_SUCCESS_def)



end
