(* ===== verification/XskPool.thy ===== *)
theory XskPool
  imports HackPrelude "HOL-Library.Multiset"
begin

text \<open>
  The buffer pool and the per-port buffer caches of \<^verbatim>\<open>ebpf-xdp/xsk/af_rxtx.c\<close>.

  A slab is a block of \<^verbatim>\<open>n_buffers_per_slab\<close> words; the slabs of the arrays \<^verbatim>\<open>buffers\<close> and
  \<^verbatim>\<open>buffers_reserved\<close> are numbered one after the other, and a \<^verbatim>\<open>u64 *\<close> that points to the
  start of a slab is its number.  A cache belongs to one port and is used by one thread; the
  pool is shared and every access to it is under \<^verbatim>\<open>bp->lock\<close>, so an operation is one step.
  An access outside an array is \<^term>\<open>None\<close>.
\<close>

section \<open>Data\<close>

record bpool_params =
  p_n_buffers :: u32
  p_buffer_size :: u32
  p_n_users_max :: u32
  p_n_buffers_per_slab :: u32

record bpool =
  params :: bpool_params
  slab_mem :: "u64 list list"
  slabs :: "nat list"
  slabs_reserved :: "nat list"
  n_slabs :: nat
  n_slabs_reserved :: nat
  n_buffers :: nat
  n_slabs_available :: nat
  n_slabs_reserved_available :: nat

record bcache =
  slab_cons :: nat
  slab_prod :: nat
  n_buffers_cons :: nat
  n_buffers_prod :: nat

text \<open>The outcomes of the system calls and library calls of \<^verbatim>\<open>bpool_init\<close>.\<close>

record bpool_env =
  setrlimit_fails :: bool
  calloc_fails :: bool
  mutex_init_fails :: bool
  mmap_fails :: bool
  umem_create_fails :: bool

section \<open>The pool\<close>

definition slab_size :: "bpool \<Rightarrow> nat" where
  "slab_size bp = unat (p_n_buffers_per_slab (params bp))"

text \<open>
  The dimensions are computed in 32-bit arithmetic before they are widened; a zero slab size
  divides by zero.  Result: \<^term>\<open>None\<close> for the division by zero, \<^term>\<open>Some None\<close> for a null
  pointer.
\<close>

definition bpool_init :: "bpool_env \<Rightarrow> bpool_params \<Rightarrow> bpool option option" where
  "bpool_init env ps =
     (if setrlimit_fails env then Some None
      else if p_n_buffers_per_slab ps = 0 then None
      else
        let per = p_n_buffers_per_slab ps;
            ns = unat ((p_n_buffers ps + per - 1) div per);
            nr = unat (p_n_users_max ps * 2);
            nb = ns * unat per in
        if calloc_fails env then Some None
        else
          let bp =
            \<lparr>params = ps\<lparr>p_n_buffers := of_nat nb\<rparr>,
             slab_mem =
               map (\<lambda>k. map (\<lambda>j. of_nat ((k * unat per + j) * unat (p_buffer_size ps))) [0..<unat per]) [0..<ns]
               @ replicate nr (replicate (unat per) 0),
             slabs = [0..<ns],
             slabs_reserved = [ns..<ns + nr],
             n_slabs = ns, n_slabs_reserved = nr, n_buffers = nb,
             n_slabs_available = ns, n_slabs_reserved_available = nr\<rparr> in
          if mutex_init_fails env then Some None
          else if mmap_fails env then Some None
          else if umem_create_fails env then Some None
          else Some (Some bp))"

section \<open>The caches\<close>

definition bcache_slab_size :: "bpool \<Rightarrow> nat" where
  "bcache_slab_size bp = slab_size bp"

definition bcache_init :: "bool \<Rightarrow> bpool \<Rightarrow> (bcache option \<times> bpool) option" where
  "bcache_init oom bp =
     (if oom then Some (None, bp)
      else if n_slabs_reserved_available bp = 0 then Some (None, bp)
      else if n_slabs_reserved_available bp < 2
        \<or> n_slabs_reserved_available bp > length (slabs_reserved bp) then None
      else
        Some (Some \<lparr>slab_cons = slabs_reserved bp ! (n_slabs_reserved_available bp - 1),
                    slab_prod = slabs_reserved bp ! (n_slabs_reserved_available bp - 2),
                    n_buffers_cons = 0, n_buffers_prod = 0\<rparr>,
              bp\<lparr>n_slabs_reserved_available := n_slabs_reserved_available bp - 2\<rparr>))"

definition bcache_free :: "bpool \<Rightarrow> bcache option \<Rightarrow> bpool option" where
  "bcache_free bp bc =
     (case bc of
        None \<Rightarrow> Some bp
      | Some bc \<Rightarrow>
          let n = n_slabs_reserved_available bp in
          if n + 1 < length (slabs_reserved bp)
          then Some (bp\<lparr>slabs_reserved := (slabs_reserved bp)[n := slab_prod bc, n + 1 := slab_cons bc],
                        n_slabs_reserved_available := n + 2\<rparr>)
          else None)"

definition bcache_cons_check :: "bpool \<Rightarrow> bcache \<Rightarrow> nat \<Rightarrow> (nat \<times> bpool \<times> bcache) option" where
  "bcache_cons_check bp bc n =
     (if n_buffers_cons bc \<noteq> 0 then
        Some (if n_buffers_cons bc < n then n_buffers_cons bc else n, bp, bc)
      else if n_slabs_available bp = 0 then Some (0, bp, bc)
      else
        let a = n_slabs_available bp - 1 in
        if a < length (slabs bp) then
          let slab_full = slabs bp ! a in
          Some (n, bp\<lparr>slabs := (slabs bp)[a := slab_cons bc], n_slabs_available := a\<rparr>,
                bc\<lparr>slab_cons := slab_full, n_buffers_cons := slab_size bp\<rparr>)
        else None)"

text \<open>\<^verbatim>\<open>bcache_cons\<close> on an empty consumer slab reads at index \<^verbatim>\<open>(u64)-1\<close>.\<close>

definition bcache_cons :: "bpool \<Rightarrow> bcache \<Rightarrow> (u64 \<times> bcache) option" where
  "bcache_cons bp bc =
     (if n_buffers_cons bc = 0 then None
      else
        let k = n_buffers_cons bc - 1 in
        if slab_cons bc < length (slab_mem bp) \<and> k < length (slab_mem bp ! slab_cons bc)
        then Some (slab_mem bp ! slab_cons bc ! k, bc\<lparr>n_buffers_cons := k\<rparr>)
        else None)"

definition store_slab :: "bpool \<Rightarrow> nat \<Rightarrow> nat \<Rightarrow> u64 \<Rightarrow> bpool option" where
  "store_slab bp s k v =
     (if s < length (slab_mem bp) \<and> k < length (slab_mem bp ! s)
      then Some (bp\<lparr>slab_mem := (slab_mem bp)[s := (slab_mem bp ! s)[k := v]]\<rparr>)
      else None)"

definition bcache_prod :: "bpool \<Rightarrow> bcache \<Rightarrow> u64 \<Rightarrow> (bpool \<times> bcache) option" where
  "bcache_prod bp bc buffer =
     (if n_buffers_prod bc < slab_size bp then
        do {
          bp \<leftarrow> store_slab bp (slab_prod bc) (n_buffers_prod bc) buffer;
          Some (bp, bc\<lparr>n_buffers_prod := n_buffers_prod bc + 1\<rparr>)
        }
      else
        let a = n_slabs_available bp in
        if a < length (slabs bp) then
          let slab_empty = slabs bp ! a in
          do {
            bp \<leftarrow> Some (bp\<lparr>slabs := (slabs bp)[a := slab_prod bc], n_slabs_available := a + 1\<rparr>);
            bp \<leftarrow> store_slab bp slab_empty 0 buffer;
            Some (bp, bc\<lparr>slab_prod := slab_empty, n_buffers_prod := 1\<rparr>)
          }
        else None)"


section \<open>Ownership of slabs and buffers\<close>

text \<open>
  The slab pointers live in three places: the pool's array of slabs (full ones first), the
  free part of the reserve, and two in each cache.  The invariant says that they are, taken
  together, every slab exactly once.
\<close>

fun cache_ptrs :: "bcache list \<Rightarrow> nat list" where
  "cache_ptrs [] = []"
| "cache_ptrs (c # cs) = slab_cons c # slab_prod c # cache_ptrs cs"

definition slab_ptrs :: "bpool \<Rightarrow> bcache list \<Rightarrow> nat list" where
  "slab_ptrs bp cs =
     slabs bp @ take (n_slabs_reserved_available bp) (slabs_reserved bp) @ cache_ptrs cs"

definition wf_cache :: "nat \<Rightarrow> bcache \<Rightarrow> bool" where
  "wf_cache per c \<longleftrightarrow> n_buffers_cons c \<le> per \<and> n_buffers_prod c \<le> per"

definition wf_pool :: "bpool \<Rightarrow> bcache list \<Rightarrow> bool" where
  "wf_pool bp cs \<longleftrightarrow>
     0 < slab_size bp
   \<and> length (slab_mem bp) = n_slabs bp + n_slabs_reserved bp
   \<and> list_all (\<lambda>s. length s = slab_size bp) (slab_mem bp)
   \<and> length (slabs bp) = n_slabs bp
   \<and> length (slabs_reserved bp) = n_slabs_reserved bp
   \<and> even (n_slabs_reserved bp)
   \<and> n_slabs_available bp \<le> n_slabs bp
   \<and> n_slabs_reserved_available bp \<le> n_slabs_reserved bp
   \<and> mset (slab_ptrs bp cs) = mset [0..<n_slabs bp + n_slabs_reserved bp]
   \<and> list_all (wf_cache (slab_size bp)) cs"

text \<open>The buffers that are free: those of the full slabs, and the valid part of each cache.\<close>

definition pool_bufs :: "u64 list list \<Rightarrow> nat list \<Rightarrow> u64 multiset" where
  "pool_bufs m ps = mset (concat (map (\<lambda>s. m ! s) ps))"

definition cache_bufs :: "u64 list list \<Rightarrow> bcache \<Rightarrow> u64 multiset" where
  "cache_bufs m c =
     mset (take (n_buffers_cons c) (m ! slab_cons c)) + mset (take (n_buffers_prod c) (m ! slab_prod c))"

definition free_bufs :: "bpool \<Rightarrow> bcache list \<Rightarrow> u64 multiset" where
  "free_bufs bp cs =
     pool_bufs (slab_mem bp) (take (n_slabs_available bp) (slabs bp))
     + (\<Sum>c\<leftarrow>cs. cache_bufs (slab_mem bp) c)"

lemma slab_size_update [simp]:
  "slab_size (bp\<lparr>slab_mem := m\<rparr>) = slab_size bp"
  "slab_size (bp\<lparr>slabs := l\<rparr>) = slab_size bp"
  "slab_size (bp\<lparr>slabs_reserved := l\<rparr>) = slab_size bp"
  "slab_size (bp\<lparr>n_slabs_available := n\<rparr>) = slab_size bp"
  "slab_size (bp\<lparr>n_slabs_reserved_available := n\<rparr>) = slab_size bp"
  by (simp_all add: slab_size_def)

lemma cache_ptrs_append [simp]: "cache_ptrs (xs @ ys) = cache_ptrs xs @ cache_ptrs ys"
  by (induction xs) auto

lemma set_cache_ptrs: "set (cache_ptrs cs) = slab_cons ` set cs \<union> slab_prod ` set cs"
  by (induction cs) auto

lemma length_cache_ptrs [simp]: "length (cache_ptrs cs) = 2 * length cs"
  by (induction cs) auto

lemma wf_pool_ptrs:
  assumes "wf_pool bp cs"
  shows "distinct (slab_ptrs bp cs)"
    and "set (slab_ptrs bp cs) = {0..<n_slabs bp + n_slabs_reserved bp}"
proof -
  have "mset (slab_ptrs bp cs) = mset [0..<n_slabs bp + n_slabs_reserved bp]"
    using assms by (simp add: wf_pool_def)
  then show "distinct (slab_ptrs bp cs)"
    "set (slab_ptrs bp cs) = {0..<n_slabs bp + n_slabs_reserved bp}"
    by (metis distinct_upt mset_eq_imp_distinct_iff, metis mset_eq_setD set_upt)
qed

lemma wf_pool_slab_length:
  assumes "wf_pool bp cs" "s \<in> set (slab_ptrs bp cs)"
  shows "s < length (slab_mem bp) \<and> length (slab_mem bp ! s) = slab_size bp"
  using assms wf_pool_ptrs(2) [OF assms(1)]
  by (auto simp: wf_pool_def list_all_length)

lemma wf_pool_reserved: "wf_pool bp cs \<Longrightarrow> n_slabs_reserved_available bp + 2 * length cs = n_slabs_reserved bp"
proof -
  assume wf: "wf_pool bp cs"
  then have "length (slab_ptrs bp cs) = length [0..<n_slabs bp + n_slabs_reserved bp]"
    unfolding wf_pool_def by (metis mset_eq_length)
  with wf show ?thesis
    by (simp add: slab_ptrs_def wf_pool_def)
qed


lemma pool_bufs_simps [simp]:
  "pool_bufs m [] = {#}"
  "pool_bufs m (ps @ qs) = pool_bufs m ps + pool_bufs m qs"
  "pool_bufs m (p # ps) = mset (m ! p) + pool_bufs m ps"
  by (simp_all add: pool_bufs_def)

lemma pool_bufs_other: "s \<notin> set ps \<Longrightarrow> pool_bufs (m[s := x]) ps = pool_bufs m ps"
  by (induction ps) auto

lemma cache_bufs_other:
  "s \<noteq> slab_cons c \<Longrightarrow> s \<noteq> slab_prod c \<Longrightarrow> cache_bufs (m[s := x]) c = cache_bufs m c"
  by (simp add: cache_bufs_def)

lemma caches_bufs_other:
  "s \<notin> set (cache_ptrs cs) \<Longrightarrow>
   (\<Sum>c\<leftarrow>cs. cache_bufs (m[s := x]) c) = (\<Sum>c\<leftarrow>cs. cache_bufs m c)"
  by (induction cs) (auto simp: cache_bufs_other)

lemma size_pool_bufs:
  "\<forall>p \<in> set ps. length (m ! p) = n \<Longrightarrow> size (pool_bufs m ps) = length ps * n"
  by (induction ps) auto

section \<open>Every operation keeps the invariant\<close>

lemma cons_check_step:
  assumes wf: "wf_pool bp (xs @ c # ys)"
  shows "\<exists>m bp' c'. bcache_cons_check bp c n = Some (m, bp', c')
    \<and> wf_pool bp' (xs @ c' # ys)
    \<and> free_bufs bp' (xs @ c' # ys) = free_bufs bp (xs @ c # ys)
    \<and> slab_size bp' = slab_size bp \<and> n_slabs bp' = n_slabs bp
    \<and> (n \<le> slab_size bp \<longrightarrow> m \<le> n_buffers_cons c')
    \<and> (m = 0 \<longleftrightarrow> n = 0 \<or> n_buffers_cons c = 0 \<and> n_slabs_available bp = 0)"
proof (cases "n_buffers_cons c \<noteq> 0 \<or> n_slabs_available bp = 0")
  case True
  then show ?thesis
    using wf by (auto simp: bcache_cons_check_def)
next
  case False
  define a where "a = n_slabs_available bp - 1"
  define bp' where "bp' = bp\<lparr>slabs := (slabs bp)[a := slab_cons c], n_slabs_available := a\<rparr>"
  define c' where "c' = c\<lparr>slab_cons := slabs bp ! a, n_buffers_cons := slab_size bp\<rparr>"
  have a: "a < length (slabs bp)" "n_slabs_available bp = Suc a"
    using False wf by (auto simp: a_def wf_pool_def)
  have in_ptrs: "slabs bp ! a \<in> set (slab_ptrs bp (xs @ c # ys))"
    using a by (simp add: slab_ptrs_def)
  have run: "bcache_cons_check bp c n = Some (n, bp', c')"
    using False a by (simp add: bcache_cons_check_def bp'_def c'_def)
  have "mset (slab_ptrs bp' (xs @ c' # ys)) = mset (slab_ptrs bp (xs @ c # ys))"
    using a nth_mem_mset [of a "slabs bp"]
    by (simp add: slab_ptrs_def bp'_def c'_def mset_update)
  then have wf': "wf_pool bp' (xs @ c' # ys)"
    using wf a by (auto simp: wf_pool_def bp'_def c'_def wf_cache_def)
  have "take (Suc a) (slabs bp) = take a (slabs bp) @ [slabs bp ! a]"
    using a by (simp add: take_Suc_conv_app_nth)
  then have free: "free_bufs bp' (xs @ c' # ys) = free_bufs bp (xs @ c # ys)"
    using False a wf_pool_slab_length [OF wf in_ptrs]
    by (simp add: free_bufs_def bp'_def c'_def cache_bufs_def)
  show ?thesis
    using run wf' free False wf
    by (auto simp: bp'_def c'_def wf_pool_def)
qed

lemma cons_step:
  assumes wf: "wf_pool bp (xs @ c # ys)" and "n_buffers_cons c \<noteq> 0"
  shows "\<exists>b c'. bcache_cons bp c = Some (b, c')
    \<and> wf_pool bp (xs @ c' # ys)
    \<and> free_bufs bp (xs @ c # ys) = add_mset b (free_bufs bp (xs @ c' # ys))
    \<and> n_buffers_cons c' = n_buffers_cons c - 1"
proof -
  define k where "k = n_buffers_cons c - 1"
  have "slab_cons c \<in> set (slab_ptrs bp (xs @ c # ys))"
    by (simp add: slab_ptrs_def)
  note l = wf_pool_slab_length [OF wf this]
  have k: "n_buffers_cons c = Suc k" "k < length (slab_mem bp ! slab_cons c)"
    using assms l by (auto simp: k_def wf_pool_def wf_cache_def)
  have "wf_pool bp (xs @ c\<lparr>n_buffers_cons := k\<rparr> # ys)"
    using wf k l by (auto simp: wf_pool_def slab_ptrs_def wf_cache_def)
  with k l show ?thesis
    by (auto simp: bcache_cons_def free_bufs_def cache_bufs_def take_Suc_conv_app_nth)
qed


lemma store_slab_step:
  assumes "s < length (slab_mem bp)" "k < length (slab_mem bp ! s)"
  shows "store_slab bp s k v = Some (bp\<lparr>slab_mem := (slab_mem bp)[s := (slab_mem bp ! s)[k := v]]\<rparr>)"
  using assms by (simp add: store_slab_def)

lemma wf_pool_store:
  assumes "wf_pool bp cs"
  shows "wf_pool (bp\<lparr>slab_mem := (slab_mem bp)[s := (slab_mem bp ! s)[k := v]]\<rparr>) cs"
proof (cases "s < length (slab_mem bp)")
  case True
  with assms show ?thesis
    by (auto simp: wf_pool_def slab_ptrs_def list_all_length nth_list_update)
next
  case False
  then have "(slab_mem bp)[s := x] = slab_mem bp" for x
    by (simp add: list_update_beyond not_less)
  then show ?thesis
    using assms by simp
qed

lemma prod_room_step:
  assumes wf: "wf_pool bp (xs @ c # ys)" and room: "n_buffers_prod c < slab_size bp"
  shows "\<exists>bp' c'. bcache_prod bp c b = Some (bp', c')
    \<and> wf_pool bp' (xs @ c' # ys)
    \<and> free_bufs bp' (xs @ c' # ys) = add_mset b (free_bufs bp (xs @ c # ys))
    \<and> slab_size bp' = slab_size bp \<and> n_slabs bp' = n_slabs bp"
proof -
  define s where "s = slab_prod c"
  define k where "k = n_buffers_prod c"
  define bp' where "bp' = bp\<lparr>slab_mem := (slab_mem bp)[s := (slab_mem bp ! s)[k := b]]\<rparr>"
  define c' where "c' = c\<lparr>n_buffers_prod := k + 1\<rparr>"
  have "s \<in> set (slab_ptrs bp (xs @ c # ys))"
    by (simp add: slab_ptrs_def s_def)
  note l = wf_pool_slab_length [OF wf this]
  have run: "bcache_prod bp c b = Some (bp', c')"
    using room l by (simp add: bcache_prod_def store_slab_step bp'_def c'_def s_def k_def)
  have "wf_pool bp (xs @ c' # ys)"
    using wf room by (auto simp: wf_pool_def slab_ptrs_def wf_cache_def c'_def k_def)
  then have wf': "wf_pool bp' (xs @ c' # ys)"
    unfolding bp'_def by (rule wf_pool_store)
  have "distinct (slab_ptrs bp (xs @ c # ys))"
    using wf by (rule wf_pool_ptrs)
  then have other: "s \<notin> set (take (n_slabs_available bp) (slabs bp))"
    "s \<notin> set (cache_ptrs xs)" "s \<notin> set (cache_ptrs ys)" "s \<noteq> slab_cons c"
    by (auto simp: slab_ptrs_def s_def dest: in_set_takeD)
  have "cache_bufs (slab_mem bp') c' = add_mset b (cache_bufs (slab_mem bp) c)"
    using l room other(4)
    by (simp add: cache_bufs_def bp'_def c'_def s_def k_def take_Suc_conv_app_nth)
  then have "free_bufs bp' (xs @ c' # ys) = add_mset b (free_bufs bp (xs @ c # ys))"
    using other by (simp add: free_bufs_def bp'_def pool_bufs_other caches_bufs_other)
  with run wf' show ?thesis
    by (simp add: bp'_def)
qed

text \<open>
  The comment in \<^verbatim>\<open>bcache_prod\<close> claims that a full producer slab leaves an empty slab in the
  pool.  It does as long as the buffer that is returned is not free already: then fewer
  buffers are free than the pool has.
\<close>

lemma empty_slab_available:
  assumes wf: "wf_pool bp (xs @ c # ys)" and full: "n_buffers_prod c = slab_size bp"
    and room: "size (free_bufs bp (xs @ c # ys)) < n_slabs bp * slab_size bp"
  shows "n_slabs_available bp < n_slabs bp"
proof -
  have ptrs: "set (take (n_slabs_available bp) (slabs bp)) \<subseteq> set (slab_ptrs bp (xs @ c # ys))"
    by (auto simp: slab_ptrs_def dest: in_set_takeD)
  then have "size (pool_bufs (slab_mem bp) (take (n_slabs_available bp) (slabs bp))) =
      n_slabs_available bp * slab_size bp"
    using wf wf_pool_slab_length [OF wf]
    by (subst size_pool_bufs [where n = "slab_size bp"]) (auto simp: wf_pool_def)
  moreover have "slab_size bp \<le> size (cache_bufs (slab_mem bp) c)"
    using full wf_pool_slab_length [OF wf, of "slab_prod c"]
    by (simp add: cache_bufs_def slab_ptrs_def)
  ultimately have "(n_slabs_available bp + 1) * slab_size bp < n_slabs bp * slab_size bp"
    using room by (simp add: free_bufs_def)
  then have "n_slabs_available bp + 1 < n_slabs bp"
    by (simp only: mult_less_cancel2)
  then show ?thesis
    by simp
qed

lemma prod_full_step:
  assumes wf: "wf_pool bp (xs @ c # ys)" and full: "n_buffers_prod c = slab_size bp"
    and avail: "n_slabs_available bp < n_slabs bp"
  shows "\<exists>bp' c'. bcache_prod bp c b = Some (bp', c')
    \<and> wf_pool bp' (xs @ c' # ys)
    \<and> free_bufs bp' (xs @ c' # ys) = add_mset b (free_bufs bp (xs @ c # ys))
    \<and> slab_size bp' = slab_size bp \<and> n_slabs bp' = n_slabs bp"
proof -
  define a where "a = n_slabs_available bp"
  define e where "e = slabs bp ! a"
  define bq where "bq = bp\<lparr>slabs := (slabs bp)[a := slab_prod c], n_slabs_available := a + 1\<rparr>"
  define cq where "cq = c\<lparr>slab_prod := e, n_buffers_prod := 0\<rparr>"
  have a: "a < length (slabs bp)" "0 < slab_size bp"
    using avail wf by (auto simp: a_def wf_pool_def)
  have "mset (slab_ptrs bq (xs @ cq # ys)) = mset (slab_ptrs bp (xs @ c # ys))"
    using a nth_mem_mset [of a "slabs bp"]
    by (simp add: slab_ptrs_def bq_def cq_def e_def mset_update)
  then have wq: "wf_pool bq (xs @ cq # ys)"
    using wf a by (auto simp: wf_pool_def bq_def cq_def wf_cache_def)
  have "take (Suc a) ((slabs bp)[a := slab_prod c]) = take a (slabs bp) @ [slab_prod c]"
    using a by (simp add: take_Suc_conv_app_nth)
  then have fq: "free_bufs bq (xs @ cq # ys) = free_bufs bp (xs @ c # ys)"
    using full wf_pool_slab_length [OF wf, of "slab_prod c"]
    by (simp add: free_bufs_def bq_def cq_def cache_bufs_def a_def slab_ptrs_def)
  obtain bp' c' where p: "bcache_prod bq cq b = Some (bp', c')" "wf_pool bp' (xs @ c' # ys)"
      "free_bufs bp' (xs @ c' # ys) = add_mset b (free_bufs bq (xs @ cq # ys))"
      "slab_size bp' = slab_size bq" "n_slabs bp' = n_slabs bq"
    using prod_room_step [OF wq, of b] a by (auto simp: cq_def bq_def)
  have "bcache_prod bp c b = bcache_prod bq cq b"
    using full a by (simp add: bcache_prod_def bq_def cq_def e_def a_def Let_def)
  then show ?thesis
    using p fq by (auto simp: bq_def)
qed


lemma bcache_init_step:
  assumes wf: "wf_pool bp cs" and "n_slabs_reserved_available bp \<noteq> 0"
  shows "\<exists>c bp'. bcache_init False bp = Some (Some c, bp')
    \<and> wf_pool bp' (cs @ [c]) \<and> free_bufs bp' (cs @ [c]) = free_bufs bp cs
    \<and> slab_size bp' = slab_size bp \<and> n_slabs bp' = n_slabs bp"
proof -
  have "even (n_slabs_reserved bp)"
    using wf by (simp add: wf_pool_def)
  then have "even (n_slabs_reserved_available bp)"
    by (simp flip: wf_pool_reserved [OF wf])
  with assms(2) obtain j where "n_slabs_reserved_available bp = 2 * Suc j"
    by (metis evenE mult_0_right not0_implies_Suc)
  then have k: "n_slabs_reserved_available bp = Suc (Suc (2 * j))"
    by simp
  have len: "Suc (Suc (2 * j)) \<le> length (slabs_reserved bp)"
    using wf k by (simp add: wf_pool_def)
  then have "take (Suc (Suc (2 * j))) (slabs_reserved bp) =
      take (2 * j) (slabs_reserved bp) @ [slabs_reserved bp ! (2 * j), slabs_reserved bp ! Suc (2 * j)]"
    by (simp add: take_Suc_conv_app_nth)
  then show ?thesis
    using wf k len
    by (auto simp: bcache_init_def wf_pool_def slab_ptrs_def wf_cache_def free_bufs_def
        cache_bufs_def add_mset_commute)
qed

lemma bcache_free_step:
  assumes wf: "wf_pool bp (xs @ c # ys)"
  shows "\<exists>bp'. bcache_free bp (Some c) = Some bp' \<and> wf_pool bp' (xs @ ys)
    \<and> free_bufs bp (xs @ c # ys) = free_bufs bp' (xs @ ys) + cache_bufs (slab_mem bp) c
    \<and> slab_size bp' = slab_size bp \<and> n_slabs bp' = n_slabs bp"
proof -
  define n where "n = n_slabs_reserved_available bp"
  have n: "n + 2 \<le> length (slabs_reserved bp)"
    using wf wf_pool_reserved [OF wf] by (simp add: wf_pool_def n_def)
  let ?r = "(slabs_reserved bp)[n := slab_prod c, n + 1 := slab_cons c]"
  let ?bp = "bp\<lparr>slabs_reserved := ?r, n_slabs_reserved_available := n + 2\<rparr>"
  have "bcache_free bp (Some c) = Some ?bp"
    using n by (simp add: bcache_free_def n_def Let_def)
  moreover have "take (Suc (Suc n)) ?r = take n (slabs_reserved bp) @ [slab_prod c, slab_cons c]"
    using n by (simp add: take_Suc_conv_app_nth)
  then have "mset (slab_ptrs ?bp (xs @ ys)) = mset (slab_ptrs bp (xs @ c # ys))"
    by (simp add: slab_ptrs_def n_def)
  then have "wf_pool ?bp (xs @ ys)"
    using wf n by (simp add: wf_pool_def)
  moreover have "free_bufs bp (xs @ c # ys) = free_bufs ?bp (xs @ ys) + cache_bufs (slab_mem bp) c"
    by (simp add: free_bufs_def)
  ultimately show ?thesis
    by auto
qed

section \<open>Initialisation\<close>

definition buffer_addr :: "bpool_params \<Rightarrow> nat \<Rightarrow> u64" where
  "buffer_addr ps i = of_nat (i * unat (p_buffer_size ps))"

lemma concat_blocks:
  "concat (map (\<lambda>k. map (\<lambda>j. f (k * n + j)) [0..<n]) [0..<m]) = map f [0..<m * n]"
proof (induction m)
  case (Suc m)
  have "map (\<lambda>j. f (m * n + j)) [0..<n] = map f (map (\<lambda>j. j + m * n) [0..<n])"
    by (simp add: add.commute)
  also have "\<dots> = map f [m * n..<n + m * n]"
    by (simp add: map_add_upt)
  finally have "map (\<lambda>j. f (m * n + j)) [0..<n] = map f [m * n..<n + m * n]" .
  moreover have "[0..<n + m * n] = [0..<m * n] @ [m * n..<n + m * n]"
    by (metis add.commute le0 upt_add_eq_append)
  ultimately show ?case
    using Suc by (simp only: mult_Suc upt_Suc_append [OF le0] map_append concat_append) simp
qed simp

lemma even_unat_double: "even (unat (u * 2))" for u :: u32
proof -
  have "unat (u * 2) = (unat u * 2) mod 4294967296"
    by (simp add: unat_word_ariths)
  moreover have "even ((unat u * 2) mod 4294967296)"
    by (simp add: dvd_mod_iff)
  ultimately show ?thesis
    by simp
qed

lemma bpool_init_wf:
  assumes "bpool_init env ps = Some (Some bp)"
  shows "wf_pool bp []"
    and "free_bufs bp [] = mset (map (buffer_addr ps) [0..<n_slabs bp * slab_size bp])"
    and "slab_size bp = unat (p_n_buffers_per_slab ps)"
    and "n_slabs bp = unat ((p_n_buffers ps + p_n_buffers_per_slab ps - 1) div p_n_buffers_per_slab ps)"
proof -
  let ?per = "unat (p_n_buffers_per_slab ps)"
  let ?ns = "unat ((p_n_buffers ps + p_n_buffers_per_slab ps - 1) div p_n_buffers_per_slab ps)"
  let ?nr = "unat (p_n_users_max ps * 2)"
  let ?blk = "\<lambda>k. map (\<lambda>j. buffer_addr ps (k * ?per + j)) [0..<?per]"
  have bp: "bp = \<lparr>params = ps\<lparr>p_n_buffers := of_nat (?ns * ?per)\<rparr>,
      slab_mem = map ?blk [0..<?ns] @ replicate ?nr (replicate ?per 0),
      slabs = [0..<?ns], slabs_reserved = [?ns..<?ns + ?nr],
      n_slabs = ?ns, n_slabs_reserved = ?nr, n_buffers = ?ns * ?per,
      n_slabs_available = ?ns, n_slabs_reserved_available = ?nr\<rparr>"
    and nz: "p_n_buffers_per_slab ps \<noteq> 0"
    using assms by (auto simp: bpool_init_def Let_def buffer_addr_def split: if_splits)
  show per: "slab_size bp = ?per" and ns: "n_slabs bp = ?ns"
    by (simp_all add: bp slab_size_def)
  have "0 < ?per"
    using nz by (simp add: unat_gt_0)
  then show "wf_pool bp []"
    by (simp add: wf_pool_def bp slab_size_def slab_ptrs_def even_unat_double list_all_length
        nth_append upt_add_eq_append [of 0 ?ns ?nr, simplified] flip: mset_append)
  have "free_bufs bp [] = mset (concat (map (\<lambda>s. slab_mem bp ! s) [0..<?ns]))"
    by (simp add: free_bufs_def pool_bufs_def bp)
  also have "map (\<lambda>s. slab_mem bp ! s) [0..<?ns] = map ?blk [0..<?ns]"
    by (simp add: bp nth_append)
  finally show "free_bufs bp [] = mset (map (buffer_addr ps) [0..<n_slabs bp * slab_size bp])"
    by (simp only: concat_blocks per ns)
qed

lemma buffer_addr_inj:
  assumes "p_buffer_size ps \<noteq> 0" "N < 2 ^ 32"
  shows "inj_on (buffer_addr ps) {0..<N}"
proof (rule inj_onI)
  fix i j
  assume ij: "i \<in> {0..<N}" "j \<in> {0..<N}" and eq: "buffer_addr ps i = buffer_addr ps j"
  let ?z = "unat (p_buffer_size ps)"
  have z: "?z < 2 ^ 32" "?z \<noteq> 0"
    using unat_u32_less [of "p_buffer_size ps"] assms(1) by (simp_all add: unat_eq_0)
  have "k * ?z < 2 ^ 32 * 2 ^ 32" if "k < N" for k
    using that assms(2) z by (intro mult_strict_mono) auto
  then have "k * ?z < 2 ^ LENGTH(64)" if "k < N" for k
    using that by simp
  then have "unat (buffer_addr ps k) = k * ?z" if "k < N" for k
    using that by (simp add: buffer_addr_def unsigned_of_nat take_bit_nat_eq_self del: of_nat_mult)
  then have "i * ?z = j * ?z"
    using eq ij by (metis atLeastLessThan_iff)
  with z show "i = j"
    by simp
qed

section \<open>Loops over a cache\<close>

text \<open>
  The two loops the ports run over their cache, with the operation as a parameter: taking
  \<^term>\<open>n\<close> buffers one by one, and giving back a list of buffers.
\<close>

fun get_all :: "('s \<Rightarrow> ('b \<times> 's) option) \<Rightarrow> 's \<Rightarrow> nat \<Rightarrow> ('b list \<times> 's) option" where
  "get_all get s 0 = Some ([], s)"
| "get_all get s (Suc n) =
     do {
       (b, s) \<leftarrow> get s;
       (bs, s) \<leftarrow> get_all get s n;
       Some (b # bs, s)
     }"

fun put_all :: "('s \<Rightarrow> 'b \<Rightarrow> 's option) \<Rightarrow> 's \<Rightarrow> 'b list \<Rightarrow> 's option" where
  "put_all put s [] = Some s"
| "put_all put s (b # bs) = do { s \<leftarrow> put s b; put_all put s bs }"

text \<open>What a client relies on: taking is safe while buffers are ready, giving back is safe
  while the store holds fewer buffers than there are, and both move exactly one buffer.\<close>

locale buffer_store =
  fixes inv :: "'s \<Rightarrow> bool"
    and free :: "'s \<Rightarrow> 'b multiset"
    and cap :: "'s \<Rightarrow> nat"
    and ready :: "'s \<Rightarrow> nat"
    and get :: "'s \<Rightarrow> ('b \<times> 's) option"
    and put :: "'s \<Rightarrow> 'b \<Rightarrow> 's option"
  assumes get_law: "\<lbrakk>inv s; ready s \<noteq> 0\<rbrakk> \<Longrightarrow>
      \<exists>b s'. get s = Some (b, s') \<and> inv s' \<and> free s = add_mset b (free s')
        \<and> ready s' = ready s - 1 \<and> cap s' = cap s"
    and put_law: "\<lbrakk>inv s; size (free s) < cap s\<rbrakk> \<Longrightarrow>
      \<exists>s'. put s b = Some s' \<and> inv s' \<and> free s' = add_mset b (free s) \<and> cap s' = cap s"
begin

lemma get_all_ok:
  assumes "inv s" "n \<le> ready s"
  shows "\<exists>bs s'. get_all get s n = Some (bs, s') \<and> length bs = n \<and> inv s'
    \<and> free s = mset bs + free s' \<and> ready s' = ready s - n \<and> cap s' = cap s"
  using assms
proof (induction n arbitrary: s)
  case (Suc n)
  then obtain b s1 where 1: "get s = Some (b, s1)" "inv s1" "free s = add_mset b (free s1)"
    "ready s1 = ready s - 1" "cap s1 = cap s"
    using get_law [of s] by auto
  moreover have "n \<le> ready s1"
    using Suc.prems 1 by simp
  ultimately obtain bs s2 where "get_all get s1 n = Some (bs, s2)" "length bs = n" "inv s2"
    "free s1 = mset bs + free s2" "ready s2 = ready s1 - n" "cap s2 = cap s1"
    using Suc.IH [of s1] by auto
  with 1 show ?case
    by auto
qed simp

lemma put_all_ok:
  assumes "inv s" "size (free s) + length bs \<le> cap s"
  shows "\<exists>s'. put_all put s bs = Some s' \<and> inv s' \<and> free s' = free s + mset bs \<and> cap s' = cap s"
  using assms
proof (induction bs arbitrary: s)
  case (Cons b bs)
  then obtain s1 where 1: "put s b = Some s1" "inv s1" "free s1 = add_mset b (free s)"
    "cap s1 = cap s"
    using put_law [of s b] by auto
  then obtain s2 where "put_all put s1 bs = Some s2" "inv s2" "free s2 = free s1 + mset bs"
    "cap s2 = cap s1"
    using Cons.IH [of s1] Cons.prems by auto
  with 1 show ?case
    by auto
qed simp

end

definition cache_get :: "bpool \<times> bcache \<Rightarrow> (u64 \<times> (bpool \<times> bcache)) option" where
  "cache_get s = (case s of (bp, c) \<Rightarrow> do { (b, c) \<leftarrow> bcache_cons bp c; Some (b, (bp, c)) })"

definition cache_put :: "bpool \<times> bcache \<Rightarrow> u64 \<Rightarrow> (bpool \<times> bcache) option" where
  "cache_put s b = (case s of (bp, c) \<Rightarrow> bcache_prod bp c b)"

definition pool_cap :: "bpool \<Rightarrow> nat" where
  "pool_cap bp = n_slabs bp * slab_size bp"

lemma cache_put_step:
  assumes wf: "wf_pool bp (xs @ c # ys)" and room: "size (free_bufs bp (xs @ c # ys)) < pool_cap bp"
  shows "\<exists>bp' c'. bcache_prod bp c b = Some (bp', c')
    \<and> wf_pool bp' (xs @ c' # ys)
    \<and> free_bufs bp' (xs @ c' # ys) = add_mset b (free_bufs bp (xs @ c # ys))
    \<and> slab_size bp' = slab_size bp \<and> n_slabs bp' = n_slabs bp"
proof (cases "n_buffers_prod c < slab_size bp")
  case True
  then show ?thesis
    by (rule prod_room_step [OF wf])
next
  case False
  moreover have "n_buffers_prod c \<le> slab_size bp"
    using wf by (simp add: wf_pool_def wf_cache_def)
  ultimately have full: "n_buffers_prod c = slab_size bp"
    by simp
  then show ?thesis
    using prod_full_step [OF wf full] empty_slab_available [OF wf full] room
    by (simp add: pool_cap_def)
qed

interpretation cache: buffer_store
  "\<lambda>(bp, c). wf_pool bp (xs @ c # ys)"
  "\<lambda>(bp, c). free_bufs bp (xs @ c # ys)"
  "\<lambda>(bp, c). pool_cap bp"
  "\<lambda>(bp, c). n_buffers_cons c"
  cache_get cache_put
  for xs ys
proof (unfold_locales, goal_cases)
  case (1 s)
  then show ?case
    using cons_step [of "fst s" xs "snd s" ys] by (auto simp: cache_get_def split: prod.splits)
next
  case (2 s b)
  then show ?case
    using cache_put_step [of "fst s" xs "snd s" ys b]
    by (auto simp: cache_put_def pool_cap_def split: prod.splits)
qed

section \<open>The pool shared by the ports\<close>

text \<open>
  The pool, the caches of the open ports, the buffers that are with the application or the
  kernel, and the buffers that went down with a closed port.  Each operation of a port is a
  step; the steps of different ports interleave.
\<close>

record xsk =
  x_pool :: bpool
  x_caches :: "bcache list"
  x_out :: "u64 multiset"
  x_lost :: "u64 multiset"

inductive xsk_step :: "xsk \<Rightarrow> xsk \<Rightarrow> bool" where
  step_open: "bcache_init oom (x_pool s) = Some (Some c, bp) \<Longrightarrow>
     xsk_step s (s\<lparr>x_pool := bp, x_caches := x_caches s @ [c]\<rparr>)"
| step_check: "\<lbrakk>x_caches s = xs @ c # ys; bcache_cons_check (x_pool s) c n = Some (m, bp, c')\<rbrakk> \<Longrightarrow>
     xsk_step s (s\<lparr>x_pool := bp, x_caches := xs @ c' # ys\<rparr>)"
| step_cons: "\<lbrakk>x_caches s = xs @ c # ys; bcache_cons (x_pool s) c = Some (b, c')\<rbrakk> \<Longrightarrow>
     xsk_step s (s\<lparr>x_caches := xs @ c' # ys, x_out := add_mset b (x_out s)\<rparr>)"
| step_prod: "\<lbrakk>x_caches s = xs @ c # ys; b \<in># x_out s; bcache_prod (x_pool s) c b = Some (bp, c')\<rbrakk> \<Longrightarrow>
     xsk_step s (s\<lparr>x_pool := bp, x_caches := xs @ c' # ys, x_out := x_out s - {#b#}\<rparr>)"
| step_close: "\<lbrakk>x_caches s = xs @ c # ys; bcache_free (x_pool s) (Some c) = Some bp\<rbrakk> \<Longrightarrow>
     xsk_step s (s\<lparr>x_pool := bp, x_caches := xs @ ys,
       x_lost := x_lost s + cache_bufs (slab_mem (x_pool s)) c\<rparr>)"

definition xsk_init :: "bpool \<Rightarrow> xsk" where
  "xsk_init bp = \<lparr>x_pool = bp, x_caches = [], x_out = {#}, x_lost = {#}\<rparr>"

inductive xsk_reach :: "bpool_params \<Rightarrow> xsk \<Rightarrow> bool" for ps where
  reach_init: "bpool_init env ps = Some (Some bp) \<Longrightarrow> xsk_reach ps (xsk_init bp)"
| reach_step: "\<lbrakk>xsk_reach ps s; xsk_step s s'\<rbrakk> \<Longrightarrow> xsk_reach ps s'"

text \<open>The number of buffers of the pool: the requested one rounded up to whole slabs, in
  32-bit arithmetic.\<close>

definition total_buffers :: "bpool_params \<Rightarrow> nat" where
  "total_buffers ps =
     unat ((p_n_buffers ps + p_n_buffers_per_slab ps - 1) div p_n_buffers_per_slab ps)
     * unat (p_n_buffers_per_slab ps)"

definition xsk_inv :: "bpool_params \<Rightarrow> xsk \<Rightarrow> bool" where
  "xsk_inv ps s \<longleftrightarrow>
     wf_pool (x_pool s) (x_caches s)
   \<and> pool_cap (x_pool s) = total_buffers ps
   \<and> free_bufs (x_pool s) (x_caches s) + x_out s + x_lost s
       = mset (map (buffer_addr ps) [0..<total_buffers ps])"

lemma xsk_inv_init: "bpool_init env ps = Some (Some bp) \<Longrightarrow> xsk_inv ps (xsk_init bp)"
  using bpool_init_wf [of env ps bp]
  by (simp add: xsk_inv_def xsk_init_def pool_cap_def total_buffers_def)

lemma xsk_room:
  assumes "xsk_inv ps s" "b \<in># x_out s"
  shows "size (free_bufs (x_pool s) (x_caches s)) < pool_cap (x_pool s)"
proof -
  have "size (free_bufs (x_pool s) (x_caches s) + x_out s + x_lost s) = total_buffers ps"
    using assms(1) unfolding xsk_inv_def by (simp only: size_mset length_map length_upt)
  then have "size (free_bufs (x_pool s) (x_caches s)) + size (x_out s) \<le> total_buffers ps"
    by simp
  moreover have "0 < size (x_out s)"
    using assms(2) by (simp add: nonempty_has_size [symmetric]) auto
  ultimately show ?thesis
    using assms(1) by (simp add: xsk_inv_def)
qed

lemma xsk_inv_step:
  assumes "xsk_step s s'" "xsk_inv ps s"
  shows "xsk_inv ps s'"
  using assms
proof cases
  case (step_open oom c bp)
  then have oom: "\<not> oom" "n_slabs_reserved_available (x_pool s) \<noteq> 0"
    by (auto simp: bcache_init_def split: if_splits)
  then show ?thesis
    using step_open assms(2) bcache_init_step [of "x_pool s" "x_caches s"]
    by (auto simp: xsk_inv_def pool_cap_def)
next
  case (step_check xs c ys n m bp c')
  then show ?thesis
    using assms(2) cons_check_step [of "x_pool s" xs c ys n]
    by (auto simp: xsk_inv_def pool_cap_def)
next
  case (step_cons xs c ys b c')
  moreover have "n_buffers_cons c \<noteq> 0"
    using step_cons by (auto simp: bcache_cons_def split: if_splits)
  ultimately show ?thesis
    using assms(2) cons_step [of "x_pool s" xs c ys]
    by (auto simp: xsk_inv_def pool_cap_def)
next
  case (step_prod xs c ys b bp c')
  obtain r where r: "x_out s = add_mset b r"
    using step_prod by (meson mset_add)
  then show ?thesis
    using step_prod assms(2) xsk_room [OF assms(2) step_prod(3)] cache_put_step [of "x_pool s" xs c ys b]
    by (auto simp: xsk_inv_def pool_cap_def)
next
  case (step_close xs c ys bp)
  then show ?thesis
    using assms(2) bcache_free_step [of "x_pool s" xs c ys]
    by (auto simp: xsk_inv_def pool_cap_def ac_simps)
qed

lemma xsk_reach_inv: "xsk_reach ps s \<Longrightarrow> xsk_inv ps s"
  by (induction rule: xsk_reach.induct) (auto intro: xsk_inv_init xsk_inv_step)

lemma total_buffers_bound: "total_buffers ps < 2 ^ 32"
proof -
  let ?t = "p_n_buffers ps + p_n_buffers_per_slab ps - 1"
  have "total_buffers ps \<le> unat ?t"
    by (simp add: total_buffers_def unat_div)
  then show ?thesis
    using unat_u32_less [of ?t] by simp
qed

lemma xsk_all_distinct:
  assumes "p_buffer_size ps \<noteq> 0"
  shows "distinct (map (buffer_addr ps) [0..<total_buffers ps])"
  using buffer_addr_inj [OF assms total_buffers_bound] by (simp add: distinct_map)

lemma cache_get_all:
  assumes "wf_pool bp (xs @ c # ys)" "n \<le> n_buffers_cons c"
  shows "\<exists>bs c'. get_all cache_get (bp, c) n = Some (bs, (bp, c')) \<and> length bs = n
    \<and> wf_pool bp (xs @ c' # ys) \<and> free_bufs bp (xs @ c # ys) = mset bs + free_bufs bp (xs @ c' # ys)"
proof -
  have same: "fst s' = fst s" if "get_all cache_get s k = Some (bs, s')" for s k bs s'
    using that
    by (induction k arbitrary: s bs s')
      (fastforce simp: cache_get_def split: Option.bind_splits prod.splits)+
  obtain bs s' where "get_all cache_get (bp, c) n = Some (bs, s')" "length bs = n"
    "wf_pool (fst s') (xs @ snd s' # ys)"
    "free_bufs bp (xs @ c # ys) = mset bs + free_bufs (fst s') (xs @ snd s' # ys)"
    using cache.get_all_ok [of xs ys "(bp, c)" n] assms by (auto simp: case_prod_beta)
  with same show ?thesis
    by (cases s') fastforce
qed

lemma cache_put_all:
  assumes "wf_pool bp (xs @ c # ys)" "size (free_bufs bp (xs @ c # ys)) + length bs \<le> pool_cap bp"
  shows "\<exists>bp' c'. put_all cache_put (bp, c) bs = Some (bp', c') \<and> wf_pool bp' (xs @ c' # ys)
    \<and> free_bufs bp' (xs @ c' # ys) = free_bufs bp (xs @ c # ys) + mset bs \<and> pool_cap bp' = pool_cap bp"
  using cache.put_all_ok [of xs ys "(bp, c)" bs] assms by (auto simp: case_prod_beta)

lemma bcache_check_take:
  assumes "wf_pool bp (xs @ c # ys)" "n \<le> slab_size bp"
  shows "\<exists>m bp' c'. bcache_cons_check bp c n = Some (m, bp', c') \<and> m \<le> n
    \<and> (\<exists>bs c''. get_all cache_get (bp', c') m = Some (bs, (bp', c'')) \<and> length bs = m)"
proof -
  obtain m bp' c' where 1: "bcache_cons_check bp c n = Some (m, bp', c')"
    "wf_pool bp' (xs @ c' # ys)" "m \<le> n_buffers_cons c'"
    using cons_check_step [OF assms(1), of n] assms(2) by auto
  moreover have "m \<le> n"
    using 1(1) by (auto simp: bcache_cons_check_def Let_def split: if_splits)
  ultimately show ?thesis
    using cache_get_all [OF 1(2,3)] by blast
qed

text \<open>A pool of two slabs with one port that holds a buffer.\<close>

definition demo_env :: bpool_env where
  "demo_env = \<lparr>setrlimit_fails = False, calloc_fails = False, mutex_init_fails = False,
     mmap_fails = False, umem_create_fails = False\<rparr>"

definition demo_params :: bpool_params where
  "demo_params = \<lparr>p_n_buffers = 3, p_buffer_size = 2048, p_n_users_max = 1, p_n_buffers_per_slab = 2\<rparr>"

definition demo_pool :: bpool where
  "demo_pool = \<lparr>params = demo_params\<lparr>p_n_buffers := 4\<rparr>,
     slab_mem = [[0, 2048], [4096, 6144], [0, 0], [0, 0]], slabs = [0, 1], slabs_reserved = [2, 3],
     n_slabs = 2, n_slabs_reserved = 2, n_buffers = 4, n_slabs_available = 2,
     n_slabs_reserved_available = 2\<rparr>"

definition demo_xsk :: xsk where
  "demo_xsk = \<lparr>x_pool = demo_pool\<lparr>slabs := [0, 3], n_slabs_available := 1, n_slabs_reserved_available := 0\<rparr>,
     x_caches = [\<lparr>slab_cons = 1, slab_prod = 2, n_buffers_cons = 1, n_buffers_prod = 0\<rparr>],
     x_out = {#6144#}, x_lost = {#}\<rparr>"

lemma demo_pool_init: "bpool_init demo_env demo_params = Some (Some demo_pool)"
  by code_simp

lemma demo_buffers: "map (buffer_addr demo_params) [0..<total_buffers demo_params] = [0, 2048, 4096, 6144]"
  by code_simp

lemma demo_xsk_reach: "xsk_reach demo_params demo_xsk"
proof -
  let ?s0 = "xsk_init demo_pool"
  let ?c0 = "\<lparr>slab_cons = 3, slab_prod = 2, n_buffers_cons = 0, n_buffers_prod = 0\<rparr>"
  let ?s1 = "?s0\<lparr>x_pool := demo_pool\<lparr>n_slabs_reserved_available := 0\<rparr>, x_caches := [] @ [?c0]\<rparr>"
  let ?c1 = "\<lparr>slab_cons = 1, slab_prod = 2, n_buffers_cons = 2, n_buffers_prod = 0\<rparr>"
  let ?s2 = "?s1\<lparr>x_pool := demo_pool\<lparr>slabs := [0, 3], n_slabs_available := 1, n_slabs_reserved_available := 0\<rparr>,
    x_caches := [] @ [?c1]\<rparr>"
  have r0: "xsk_reach demo_params ?s0"
    using demo_pool_init by (rule reach_init)
  have "xsk_step ?s0 ?s1"
    using step_open [of False ?s0 ?c0] by (simp add: bcache_init_def xsk_init_def demo_pool_def)
  with r0 have r1: "xsk_reach demo_params ?s1"
    by (rule reach_step)
  have "xsk_step ?s1 ?s2"
    using step_check [of ?s1 "[]" ?c0 "[]" 1 1 "x_pool ?s2" ?c1]
    by (simp add: bcache_cons_check_def demo_pool_def xsk_init_def slab_size_def demo_params_def)
  with r1 have r2: "xsk_reach demo_params ?s2"
    by (rule reach_step)
  have "xsk_step ?s2 demo_xsk"
    using step_cons [of ?s2 "[]" ?c1 "[]" 6144 "?c1\<lparr>n_buffers_cons := 1\<rparr>"]
    by (simp add: bcache_cons_def demo_pool_def xsk_init_def demo_xsk_def)
  with r2 show ?thesis
    by (rule reach_step)
qed

section \<open>Properties\<close>

text \<open>
  C13.  No buffer is lost or duplicated.  In every state the forwarding program can reach
  from a successful \<^verbatim>\<open>bpool_init\<close>, whatever the interleaving of the ports' operations, the
  free buffers, those handed out and those that went down with closed ports are together
  the buffers of the UMEM area, each exactly once: the addresses \<^verbatim>\<open>i * buffer_size\<close> are
  pairwise different, so a buffer that is out is not in the pool and is not out twice.
\<close>

theorem xsk_conservation:
  assumes "xsk_reach ps s" "p_buffer_size ps \<noteq> 0"
  shows "free_bufs (x_pool s) (x_caches s) + x_out s + x_lost s
      = mset (map (buffer_addr ps) [0..<total_buffers ps])
    \<and> distinct (map (buffer_addr ps) [0..<total_buffers ps])
    \<and> count (x_out s) b + count (free_bufs (x_pool s) (x_caches s)) b \<le> 1"
proof -
  have *: "free_bufs (x_pool s) (x_caches s) + x_out s + x_lost s
      = mset (map (buffer_addr ps) [0..<total_buffers ps])"
    using xsk_reach_inv [OF assms(1)] by (simp add: xsk_inv_def)
  have d: "distinct (map (buffer_addr ps) [0..<total_buffers ps])"
    using assms(2) by (rule xsk_all_distinct)
  have "count (free_bufs (x_pool s) (x_caches s) + x_out s + x_lost s) b \<le> 1"
    unfolding * using d unfolding distinct_count_atmost_1
    by (metis count_mset_0_iff le_numeral_extra(4) zero_le_one)
  then have "count (x_out s) b + count (free_bufs (x_pool s) (x_caches s)) b \<le> 1"
    unfolding count_union by linarith
  with * d show ?thesis
    by blast
qed

theorem xsk_conservation_witness:
  "free_bufs (x_pool demo_xsk) (x_caches demo_xsk) + {#6144#} = {#0, 2048, 4096, 6144#}"
  using xsk_conservation [OF demo_xsk_reach, of 0] unfolding demo_buffers
  by (simp add: demo_xsk_def demo_params_def)

text \<open>
  C14.  The port operations never leave their arrays.  In every reachable state, for every
  open cache: a check for at most one slab of buffers returns, and as many calls of
  \<^verbatim>\<open>bcache_cons\<close> as it promised succeed; and giving back a buffer that is out always finds
  room, also when the producer slab is full and an empty one must be in the pool.
\<close>

theorem xsk_port_ops_safe:
  assumes "xsk_reach ps s" "x_caches s = xs @ c # ys"
    and "n \<le> slab_size (x_pool s)" "b \<in># x_out s"
  shows "(\<exists>m bp' c'. bcache_cons_check (x_pool s) c n = Some (m, bp', c') \<and> m \<le> n
      \<and> (\<exists>bs c''. get_all cache_get (bp', c') m = Some (bs, (bp', c'')) \<and> length bs = m))
    \<and> bcache_prod (x_pool s) c b \<noteq> None"
proof -
  have inv: "xsk_inv ps s"
    using assms(1) by (rule xsk_reach_inv)
  then have wf: "wf_pool (x_pool s) (xs @ c # ys)"
    using assms(2) by (simp add: xsk_inv_def)
  have "bcache_prod (x_pool s) c b \<noteq> None"
    using cache_put_step [OF wf, of b] xsk_room [OF inv assms(4)] assms(2) by auto
  then show ?thesis
    using bcache_check_take [OF wf assms(3)] by blast
qed

theorem xsk_port_ops_safe_witness:
  "bcache_prod (x_pool demo_xsk) (hd (x_caches demo_xsk)) 6144 \<noteq> None"
  using xsk_port_ops_safe [OF demo_xsk_reach, of "[]" "hd (x_caches demo_xsk)" "[]" 2 6144]
  by (simp add: demo_xsk_def slab_size_def demo_pool_def demo_params_def)

end
