(* ===== verification/XskPort.thy ===== *)
theory XskPort
  imports XskPool
begin

text \<open>
  The ports and forwarding threads of \<^verbatim>\<open>ebpf-xdp/xsk/af_rxtx.c\<close> and their set-up in
  \<^verbatim>\<open>ebpf-xdp/xsk/main.c\<close>.

  The four rings of a socket belong to libxdp and the kernel.  What their functions return is a
  parameter of the model (record \<open>rings\<close>): the descriptors a peek yields, as a function of the
  buffers the kernel holds, and the answer of each attempt to reserve slots.  Polling and wake-up
  calls have no effect on the program's own state and are left out.
\<close>

section \<open>Data\<close>

abbreviation MAX_BURST_RX :: nat where "MAX_BURST_RX \<equiv> 1"
abbreviation MAX_BURST_TX :: nat where "MAX_BURST_TX \<equiv> 1"
abbreviation MAX_PORTS_PER_THREAD :: nat where "MAX_PORTS_PER_THREAD \<equiv> 16"
abbreviation MAX_PORTS :: nat where "MAX_PORTS \<equiv> 64"
abbreviation MAX_THREADS :: nat where "MAX_THREADS \<equiv> 64"

type_synonym desc = "u64 \<times> u32"

record port =
  bc :: "bcache option"
  umem_fq_initialized :: bool
  n_pkts_rx :: u64
  n_pkts_tx :: u64

record rings =
  rxq_peek :: "u64 multiset \<Rightarrow> nat \<Rightarrow> desc list"
  fq_reserve :: "nat \<Rightarrow> nat \<Rightarrow> nat"
  txq_reserve :: "nat \<Rightarrow> nat \<Rightarrow> nat"
  cq_peek :: "u64 multiset \<Rightarrow> nat \<Rightarrow> u64 list"

text \<open>
  What libxdp documents: a peek returns at most the number of entries asked for, and these are
  buffers that were handed to the kernel before; a reservation is granted after finitely many
  attempts.  The second argument of a reservation is the number of slots, the first one
  the number of the attempt.
\<close>

definition rings_ok :: "rings \<Rightarrow> bool" where
  "rings_ok r \<longleftrightarrow>
     (\<forall>K n. length (rxq_peek r K n) \<le> n \<and> mset (map fst (rxq_peek r K n)) \<subseteq># K
       \<and> length (cq_peek r K n) \<le> n \<and> mset (cq_peek r K n) \<subseteq># K)
   \<and> (\<forall>n. (\<exists>k. fq_reserve r k n = n) \<and> (\<exists>k. txq_reserve r k n = n))"

section \<open>Opening and closing a port\<close>

record port_env =
  port_calloc_fails :: bool
  bcache_malloc_fails :: bool
  xsk_create_fails :: bool
  xskmap_fails :: "bool \<Rightarrow> bool"

definition port_free :: "bpool \<Rightarrow> port option \<Rightarrow> bpool option" where
  "port_free bp p = (case p of None \<Rightarrow> Some bp | Some p \<Rightarrow> bcache_free bp (bc p))"

text \<open>
  The result is the port, the buffers put into its fill queue, the pool, and the counter
  \<^verbatim>\<open>lr_count\<close> that selects the left or the right socket map.  A failing update of the
  socket map returns without releasing the port.
\<close>

definition port_init :: "port_env \<Rightarrow> nat \<Rightarrow> bpool \<Rightarrow> int \<Rightarrow> (port option \<times> u64 list \<times> bpool \<times> int) option" where
  "port_init env umem_fq_size bp lr_count =
     (if port_calloc_fails env then Some (None, [], bp, lr_count)
      else
        let p = \<lparr>bc = None, umem_fq_initialized = False, n_pkts_rx = 0, n_pkts_tx = 0\<rparr>;
            fail = (\<lambda>bp c. do { bp \<leftarrow> port_free bp (Some (p\<lparr>bc := c\<rparr>)); Some (None, [], bp, lr_count) }) in
        do {
          (c, bp) \<leftarrow> bcache_init (bcache_malloc_fails env) bp;
          case c of
            None \<Rightarrow> fail bp None
          | Some c \<Rightarrow>
              if bcache_slab_size bp < umem_fq_size then fail bp (Some c)
              else do {
                (n, bp, c) \<leftarrow> bcache_cons_check bp c umem_fq_size;
                if n < umem_fq_size then fail bp (Some c)
                else if xsk_create_fails env then fail bp (Some c)
                else if xskmap_fails env (lr_count mod 2 = 0) then Some (None, [], bp, lr_count + 1)
                else do {
                  (fill, (bp, c)) \<leftarrow> get_all cache_get (bp, c) umem_fq_size;
                  Some (Some (p\<lparr>bc := Some c, umem_fq_initialized := True\<rparr>), fill, bp, lr_count + 1)
                }
              }
        })"

section \<open>Bursts\<close>

text \<open>Attempts to reserve slots go on until the answer is the number asked for.\<close>

partial_function (option) reserve_loop :: "(nat \<Rightarrow> nat) \<Rightarrow> nat \<Rightarrow> nat \<Rightarrow> nat option" where
  "reserve_loop status n k = (if status k = n then Some k else reserve_loop status n (Suc k))"

text \<open>The result: the burst of descriptors, the buffers submitted to the fill queue, the pool and
  the port.\<close>

definition port_rx_burst ::
  "rings \<Rightarrow> u64 multiset \<Rightarrow> bpool \<Rightarrow> port \<Rightarrow> (desc list \<times> u64 list \<times> bpool \<times> port) option" where
  "port_rx_burst r K bp p =
     do {
       c \<leftarrow> bc p;
       (n_pkts, bp, c) \<leftarrow> bcache_cons_check bp c MAX_BURST_RX;
       let p = p\<lparr>bc := Some c\<rparr>;
       if n_pkts = 0 then Some ([], [], bp, p)
       else
         let descs = rxq_peek r K n_pkts in
         if descs = [] then Some ([], [], bp, p)
         else if MAX_BURST_RX < length descs then None
         else
           let p = p\<lparr>n_pkts_rx := n_pkts_rx p + of_nat (length descs)\<rparr> in
           do {
             _ \<leftarrow> reserve_loop (\<lambda>k. fq_reserve r k (length descs)) (length descs) 0;
             (fill, (bp, c)) \<leftarrow> get_all cache_get (bp, c) (length descs);
             Some (descs, fill, bp, p\<lparr>bc := Some c\<rparr>)
           }
     }"

text \<open>The result: the completed buffers taken back, the pool and the port.  The buffers of the
  burst are with the kernel when the completion queue is read.\<close>

definition port_tx_burst ::
  "rings \<Rightarrow> nat \<Rightarrow> u64 multiset \<Rightarrow> bpool \<Rightarrow> port \<Rightarrow> desc list \<Rightarrow> (u64 list \<times> bpool \<times> port) option" where
  "port_tx_burst r comp_size K bp p burst =
     do {
       _ \<leftarrow> reserve_loop (\<lambda>k. txq_reserve r k (length burst)) (length burst) 0;
       let p = p\<lparr>n_pkts_tx := n_pkts_tx p + of_nat (length burst)\<rparr>;
       let comps = cq_peek r (K + mset (map fst burst)) comp_size;
       c \<leftarrow> bc p;
       (bp, c) \<leftarrow> put_all cache_put (bp, c) comps;
       Some (comps, bp, p\<lparr>bc := Some c\<rparr>)
     }"

section \<open>The forwarding threads\<close>

text \<open>
  The state of the forwarding program: pool, ports, the transmit burst under construction of
  each port slot of the thread, and the buffers that are in some ring.
\<close>

record fwd =
  f_pool :: bpool
  f_ports :: "port list"
  f_btx :: "desc list list"
  f_kernel :: "u64 multiset"

definition rx_part :: "rings \<Rightarrow> nat \<Rightarrow> fwd \<Rightarrow> (desc list \<times> fwd) option" where
  "rx_part r i s =
     (if i < length (f_ports s) then
        do {
          (descs, fill, bp, p) \<leftarrow> port_rx_burst r (f_kernel s) (f_pool s) (f_ports s ! i);
          Some (descs, s\<lparr>f_pool := bp, f_ports := (f_ports s)[i := p],
            f_kernel := f_kernel s - mset (map fst descs) + mset fill\<rparr>)
        }
      else None)"

definition tx_part :: "rings \<Rightarrow> nat \<Rightarrow> nat \<Rightarrow> nat \<Rightarrow> fwd \<Rightarrow> fwd option" where
  "tx_part r comp_size q j s =
     (if q < length (f_ports s) \<and> j < length (f_btx s) then
        do {
          (comps, bp, p) \<leftarrow> port_tx_burst r comp_size (f_kernel s) (f_pool s) (f_ports s ! q) (f_btx s ! j);
          Some (s\<lparr>f_pool := bp, f_ports := (f_ports s)[q := p], f_btx := (f_btx s)[j := []],
            f_kernel := f_kernel s + mset (map fst (f_btx s ! j)) - mset comps\<rparr>)
        }
      else None)"

text \<open>The loop over the received packets; a burst is transmitted when it is full.\<close>

fun process :: "rings \<Rightarrow> nat \<Rightarrow> nat \<Rightarrow> nat \<Rightarrow> desc list \<Rightarrow> fwd \<Rightarrow> fwd option" where
  "process r comp_size q j [] s = Some s"
| "process r comp_size q j (d # ds) s =
     (if j < length (f_btx s) \<and> length (f_btx s ! j) < MAX_BURST_TX then
        let s = s\<lparr>f_btx := (f_btx s)[j := f_btx s ! j @ [d]]\<rparr> in
        if length (f_btx s ! j) = MAX_BURST_TX
        then do { s \<leftarrow> tx_part r comp_size q j s; process r comp_size q j ds s }
        else process r comp_size q j ds s
      else None)"

text \<open>One pass of a thread over its slot \<^term>\<open>j\<close>, which receives on port \<^term>\<open>i\<close> and sends on
  port \<^term>\<open>q\<close>.\<close>

definition thread_iter :: "rings \<Rightarrow> nat \<Rightarrow> nat \<Rightarrow> nat \<Rightarrow> nat \<Rightarrow> fwd \<Rightarrow> fwd option" where
  "thread_iter r comp_size i q j s =
     do {
       (descs, s) \<leftarrow> rx_part r i s;
       if descs = [] then Some s else process r comp_size q j descs s
     }"

definition next_port :: "u32 \<Rightarrow> u32 \<Rightarrow> u32" where
  "next_port n i = (i + 1) AND (n - 1)"

text \<open>
  The busy-polling thread.  The slots pair the receiving and the sending port; there is one
  entry of the list of rings per pass, and the list ends when \<^verbatim>\<open>quit\<close> is seen.
\<close>

fun thread_func :: "rings list \<Rightarrow> nat \<Rightarrow> (nat \<times> nat) list \<Rightarrow> u32 \<Rightarrow> fwd \<Rightarrow> fwd option" where
  "thread_func [] comp_size slots i s = Some s"
| "thread_func (r # rs) comp_size slots i s =
     (if unat i < length slots then
        do {
          s \<leftarrow> thread_iter r comp_size (fst (slots ! unat i)) (snd (slots ! unat i)) (unat i) s;
          thread_func rs comp_size slots (next_port (of_nat (length slots)) i) s
        }
      else None)"

text \<open>
  The thread that waits in \<^verbatim>\<open>poll\<close>: for each polled descriptor without error, the slots with
  that descriptor are served.
\<close>

abbreviation POLLIN :: u16 where "POLLIN \<equiv> 1"
abbreviation POLLERR :: u16 where "POLLERR \<equiv> 8"
abbreviation POLLHUP :: u16 where "POLLHUP \<equiv> 16"

fun poll_slots :: "(nat \<Rightarrow> rings) \<Rightarrow> nat \<Rightarrow> (nat \<times> nat) list \<Rightarrow> int list \<Rightarrow> u16 list \<Rightarrow> nat \<Rightarrow> nat list \<Rightarrow> fwd \<Rightarrow> fwd option" where
  "poll_slots r comp_size slots fds revents i [] s = Some s"
| "poll_slots r comp_size slots fds revents i (j # js) s =
     (if fds ! i = fds ! j \<and> revents ! i AND POLLIN \<noteq> 0 then
        do {
          s \<leftarrow> thread_iter (r j) comp_size (fst (slots ! j)) (snd (slots ! j)) j s;
          poll_slots r comp_size slots fds revents i js s
        }
      else poll_slots r comp_size slots fds revents i js s)"

fun poll_round :: "(nat \<Rightarrow> nat \<Rightarrow> rings) \<Rightarrow> nat \<Rightarrow> (nat \<times> nat) list \<Rightarrow> int list \<Rightarrow> u16 list \<Rightarrow> nat list \<Rightarrow> fwd \<Rightarrow> fwd option" where
  "poll_round r comp_size slots fds revents [] s = Some s"
| "poll_round r comp_size slots fds revents (i # is) s =
     (if revents ! i AND POLLERR \<noteq> 0 \<or> revents ! i AND POLLHUP \<noteq> 0
      then poll_round r comp_size slots fds revents is s
      else do {
        s \<leftarrow> poll_slots (r i) comp_size slots fds revents i [0..<length slots] s;
        poll_round r comp_size slots fds revents is s
      })"

fun thread_func_poll :: "((nat \<Rightarrow> nat \<Rightarrow> rings) \<times> u16 list) list \<Rightarrow> nat \<Rightarrow> (nat \<times> nat) list \<Rightarrow> int list \<Rightarrow> fwd \<Rightarrow> fwd option" where
  "thread_func_poll [] comp_size slots fds s = Some s"
| "thread_func_poll ((r, revents) # rs) comp_size slots fds s =
     do {
       s \<leftarrow> poll_round r comp_size slots fds revents [0..<length slots] s;
       thread_func_poll rs comp_size slots fds s
     }"

section \<open>Command line and set-up\<close>

text \<open>
  \<^verbatim>\<open>parse_args\<close> on the options of the command line, each with its argument.  \<^verbatim>\<open>getopt_long\<close>
  is called with the option string \<^verbatim>\<open>c:i:q:\<close> and answers \<^verbatim>\<open>?\<close> for every other option.
\<close>

record cfg =
  cfg_n_buffers :: u32
  cfg_cores :: "u32 list"
  cfg_ports :: "(string \<times> u32) list"

definition getopt_char :: "char \<Rightarrow> char" where
  "getopt_char c = (if c \<in> set ''ciq'' then c else CHR ''?'')"

fun digits_value :: "nat \<Rightarrow> string \<Rightarrow> nat" where
  "digits_value n [] = n"
| "digits_value n (c # cs) =
     (if 48 \<le> (of_char c :: nat) \<and> of_char c \<le> (57 :: nat)
      then digits_value (10 * n + (of_char c - 48)) cs else n)"

definition atoi :: "string \<Rightarrow> int" where
  "atoi t =
     (case dropWhile (\<lambda>c. of_char c = (32 :: nat) \<or> 9 \<le> (of_char c :: nat) \<and> of_char c \<le> (13 :: nat)) t of
        [] \<Rightarrow> 0
      | c # cs \<Rightarrow> if c = CHR ''-'' then - int (digits_value 0 cs)
                 else if c = CHR ''+'' then int (digits_value 0 cs)
                 else int (digits_value 0 (c # cs)))"

fun parse_opts :: "(char \<times> string) list \<Rightarrow> cfg \<Rightarrow> cfg option" where
  "parse_opts [] g = Some g"
| "parse_opts ((c, optarg) # os) g =
     (let opt = getopt_char c in
      if opt = CHR ''b'' then parse_opts os (g\<lparr>cfg_n_buffers := of_int (atoi optarg)\<rparr>)
      else if opt = CHR ''c'' then
        if length (cfg_cores g) = MAX_THREADS then None
        else parse_opts os (g\<lparr>cfg_cores := cfg_cores g @ [of_int (atoi optarg)]\<rparr>)
      else if opt = CHR ''i'' then
        if length (cfg_ports g) = MAX_PORTS then None
        else parse_opts os (g\<lparr>cfg_ports := cfg_ports g @ [(optarg, 0)]\<rparr>)
      else if opt = CHR ''q'' then
        if cfg_ports g = [] then None
        else parse_opts os (g\<lparr>cfg_ports := (cfg_ports g)[length (cfg_ports g) - 1 :=
               (fst (last (cfg_ports g)), of_int (atoi optarg))]\<rparr>)
      else None)"

definition parse_args :: "(char \<times> string) list \<Rightarrow> cfg \<Rightarrow> cfg option" where
  "parse_args os g =
     (case parse_opts os g of
        None \<Rightarrow> None
      | Some g \<Rightarrow>
          if cfg_ports g = [] then None
          else if cfg_cores g = [] then None
          else if length (cfg_ports g) mod length (cfg_cores g) \<noteq> 0 then None
          else Some g)"

text \<open>\<^verbatim>\<open>main\<close>: the default parameters (the frame size and the number of descriptors of a ring are
  constants of libxdp), the ports, and the distribution of the ports over the threads.\<close>

definition bpool_params_default :: "u32 \<Rightarrow> u32 \<Rightarrow> bpool_params" where
  "bpool_params_default frame_size num_descs =
     \<lparr>p_n_buffers = 64 * 1024, p_buffer_size = frame_size, p_n_users_max = 16,
      p_n_buffers_per_slab = num_descs * 2\<rparr>"

fun init_ports :: "port_env list \<Rightarrow> nat \<Rightarrow> bpool \<Rightarrow> int \<Rightarrow> port list \<Rightarrow> u64 multiset
    \<Rightarrow> ((port list \<times> u64 multiset) option \<times> bpool) option" where
  "init_ports [] fq bp lr ps K = Some (Some (ps, K), bp)"
| "init_ports (e # es) fq bp lr ps K =
     do {
       (p, fill, bp, lr) \<leftarrow> port_init e fq bp lr;
       case p of
         None \<Rightarrow> Some (None, bp)
       | Some p \<Rightarrow> init_ports es fq bp lr (ps @ [p]) (K + mset fill)
     }"

definition thread_slots :: "nat \<Rightarrow> nat \<Rightarrow> (nat \<times> nat) list option" where
  "thread_slots n_ports_per_thread i =
     (if MAX_PORTS_PER_THREAD < n_ports_per_thread then None
      else Some (map (\<lambda>j. (i * n_ports_per_thread + j,
                          i * n_ports_per_thread + (j + 1) mod n_ports_per_thread))
             [0..<n_ports_per_thread]))"

text \<open>The result is \<^term>\<open>Some None\<close> when \<^verbatim>\<open>main\<close> returns with an error, and \<^term>\<open>None\<close> for an
  access outside an array.\<close>

definition main_setup :: "bpool_env \<Rightarrow> bpool_params \<Rightarrow> nat \<Rightarrow> port_env list \<Rightarrow> nat
    \<Rightarrow> (fwd \<times> (nat \<times> nat) list list) option option" where
  "main_setup env ps fq penvs n_threads =
     do {
       bp \<leftarrow> bpool_init env ps;
       case bp of
         None \<Rightarrow> Some None
       | Some bp \<Rightarrow>
           do {
             (r, bp) \<leftarrow> init_ports penvs fq bp 0 [] {#};
             case r of
               None \<Rightarrow> Some None
             | Some (ports, K) \<Rightarrow>
                 let per = length penvs div n_threads;
                     slots = map (thread_slots per) [0..<n_threads] in
                 if None \<in> set slots then None
                 else Some (Some (\<lparr>f_pool = bp, f_ports = ports, f_btx = replicate (length penvs) [],
                                  f_kernel = K\<rparr>, map the slots))
           }
     }"

section \<open>Facts\<close>

lemma reserve_loop_returns:
  assumes "status j = n"
  shows "\<exists>k. reserve_loop status n 0 = Some k \<and> status k = n"
proof -
  have "\<exists>k. reserve_loop status n i = Some k \<and> status k = n" if "i \<le> j" for i
    using that
  proof (induction "j - i" arbitrary: i)
    case 0
    then show ?case
      using assms by (subst reserve_loop.simps) auto
  next
    case (Suc d)
    then show ?case
      using Suc.hyps(1) [of "Suc i"] by (subst reserve_loop.simps) auto
  qed
  then show ?thesis
    by blast
qed

lemma rings_okD:
  assumes "rings_ok r"
  shows "length (rxq_peek r K n) \<le> n" "mset (map fst (rxq_peek r K n)) \<subseteq># K"
    "length (cq_peek r K n) \<le> n" "mset (cq_peek r K n) \<subseteq># K"
    "\<exists>k. reserve_loop (\<lambda>k. fq_reserve r k n) n 0 = Some k"
    "\<exists>k. reserve_loop (\<lambda>k. txq_reserve r k n) n 0 = Some k"
proof -
  show "length (rxq_peek r K n) \<le> n" "mset (map fst (rxq_peek r K n)) \<subseteq># K"
    "length (cq_peek r K n) \<le> n" "mset (cq_peek r K n) \<subseteq># K"
    using assms unfolding rings_ok_def by blast+
  obtain i j where "fq_reserve r i n = n" "txq_reserve r j n = n"
    using assms unfolding rings_ok_def by blast
  then show "\<exists>k. reserve_loop (\<lambda>k. fq_reserve r k n) n 0 = Some k"
    "\<exists>k. reserve_loop (\<lambda>k. txq_reserve r k n) n 0 = Some k"
    using reserve_loop_returns [of "\<lambda>k. fq_reserve r k n" i n]
      reserve_loop_returns [of "\<lambda>k. txq_reserve r k n" j n] by auto
qed

lemma port_rx_burst_ok:
  assumes r: "rings_ok r" and wf: "wf_pool bp (xs @ c # ys)" and p: "bc p = Some c"
  shows "\<exists>descs fill bp' c'. port_rx_burst r K bp p =
      Some (descs, fill, bp', p\<lparr>bc := Some c', n_pkts_rx := n_pkts_rx p + of_nat (length descs)\<rparr>)
    \<and> wf_pool bp' (xs @ c' # ys) \<and> pool_cap bp' = pool_cap bp
    \<and> free_bufs bp (xs @ c # ys) = mset fill + free_bufs bp' (xs @ c' # ys)
    \<and> length fill = length descs \<and> length descs \<le> MAX_BURST_RX \<and> mset (map fst descs) \<subseteq># K"
proof -
  have "1 \<le> slab_size bp"
    using wf by (simp add: wf_pool_def)
  then obtain n bp1 c1 where 1: "bcache_cons_check bp c MAX_BURST_RX = Some (n, bp1, c1)"
    "wf_pool bp1 (xs @ c1 # ys)" "free_bufs bp1 (xs @ c1 # ys) = free_bufs bp (xs @ c # ys)"
    "n \<le> n_buffers_cons c1" "pool_cap bp1 = pool_cap bp"
    using cons_check_step [OF wf, of MAX_BURST_RX] by (auto simp: pool_cap_def)
  have n: "n \<le> MAX_BURST_RX"
    using 1(1) by (auto simp: bcache_cons_check_def Let_def split: if_splits)
  define ds where "ds = rxq_peek r K n"
  have ds: "length ds \<le> n" "mset (map fst ds) \<subseteq># K"
    unfolding ds_def by (rule rings_okD [OF r])+
  show ?thesis
  proof (cases "n = 0 \<or> ds = []")
    case True
    then show ?thesis
      using 1 p by (auto simp: port_rx_burst_def ds_def Let_def)
  next
    case False
    obtain k where k: "reserve_loop (\<lambda>k. fq_reserve r k (length ds)) (length ds) 0 = Some k"
      using rings_okD(5) [OF r] by blast
    obtain bs c2 where 2: "get_all cache_get (bp1, c1) (length ds) = Some (bs, (bp1, c2))"
      "length bs = length ds" "wf_pool bp1 (xs @ c2 # ys)"
      "free_bufs bp1 (xs @ c1 # ys) = mset bs + free_bufs bp1 (xs @ c2 # ys)"
      using cache_get_all [OF 1(2), of "length ds"] ds 1(4) by auto
    have "port_rx_burst r K bp p =
        Some (ds, bs, bp1, p\<lparr>bc := Some c2, n_pkts_rx := n_pkts_rx p + of_nat (length ds)\<rparr>)"
      using False p 1(1) k 2(1) ds(1) n unfolding port_rx_burst_def ds_def [symmetric]
      by (simp add: Let_def flip: ds_def)
    then show ?thesis
      using 1 2 ds n by auto
  qed
qed

lemma port_tx_burst_ok:
  assumes r: "rings_ok r" and wf: "wf_pool bp (xs @ c # ys)" and p: "bc p = Some c"
    and sz: "size (free_bufs bp (xs @ c # ys)) + size K + length burst \<le> pool_cap bp"
  shows "\<exists>comps bp' c'. port_tx_burst r n K bp p burst =
      Some (comps, bp', p\<lparr>bc := Some c', n_pkts_tx := n_pkts_tx p + of_nat (length burst)\<rparr>)
    \<and> wf_pool bp' (xs @ c' # ys) \<and> pool_cap bp' = pool_cap bp
    \<and> free_bufs bp' (xs @ c' # ys) = free_bufs bp (xs @ c # ys) + mset comps
    \<and> mset comps \<subseteq># K + mset (map fst burst)"
proof -
  define cs where "cs = cq_peek r (K + mset (map fst burst)) n"
  have sub: "mset cs \<subseteq># K + mset (map fst burst)"
    unfolding cs_def by (rule rings_okD [OF r])
  then have "length cs \<le> size K + length burst"
    using size_mset_mono [OF sub] by simp
  then obtain bp' c' where 1: "put_all cache_put (bp, c) cs = Some (bp', c')" "wf_pool bp' (xs @ c' # ys)"
    "free_bufs bp' (xs @ c' # ys) = free_bufs bp (xs @ c # ys) + mset cs" "pool_cap bp' = pool_cap bp"
    using cache_put_all [OF wf, of cs] sz by auto
  obtain k where k: "reserve_loop (\<lambda>k. txq_reserve r k (length burst)) (length burst) 0 = Some k"
    using rings_okD(6) [OF r] by blast
  have "port_tx_burst r n K bp p burst =
      Some (cs, bp', p\<lparr>bc := Some c', n_pkts_tx := n_pkts_tx p + of_nat (length burst)\<rparr>)"
    using p k 1(1) unfolding port_tx_burst_def cs_def [symmetric] by simp
  then show ?thesis
    using 1 sub by auto
qed

section \<open>The forwarding invariant\<close>

text \<open>
  Every buffer is free, in a ring, in a transmit burst, or in the hands of the loop that
  forwards the received packets (the multiset \<^term>\<open>H\<close>).
\<close>

definition caches_of :: "port list \<Rightarrow> bcache list" where
  "caches_of ps = map (\<lambda>p. the (bc p)) ps"

definition burst_bufs :: "desc list list \<Rightarrow> u64 multiset" where
  "burst_bufs bs = (\<Sum>b\<leftarrow>bs. mset (map fst b))"

definition fwd_own :: "u64 multiset \<Rightarrow> u64 multiset \<Rightarrow> fwd \<Rightarrow> bool" where
  "fwd_own T H s \<longleftrightarrow>
     list_all (\<lambda>p. bc p \<noteq> None) (f_ports s)
   \<and> wf_pool (f_pool s) (caches_of (f_ports s))
   \<and> free_bufs (f_pool s) (caches_of (f_ports s)) + f_kernel s + burst_bufs (f_btx s) + H = T
   \<and> size T = pool_cap (f_pool s)"

definition bursts_ok :: "fwd \<Rightarrow> bool" where
  "bursts_ok s \<longleftrightarrow> list_all (\<lambda>b. length b < MAX_BURST_TX) (f_btx s)"

lemma burst_bufs_update:
  "j < length bs \<Longrightarrow> burst_bufs (bs[j := x]) + mset (map fst (bs ! j)) = burst_bufs bs + mset (map fst x)"
proof (induction bs arbitrary: j)
  case (Cons b bs)
  then show ?case
    by (cases j) (auto simp: burst_bufs_def ac_simps)
qed simp

lemma caches_of_split:
  assumes "i < length ps"
  shows "caches_of ps = caches_of (take i ps) @ the (bc (ps ! i)) # caches_of (drop (Suc i) ps)"
    and "caches_of (ps[i := p]) = caches_of (take i ps) @ the (bc p) # caches_of (drop (Suc i) ps)"
  using assms
  by (simp_all add: caches_of_def upd_conv_take_nth_drop) (metis id_take_nth_drop list.simps(9) map_append)

lemma rx_part_ok:
  assumes "rings_ok r" "fwd_own T {#} s" "i < length (f_ports s)"
  shows "\<exists>ds s'. rx_part r i s = Some (ds, s') \<and> fwd_own T (mset (map fst ds)) s'
    \<and> f_btx s' = f_btx s \<and> length (f_ports s') = length (f_ports s)
    \<and> n_pkts_rx (f_ports s' ! i) = n_pkts_rx (f_ports s ! i) + of_nat (length ds)"
proof -
  let ?xs = "caches_of (take i (f_ports s))" and ?ys = "caches_of (drop (Suc i) (f_ports s))"
  let ?p = "f_ports s ! i"
  have own: "wf_pool (f_pool s) (caches_of (f_ports s))" "list_all (\<lambda>p. bc p \<noteq> None) (f_ports s)"
    "free_bufs (f_pool s) (caches_of (f_ports s)) + f_kernel s + burst_bufs (f_btx s) = T"
    "size T = pool_cap (f_pool s)"
    using assms(2) by (simp_all add: fwd_own_def)
  then obtain c where c: "bc ?p = Some c"
    using assms(3) by (auto simp: list_all_length)
  note split = caches_of_split [OF assms(3)]
  have wf: "wf_pool (f_pool s) (?xs @ c # ?ys)"
    using own(1) c by (simp add: split(1))
  obtain ds fill bp' c' where 1: "port_rx_burst r (f_kernel s) (f_pool s) ?p =
      Some (ds, fill, bp', ?p\<lparr>bc := Some c', n_pkts_rx := n_pkts_rx ?p + of_nat (length ds)\<rparr>)"
    "wf_pool bp' (?xs @ c' # ?ys)" "pool_cap bp' = pool_cap (f_pool s)"
    "free_bufs (f_pool s) (?xs @ c # ?ys) = mset fill + free_bufs bp' (?xs @ c' # ?ys)"
    "mset (map fst ds) \<subseteq># f_kernel s"
    using port_rx_burst_ok [OF assms(1) wf c] by blast
  obtain K where K: "f_kernel s = mset (map fst ds) + K"
    using 1(5) by (metis subset_mset.le_iff_add)
  have "T = free_bufs bp' (?xs @ c' # ?ys) + (K + mset fill) + burst_bufs (f_btx s) + mset (map fst ds)"
    using own(3) 1(4) c K by (simp add: split(1) ac_simps)
  then show ?thesis
    using 1 own(2,4) assms(3) K
    by (auto simp: rx_part_def fwd_own_def split(2) list_all_length nth_list_update)
qed

lemma tx_part_ok:
  assumes "rings_ok r" "fwd_own T H s" "q < length (f_ports s)" "j < length (f_btx s)"
  shows "\<exists>s'. tx_part r n q j s = Some s' \<and> fwd_own T H s'
    \<and> f_btx s' = (f_btx s)[j := []] \<and> length (f_ports s') = length (f_ports s)"
proof -
  let ?xs = "caches_of (take q (f_ports s))" and ?ys = "caches_of (drop (Suc q) (f_ports s))"
  let ?p = "f_ports s ! q" and ?b = "f_btx s ! j"
  let ?B = "burst_bufs ((f_btx s)[j := []])"
  have own: "wf_pool (f_pool s) (caches_of (f_ports s))" "list_all (\<lambda>p. bc p \<noteq> None) (f_ports s)"
    "free_bufs (f_pool s) (caches_of (f_ports s)) + f_kernel s + burst_bufs (f_btx s) + H = T"
    "size T = pool_cap (f_pool s)"
    using assms(2) by (simp_all add: fwd_own_def)
  then obtain c where c: "bc ?p = Some c"
    using assms(3) by (auto simp: list_all_length)
  note split = caches_of_split [OF assms(3)]
  have wf: "wf_pool (f_pool s) (?xs @ c # ?ys)"
    using own(1) c by (simp add: split(1))
  have B: "burst_bufs (f_btx s) = ?B + mset (map fst ?b)"
    using burst_bufs_update [OF assms(4), of "[]"] by simp
  have T: "T = free_bufs (f_pool s) (?xs @ c # ?ys) + f_kernel s + (?B + mset (map fst ?b)) + H"
    using own(3) c B by (simp add: split(1))
  have "size (free_bufs (f_pool s) (?xs @ c # ?ys)) + size (f_kernel s) + length ?b \<le> pool_cap (f_pool s)"
    using own(4) unfolding T by simp
  from port_tx_burst_ok [OF assms(1) wf c this] obtain comps bp' c' where 1:
    "port_tx_burst r n (f_kernel s) (f_pool s) ?p ?b =
      Some (comps, bp', ?p\<lparr>bc := Some c', n_pkts_tx := n_pkts_tx ?p + of_nat (length ?b)\<rparr>)"
    "wf_pool bp' (?xs @ c' # ?ys)" "pool_cap bp' = pool_cap (f_pool s)"
    "free_bufs bp' (?xs @ c' # ?ys) = free_bufs (f_pool s) (?xs @ c # ?ys) + mset comps"
    "mset comps \<subseteq># f_kernel s + mset (map fst ?b)"
    by blast
  obtain K where K: "f_kernel s + mset (map fst ?b) = mset comps + K"
    using 1(5) by (metis subset_mset.le_iff_add)
  have "T = free_bufs (f_pool s) (?xs @ c # ?ys) + (f_kernel s + mset (map fst ?b)) + ?B + H"
    unfolding T by (simp add: ac_simps)
  also have "\<dots> = free_bufs bp' (?xs @ c' # ?ys) + K + ?B + H"
    unfolding K 1(4) by (simp add: ac_simps)
  finally have "T = free_bufs bp' (?xs @ c' # ?ys) + K + ?B + H" .
  moreover have "f_kernel s + mset (map fst ?b) - mset comps = K"
    unfolding K by simp
  ultimately show ?thesis
    using 1 own(2,4) assms(3,4)
    by (auto simp: tx_part_def fwd_own_def split(2) list_all_length nth_list_update)
qed

definition fwd_inv :: "u64 multiset \<Rightarrow> nat \<Rightarrow> nat \<Rightarrow> fwd \<Rightarrow> bool" where
  "fwd_inv T np nb s \<longleftrightarrow> fwd_own T {#} s \<and> bursts_ok s \<and> length (f_ports s) = np \<and> length (f_btx s) = nb"

lemma fwd_own_push:
  assumes "fwd_own T (mset (map fst (d # ds))) s" "j < length (f_btx s)"
  shows "fwd_own T (mset (map fst ds)) (s\<lparr>f_btx := (f_btx s)[j := f_btx s ! j @ [d]]\<rparr>)"
proof -
  have "burst_bufs ((f_btx s)[j := f_btx s ! j @ [d]]) = burst_bufs (f_btx s) + {#fst d#}"
    using burst_bufs_update [OF assms(2), of "f_btx s ! j @ [d]"] by simp
  then show ?thesis
    using assms(1) by (simp add: fwd_own_def)
qed

lemma process_ok:
  assumes "rings_ok r" "fwd_own T (mset (map fst ds)) s" "bursts_ok s"
    and "q < length (f_ports s)" "j < length (f_btx s)"
  shows "\<exists>s'. process r n q j ds s = Some s'
    \<and> fwd_inv T (length (f_ports s)) (length (f_btx s)) s'"
  using assms(2-5)
proof (induction ds arbitrary: s)
  case Nil
  then show ?case
    by (simp add: fwd_inv_def)
next
  case (Cons d ds)
  let ?s = "s\<lparr>f_btx := (f_btx s)[j := f_btx s ! j @ [d]]\<rparr>"
  have len: "length (f_btx s ! j) < MAX_BURST_TX"
    using Cons.prems by (simp add: bursts_ok_def list_all_length)
  have "fwd_own T (mset (map fst ds)) ?s"
    using Cons.prems(1,4) by (rule fwd_own_push)
  then obtain s1 where 1: "tx_part r n q j ?s = Some s1" "fwd_own T (mset (map fst ds)) s1"
    "f_btx s1 = (f_btx s)[j := []]" "length (f_ports s1) = length (f_ports s)"
    using tx_part_ok [OF assms(1), of T _ ?s q j n] Cons.prems by auto
  have "bursts_ok s1"
    using Cons.prems(2,4) 1(3) by (auto simp: bursts_ok_def list_all_length nth_list_update)
  then obtain s' where "process r n q j ds s1 = Some s'"
    "fwd_inv T (length (f_ports s)) (length (f_btx s)) s'"
    using Cons.IH [of s1] Cons.prems 1 by auto
  then show ?case
    using 1(1) len Cons.prems(4) by simp
qed

lemma thread_iter_ok:
  assumes "rings_ok r" "fwd_inv T np nb s" "i < np" "q < np" "j < nb"
  shows "\<exists>s'. thread_iter r n i q j s = Some s' \<and> fwd_inv T np nb s'"
proof -
  obtain ds s1 where 1: "rx_part r i s = Some (ds, s1)" "fwd_own T (mset (map fst ds)) s1"
    "f_btx s1 = f_btx s" "length (f_ports s1) = length (f_ports s)"
    using rx_part_ok [OF assms(1), of T s i] assms by (auto simp: fwd_inv_def)
  then have "bursts_ok s1"
    using assms(2) by (simp add: fwd_inv_def bursts_ok_def)
  then obtain s' where "process r n q j ds s1 = Some s'" "fwd_inv T np nb s'"
    using process_ok [OF assms(1) 1(2), of q j n] 1 assms by (auto simp: fwd_inv_def)
  then show ?thesis
    using 1(1) by (auto simp: thread_iter_def)
qed

definition slots_ok :: "nat \<Rightarrow> (nat \<times> nat) list \<Rightarrow> bool" where
  "slots_ok np slots \<longleftrightarrow> list_all (\<lambda>(i, q). i < np \<and> q < np) slots"

lemma slots_okD: "\<lbrakk>slots_ok np slots; j < length slots\<rbrakk> \<Longrightarrow> fst (slots ! j) < np \<and> snd (slots ! j) < np"
  by (auto simp: slots_ok_def list_all_length case_prod_beta)

lemma next_port_bound:
  assumes "0 < n" "n \<le> MAX_PORTS_PER_THREAD"
  shows "unat (next_port (of_nat n) i) < n"
proof -
  have "of_nat n - 1 = (of_nat (n - 1) :: u32)"
    using assms(1) by simp
  then have "unat (next_port (of_nat n) i) \<le> unat (of_nat (n - 1) :: u32)"
    unfolding next_port_def by (metis and.commute word_and_le1 word_le_nat_alt)
  also have "\<dots> = n - 1"
    using assms(2) by (simp add: unsigned_of_nat take_bit_nat_eq_self del: of_nat_diff)
  finally show ?thesis
    using assms(1) by simp
qed

lemma thread_func_ok:
  assumes "list_all rings_ok rs" "slots_ok np slots" "0 < length slots" "length slots \<le> MAX_PORTS_PER_THREAD"
    and "fwd_inv T np (length slots) s" "unat i < length slots"
  shows "\<exists>s'. thread_func rs n slots i s = Some s' \<and> fwd_inv T np (length slots) s'"
  using assms(1,5,6)
proof (induction rs arbitrary: i s)
  case (Cons r rs)
  obtain s1 where 1: "thread_iter r n (fst (slots ! unat i)) (snd (slots ! unat i)) (unat i) s = Some s1"
    "fwd_inv T np (length slots) s1"
    using thread_iter_ok [of r T np "length slots" s "fst (slots ! unat i)" "snd (slots ! unat i)" "unat i" n]
      slots_okD [OF assms(2) Cons.prems(3)] Cons.prems by auto
  then show ?case
    using Cons.IH [of s1] Cons.prems next_port_bound [OF assms(3,4)] by auto
qed simp

lemma poll_slots_ok:
  assumes "\<forall>j. rings_ok (r j)" "slots_ok np slots" "set js \<subseteq> {0..<length slots}"
    and "fwd_inv T np (length slots) s"
  shows "\<exists>s'. poll_slots r n slots fds ev i js s = Some s' \<and> fwd_inv T np (length slots) s'"
  using assms(3,4)
proof (induction js arbitrary: s)
  case (Cons j js)
  then have j: "j < length slots"
    by simp
  obtain s1 where 1: "thread_iter (r j) n (fst (slots ! j)) (snd (slots ! j)) j s = Some s1"
    "fwd_inv T np (length slots) s1"
    using thread_iter_ok [of "r j" T np "length slots" s "fst (slots ! j)" "snd (slots ! j)" j n]
      slots_okD [OF assms(2) j] assms(1) Cons.prems j by auto
  then show ?case
    using Cons.IH [of s] Cons.IH [of s1] Cons.prems by auto
qed simp

lemma poll_round_ok:
  assumes "\<forall>i j. rings_ok (r i j)" "slots_ok np slots" "fwd_inv T np (length slots) s"
  shows "\<exists>s'. poll_round r n slots fds ev is s = Some s' \<and> fwd_inv T np (length slots) s'"
  using assms(3)
proof (induction "is" arbitrary: s)
  case (Cons i "is")
  obtain s1 where "poll_slots (r i) n slots fds ev i [0..<length slots] s = Some s1"
    "fwd_inv T np (length slots) s1"
    using poll_slots_ok [of "r i" np slots "[0..<length slots]" T s n fds ev i] assms(1,2) Cons.prems
    by auto
  then show ?case
    using Cons.IH [of s] Cons.IH [of s1] Cons.prems by auto
qed simp

lemma thread_func_poll_ok:
  assumes "\<forall>(r, ev) \<in> set rs. \<forall>i j. rings_ok (r i j)" "slots_ok np slots" "fwd_inv T np (length slots) s"
  shows "\<exists>s'. thread_func_poll rs n slots fds s = Some s' \<and> fwd_inv T np (length slots) s'"
  using assms(1,3)
proof (induction rs arbitrary: s)
  case (Cons a rs)
  obtain r ev where a: "a = (r, ev)"
    by (cases a)
  obtain s1 where "poll_round r n slots fds ev [0..<length slots] s = Some s1" "fwd_inv T np (length slots) s1"
    using poll_round_ok [of r np slots T s n fds ev "[0..<length slots]"] assms(2) Cons.prems a by auto
  then show ?case
    using Cons.IH [of s1] Cons.prems a by auto
qed simp

section \<open>Facts about the set-up\<close>

lemma cons_check_reserved:
  "bcache_cons_check bp c n = Some (m, bp', c') \<Longrightarrow> n_slabs_reserved bp' = n_slabs_reserved bp"
  by (auto simp: bcache_cons_check_def Let_def split: if_splits)

lemma port_init_ok:
  assumes wf: "wf_pool bp cs"
  shows "\<exists>po fill bp' lr'. port_init env fq bp lr = Some (po, fill, bp', lr')
    \<and> (\<forall>p. po = Some p \<longrightarrow> (\<exists>c. bc p = Some c \<and> wf_pool bp' (cs @ [c])
          \<and> free_bufs bp cs = mset fill + free_bufs bp' (cs @ [c]) \<and> length fill = fq
          \<and> pool_cap bp' = pool_cap bp \<and> n_slabs_reserved bp' = n_slabs_reserved bp))"
proof (cases "port_calloc_fails env \<or> bcache_malloc_fails env \<or> n_slabs_reserved_available bp = 0")
  case True
  then show ?thesis
    by (auto simp: port_init_def bcache_init_def port_free_def bcache_free_def)
next
  case False
  then obtain c bp1 where 1: "bcache_init False bp = Some (Some c, bp1)" "wf_pool bp1 (cs @ [c])"
    "free_bufs bp1 (cs @ [c]) = free_bufs bp cs" "pool_cap bp1 = pool_cap bp"
    using bcache_init_step [OF wf] by (auto simp: pool_cap_def)
  have res: "n_slabs_reserved bp1 = n_slabs_reserved bp"
    using 1(1) by (auto simp: bcache_init_def split: if_splits)
  have free: "\<exists>bp'. bcache_free b (Some c') = Some bp'" if "wf_pool b (cs @ [c'])" for b c'
    using bcache_free_step [of b cs c' "[]"] that by auto
  show ?thesis
  proof (cases "bcache_slab_size bp1 < fq")
    case True
    then show ?thesis
      using False 1(1) free [OF 1(2)] by (auto simp: port_init_def port_free_def)
  next
    case slab: False
    obtain n bp2 c2 where 2: "bcache_cons_check bp1 c fq = Some (n, bp2, c2)" "wf_pool bp2 (cs @ [c2])"
      "free_bufs bp2 (cs @ [c2]) = free_bufs bp1 (cs @ [c])" "n \<le> n_buffers_cons c2"
      "pool_cap bp2 = pool_cap bp1"
      using cons_check_step [of bp1 cs c "[]" fq] 1(2) slab by (auto simp: pool_cap_def bcache_slab_size_def)
    show ?thesis
    proof (cases "n < fq")
      case True
      then show ?thesis
        using False 1(1) 2(1) slab free [OF 2(2)] by (auto simp: port_init_def port_free_def)
    next
      case fq: False
      obtain bs c3 where 3: "get_all cache_get (bp2, c2) fq = Some (bs, (bp2, c3))" "length bs = fq"
        "wf_pool bp2 (cs @ [c3])" "free_bufs bp2 (cs @ [c2]) = mset bs + free_bufs bp2 (cs @ [c3])"
        using cache_get_all [of bp2 cs c2 "[]" fq] 2 fq by auto
      show ?thesis
        using False 1 2 3 slab fq res cons_check_reserved [OF 2(1)] free [OF 2(2)]
        by (auto simp: port_init_def port_free_def)
    qed
  qed
qed

lemma caches_of_snoc [simp]: "caches_of (ps @ [p]) = caches_of ps @ [the (bc p)]"
  by (simp add: caches_of_def)

lemma init_ports_ok:
  assumes "wf_pool bp (caches_of ps)" "list_all (\<lambda>p. bc p \<noteq> None) ps"
    and "free_bufs bp (caches_of ps) + K = T"
  shows "\<exists>res bp'. init_ports es fq bp lr ps K = Some (res, bp')
    \<and> (\<forall>ps' K'. res = Some (ps', K') \<longrightarrow>
          wf_pool bp' (caches_of ps') \<and> list_all (\<lambda>p. bc p \<noteq> None) ps'
        \<and> free_bufs bp' (caches_of ps') + K' = T \<and> length ps' = length ps + length es
        \<and> pool_cap bp' = pool_cap bp \<and> n_slabs_reserved bp' = n_slabs_reserved bp)"
  using assms
proof (induction es arbitrary: bp lr ps K)
  case (Cons e es)
  obtain po fill bp1 lr1 where 1: "port_init e fq bp lr = Some (po, fill, bp1, lr1)"
    and 2: "\<forall>p. po = Some p \<longrightarrow> (\<exists>c. bc p = Some c \<and> wf_pool bp1 (caches_of ps @ [c])
          \<and> free_bufs bp (caches_of ps) = mset fill + free_bufs bp1 (caches_of ps @ [c]) \<and> length fill = fq
          \<and> pool_cap bp1 = pool_cap bp \<and> n_slabs_reserved bp1 = n_slabs_reserved bp)"
    using port_init_ok [OF Cons.prems(1), of e fq lr] by blast
  show ?case
  proof (cases po)
    case None
    with 1 show ?thesis
      by simp
  next
    case (Some p)
    then obtain c where c: "bc p = Some c" "wf_pool bp1 (caches_of ps @ [c])"
      "free_bufs bp (caches_of ps) = mset fill + free_bufs bp1 (caches_of ps @ [c])"
      "pool_cap bp1 = pool_cap bp" "n_slabs_reserved bp1 = n_slabs_reserved bp"
      using 2 by auto
    then have "free_bufs bp1 (caches_of (ps @ [p])) + (K + mset fill) = T"
      using Cons.prems(3) by (simp add: ac_simps)
    then show ?thesis
      using Cons.IH [of bp1 "ps @ [p]" "K + mset fill" lr1] Cons.prems c 1 Some by auto
  qed
qed auto

lemma burst_bufs_replicate [simp]: "burst_bufs (replicate n []) = {#}"
  by (induction n) (auto simp: burst_bufs_def)

lemma unat_double_16: "n \<le> 16 \<Longrightarrow> unat (n * 2 :: u32) = 2 * unat n"
  by (simp add: unat_word_ariths word_le_nat_alt)

lemma main_setup_ok:
  assumes "p_n_users_max ps \<le> 16" "p_n_buffers_per_slab ps \<noteq> 0" "0 < n_threads"
  shows "\<exists>res. main_setup env ps fq penvs n_threads = Some res
    \<and> (\<forall>s slots. res = Some (s, slots) \<longrightarrow>
          fwd_inv (mset (map (buffer_addr ps) [0..<total_buffers ps])) (length penvs) (length penvs) s
        \<and> length penvs \<le> unat (p_n_users_max ps)
        \<and> slots = map (\<lambda>i. the (thread_slots (length penvs div n_threads) i)) [0..<n_threads])"
proof (cases "bpool_init env ps")
  case None
  then show ?thesis
    using assms(2) by (auto simp: bpool_init_def Let_def split: if_splits)
next
  case (Some bo)
  show ?thesis
  proof (cases bo)
    case None
    with Some show ?thesis
      by (simp add: main_setup_def)
  next
    case bo: (Some bp)
    let ?T = "mset (map (buffer_addr ps) [0..<total_buffers ps])"
    have init: "bpool_init env ps = Some (Some bp)"
      using Some bo by simp
    have inv: "wf_pool bp []" "free_bufs bp [] = ?T" "pool_cap bp = total_buffers ps"
      using xsk_inv_init [OF init] by (simp_all add: xsk_inv_def xsk_init_def)
    have nr: "n_slabs_reserved bp = 2 * unat (p_n_users_max ps)"
      using init unat_double_16 [OF assms(1)]
      by (auto simp: bpool_init_def Let_def split: if_splits)
    obtain r bp' where 1: "init_ports penvs fq bp 0 [] {#} = Some (r, bp')"
      and 2: "\<forall>ps' K'. r = Some (ps', K') \<longrightarrow> wf_pool bp' (caches_of ps')
        \<and> list_all (\<lambda>p. bc p \<noteq> None) ps' \<and> free_bufs bp' (caches_of ps') + K' = ?T
        \<and> length ps' = length penvs \<and> pool_cap bp' = pool_cap bp \<and> n_slabs_reserved bp' = n_slabs_reserved bp"
      using init_ports_ok [of bp "[]" "{#}" ?T penvs fq 0] inv by (auto simp: caches_of_def)
    show ?thesis
    proof (cases r)
      case None
      with init 1 show ?thesis
        by (simp add: main_setup_def)
    next
      case r: (Some x)
      then obtain ports K where x: "r = Some (ports, K)"
        by (cases x) auto
      note p = 2 [rule_format, OF x]
      have "2 * length ports \<le> n_slabs_reserved bp'"
        using wf_pool_reserved [of bp' "caches_of ports"] p by (simp add: caches_of_def)
      then have le: "length penvs \<le> unat (p_n_users_max ps)"
        using p nr by simp
      moreover have "unat (p_n_users_max ps) \<le> 16"
        using assms(1) by (simp add: word_le_nat_alt)
      ultimately have "length penvs div n_threads \<le> 16"
        by (meson div_le_dividend le_trans)
      then have "None \<notin> set (map (thread_slots (length penvs div n_threads)) [0..<n_threads])"
        by (auto simp: thread_slots_def)
      then show ?thesis
        using init 1 x p inv le
        by (auto simp: main_setup_def fwd_inv_def fwd_own_def bursts_ok_def list_all_length)
    qed
  qed
qed

lemma thread_slots_0:
  assumes "thread_slots n 0 = Some slots"
  shows "slots_ok n slots \<and> length slots = n \<and> n \<le> MAX_PORTS_PER_THREAD"
  using assms by (auto simp: thread_slots_def slots_ok_def list_all_length split: if_splits)

lemma rotate_upt: "mset (map (\<lambda>j. Suc j mod n) [0..<n]) = mset [0..<n]"
proof (cases n)
  case (Suc m)
  have "map (\<lambda>j. Suc j mod n) [0..<n] = map Suc [0..<m] @ [0]"
    by (simp add: Suc)
  also have "map Suc [0..<m] = [Suc 0..<n]"
    by (simp add: map_Suc_upt Suc)
  finally show ?thesis
    by (simp add: Suc upt_conv_Cons del: upt_Suc)
qed simp

lemma thread_slots_partition:
  assumes "per \<le> MAX_PORTS_PER_THREAD"
  shows "map fst (concat (map (\<lambda>i. the (thread_slots per i)) [0..<nt])) = [0..<nt * per]
    \<and> mset (map snd (concat (map (\<lambda>i. the (thread_slots per i)) [0..<nt]))) = mset [0..<nt * per]"
proof -
  have "mset (map (\<lambda>j. i * per + Suc j mod per) [0..<per]) = mset (map (\<lambda>j. i * per + j) [0..<per])" for i
    using arg_cong [where f = "image_mset (\<lambda>x. i * per + x)", OF rotate_upt [of per]]
    by (simp add: image_mset.compositionality comp_def)
  then have "mset (map snd (concat (map (\<lambda>i. the (thread_slots per i)) [0..<nt]))) =
      mset (concat (map (\<lambda>i. map (\<lambda>j. i * per + j) [0..<per]) [0..<nt]))"
    using assms by (simp add: thread_slots_def map_concat comp_def mset_concat)
  moreover have "map fst (concat (map (\<lambda>i. the (thread_slots per i)) [0..<nt])) =
      concat (map (\<lambda>i. map (\<lambda>j. i * per + j) [0..<per]) [0..<nt])"
    using assms by (simp add: thread_slots_def map_concat comp_def)
  ultimately show ?thesis
    using concat_blocks [of "\<lambda>x. x" per nt] by simp
qed

lemma parse_opts_spec:
  assumes "parse_opts os g = Some g'" "length (cfg_cores g) \<le> MAX_THREADS" "length (cfg_ports g) \<le> MAX_PORTS"
  shows "cfg_n_buffers g' = cfg_n_buffers g \<and> length (cfg_cores g') \<le> MAX_THREADS
    \<and> length (cfg_ports g') \<le> MAX_PORTS \<and> list_all (\<lambda>(c, _). c \<in> set ''ciq'') os
    \<and> cfg_cores g' = cfg_cores g @ [of_int (atoi a). (c, a) \<leftarrow> os, c = CHR ''c'']
    \<and> map fst (cfg_ports g') = map fst (cfg_ports g) @ [a. (c, a) \<leftarrow> os, c = CHR ''i'']"
  using assms
proof (induction os g rule: parse_opts.induct)
  case (2 c a os g)
  have upd: "map fst (ps[length ps - 1 := (fst (last ps), x)]) = map fst ps" if "ps \<noteq> []"
    for ps :: "(string \<times> u32) list" and x
    using that by (simp add: map_update last_conv_nth) (metis diff_Suc_less length_greater_0_conv list_update_id nth_map)
  consider "c = CHR ''c''" | "c = CHR ''i''" | "c = CHR ''q''" | "c \<notin> set ''ciq''"
    by auto
  then show ?case
    by cases (use 2 upd in \<open>auto simp: getopt_char_def Let_def split: if_splits\<close>)
qed simp

text \<open>A set-up with one port, and rings through which one buffer comes back each time.\<close>

definition demo_rings :: rings where
  "demo_rings = \<lparr>
     rxq_peek = (\<lambda>K n. if 0 < n \<and> 6144 \<in># K then [(6144, 60)] else []),
     fq_reserve = (\<lambda>k n. if k = 0 then 0 else n),
     txq_reserve = (\<lambda>k n. if k = 0 then 0 else n),
     cq_peek = (\<lambda>K n. if 0 < n \<and> 6144 \<in># K then [6144] else [])\<rparr>"

definition demo_penv :: port_env where
  "demo_penv = \<lparr>port_calloc_fails = False, bcache_malloc_fails = False, xsk_create_fails = False,
     xskmap_fails = (\<lambda>_. False)\<rparr>"

definition demo_fwd :: fwd where
  "demo_fwd = \<lparr>f_pool = demo_pool\<lparr>slabs := [0, 3], n_slabs_available := 1, n_slabs_reserved_available := 0\<rparr>,
     f_ports = [\<lparr>bc = Some \<lparr>slab_cons = 1, slab_prod = 2, n_buffers_cons = 1, n_buffers_prod = 0\<rparr>,
       umem_fq_initialized = True, n_pkts_rx = 0, n_pkts_tx = 0\<rparr>],
     f_btx = [[]], f_kernel = {#6144#}\<rparr>"

lemma demo_rings_ok: "rings_ok demo_rings"
  unfolding rings_ok_def
proof (intro conjI allI)
  show "\<exists>k. fq_reserve demo_rings k n = n" "\<exists>k. txq_reserve demo_rings k n = n" for n
    by (rule exI [of _ 1]; simp add: demo_rings_def)+
qed (auto simp: demo_rings_def)

lemma demo_port_init: "port_init demo_penv 1 demo_pool 0 =
    Some (Some (f_ports demo_fwd ! 0), [6144], f_pool demo_fwd, 1)"
  by code_simp

lemma demo_main_setup: "main_setup demo_env demo_params 1 [demo_penv] 1 = Some (Some (demo_fwd, [[(0, 0)]]))"
  using demo_port_init
  by (simp add: main_setup_def demo_pool_init thread_slots_def) (simp add: demo_fwd_def)

section \<open>Properties\<close>



text \<open>
  C16.  The busy-polling thread advances by \<^verbatim>\<open>(i + 1) & (n_ports_rx - 1)\<close>.  For the port counts
  a thread can have, it serves all its ports if and only if their number is a power of two.
\<close>

theorem thread_func_serves_all_iff:
  assumes "0 < n" "n \<le> MAX_PORTS_PER_THREAD"
  shows "(\<forall>j<n. \<exists>m<n. (next_port (of_nat n) ^^ m) 0 = of_nat j) \<longleftrightarrow> n \<in> {1, 2, 4, 8, 16}"
proof -
  have "\<forall>n\<in>set [1..<17]. list_all (\<lambda>j. list_ex (\<lambda>m. (next_port (of_nat n) ^^ m) 0 = of_nat j) [0..<n]) [0..<n]
      \<longleftrightarrow> n \<in> {1, 2, 4, 8, 16}"
    by code_simp
  moreover have "n \<in> set [1..<17]"
    using assms by simp
  ultimately show ?thesis
    by (simp add: list_all_iff list_ex_iff atLeast0LessThan lessThan_def Ball_def Bex_def)
qed

theorem thread_func_serves_all_iff_witness:
  "\<not> (\<forall>j<3. \<exists>m<3. (next_port (of_nat 3) ^^ m) 0 = of_nat j)"
  using thread_func_serves_all_iff [of 3] by simp



text \<open>
  \<^verbatim>\<open>parse_args\<close> accepts exactly lists of the options \<^verbatim>\<open>-c\<close>, \<^verbatim>\<open>-i\<close> and \<^verbatim>\<open>-q\<close>: when it succeeds,
  cores and interfaces are the given ones in their order, there is at least one of each and at
  most 64, the ports divide evenly, and the number of buffers is the one it started from,
  since \<^verbatim>\<open>-b\<close> is refused.
\<close>

theorem parse_args_accepts:
  assumes "parse_args os \<lparr>cfg_n_buffers = nb, cfg_cores = [], cfg_ports = []\<rparr> = Some g"
  shows "cfg_n_buffers g = nb
    \<and> list_all (\<lambda>(c, _). c \<in> set ''ciq'') os
    \<and> cfg_cores g = [of_int (atoi a). (c, a) \<leftarrow> os, c = CHR ''c'']
    \<and> map fst (cfg_ports g) = [a. (c, a) \<leftarrow> os, c = CHR ''i'']
    \<and> length (cfg_cores g) \<in> {1..MAX_THREADS} \<and> length (cfg_ports g) \<in> {1..MAX_PORTS}
    \<and> length (cfg_cores g) dvd length (cfg_ports g)"
proof -
  have p: "parse_opts os \<lparr>cfg_n_buffers = nb, cfg_cores = [], cfg_ports = []\<rparr> = Some g"
    and g: "cfg_ports g \<noteq> []" "cfg_cores g \<noteq> []" "length (cfg_ports g) mod length (cfg_cores g) = 0"
    using assms by (auto simp: parse_args_def split: option.splits if_splits)
  then show ?thesis
    using parse_opts_spec [OF p] by (auto simp: Suc_le_eq)
qed

theorem parse_args_accepts_witness:
  "\<exists>g. parse_args [(CHR ''i'', ''eth0''), (CHR ''c'', ''3'')] \<lparr>cfg_n_buffers = 8, cfg_cores = [], cfg_ports = []\<rparr> = Some g
    \<and> length (cfg_cores g) \<in> {1..MAX_THREADS} \<and> cfg_n_buffers g = 8"
proof -
  have 1: "parse_args [(CHR ''i'', ''eth0''), (CHR ''c'', ''3'')] \<lparr>cfg_n_buffers = 8, cfg_cores = [], cfg_ports = []\<rparr> =
      Some \<lparr>cfg_n_buffers = 8, cfg_cores = [3], cfg_ports = [(''eth0'', 0)]\<rparr>"
    by code_simp
  then show ?thesis
    using parse_args_accepts [OF 1] by blast
qed

end
