(* ===== verification/Dummeth.thy ===== *)
theory Dummeth
  imports HackPrelude "HOL-Library.Multiset"
begin

text \<open>
  The virtual Ethernet pair \<^verbatim>\<open>dummeth\<close> of \<^verbatim>\<open>keth-if/kernel/core.c\<close>: two network devices that loop
  every transmitted frame back to the other one, with a pool of packet buffers per device.

  Packet buffers live in a memory from addresses to buffers and are chained by their \<^verbatim>\<open>next\<close>
  pointers, as in the source.  The two devices are numbered 0 and 1.  \<^term>\<open>None\<close> stands for what
  the kernel would not survive: a dereferenced dangling or null pointer, an access outside
  a buffer, a second free, or a spin lock that is taken while it is held.
  The device's queue state, the NAPI state, the frames handed to the network stack and the
  socket buffers the driver owns are part of the state; printing is left out.
\<close>

section \<open>Data\<close>

abbreviation DUMMETH_RX_INTR :: u32 where "DUMMETH_RX_INTR \<equiv> 1"
abbreviation DUMMETH_TX_INTR :: u32 where "DUMMETH_TX_INTR \<equiv> 2"
abbreviation ETH_DATA_LEN :: nat where "ETH_DATA_LEN \<equiv> 1500"
abbreviation ETH_ZLEN :: nat where "ETH_ZLEN \<equiv> 60"
abbreviation ETH_HLEN :: nat where "ETH_HLEN \<equiv> 14"

record dummeth_packet =
  nxt :: "nat option"
  pdev :: nat
  datalen :: nat
  data :: "u8 list"

record dummeth_priv =
  rx_packets :: u64
  rx_bytes :: u64
  rx_dropped :: u64
  tx_packets :: u64
  tx_bytes :: u64
  tx_errors :: u64
  status :: u32
  ppool :: "nat option"
  rx_queue :: "nat option"
  rx_int_enabled :: bool
  tx_packetlen :: nat
  skb :: "nat option"
  locked :: bool
  queue_stopped :: bool
  napi_scheduled :: bool
  napi_enabled :: bool
  dev_addr :: "u8 list"
  mtu :: int

record dummeth =
  use_napi :: bool
  lockup :: u64
  pool_size :: int
  mem :: "nat \<Rightarrow> dummeth_packet option"
  fresh :: nat
  devs :: "nat \<Rightarrow> dummeth_priv"
  skbs :: "nat list"
  delivered :: "(nat \<times> u8 list) list"

definition upd_dev :: "nat \<Rightarrow> (dummeth_priv \<Rightarrow> dummeth_priv) \<Rightarrow> dummeth \<Rightarrow> dummeth" where
  "upd_dev d f s = s\<lparr>devs := (devs s)(d := f (devs s d))\<rparr>"

definition upd_pkt :: "nat \<Rightarrow> (dummeth_packet \<Rightarrow> dummeth_packet) \<Rightarrow> dummeth \<Rightarrow> dummeth option" where
  "upd_pkt i f s = (case mem s i of None \<Rightarrow> None | Some p \<Rightarrow> Some (s\<lparr>mem := (mem s)(i \<mapsto> f p)\<rparr>))"

definition spin_lock :: "nat \<Rightarrow> dummeth \<Rightarrow> dummeth option" where
  "spin_lock d s = (if locked (devs s d) then None else Some (upd_dev d (\<lambda>v. v\<lparr>locked := True\<rparr>) s))"

definition spin_unlock :: "nat \<Rightarrow> dummeth \<Rightarrow> dummeth" where
  "spin_unlock d s = upd_dev d (\<lambda>v. v\<lparr>locked := False\<rparr>) s"

section \<open>The pool and the receive queue\<close>

text \<open>The parameter \<^term>\<open>kmalloc\<close> gives the outcome of each allocation of the loop: a block with
  arbitrary contents, or \<^term>\<open>None\<close>.\<close>

fun setup_loop :: "(nat \<Rightarrow> dummeth_packet option) \<Rightarrow> nat \<Rightarrow> nat \<Rightarrow> dummeth \<Rightarrow> dummeth" where
  "setup_loop kmalloc 0 d s = s"
| "setup_loop kmalloc (Suc n) d s =
     (case kmalloc (fresh s) of
        None \<Rightarrow> s
      | Some p \<Rightarrow>
          let i = fresh s;
              s = s\<lparr>mem := (mem s)(i \<mapsto> p\<lparr>pdev := d, nxt := ppool (devs s d)\<rparr>), fresh := i + 1\<rparr> in
          setup_loop kmalloc n d (upd_dev d (\<lambda>v. v\<lparr>ppool := Some i\<rparr>) s))"

definition dummeth_setup_pool :: "(nat \<Rightarrow> dummeth_packet option) \<Rightarrow> nat \<Rightarrow> dummeth \<Rightarrow> dummeth" where
  "dummeth_setup_pool kmalloc d s =
     setup_loop kmalloc (nat (pool_size s)) d (upd_dev d (\<lambda>v. v\<lparr>ppool := None\<rparr>) s)"

partial_function (option) dummeth_teardown_pool :: "nat \<Rightarrow> dummeth \<Rightarrow> dummeth option" where
  "dummeth_teardown_pool d s =
     (case ppool (devs s d) of
        None \<Rightarrow> Some s
      | Some i \<Rightarrow>
          (case mem s i of
             None \<Rightarrow> None
           | Some p \<Rightarrow>
               dummeth_teardown_pool d
                 ((upd_dev d (\<lambda>v. v\<lparr>ppool := nxt p\<rparr>) s)\<lparr>mem := (mem s)(i := None)\<rparr>)))"

definition dummeth_get_tx_buffer :: "nat \<Rightarrow> dummeth \<Rightarrow> (nat option \<times> dummeth) option" where
  "dummeth_get_tx_buffer d s =
     do {
       s \<leftarrow> spin_lock d s;
       case ppool (devs s d) of
         None \<Rightarrow> Some (None, s)
       | Some i \<Rightarrow>
           do {
             p \<leftarrow> mem s i;
             let s = upd_dev d (\<lambda>v. v\<lparr>ppool := nxt p\<rparr>) s;
             let s = (if nxt p = None then upd_dev d (\<lambda>v. v\<lparr>queue_stopped := True\<rparr>) s else s);
             Some (Some i, spin_unlock d s)
           }
     }"

definition dummeth_release_buffer :: "nat \<Rightarrow> dummeth \<Rightarrow> dummeth option" where
  "dummeth_release_buffer i s =
     do {
       p \<leftarrow> mem s i;
       let d = pdev p;
       s \<leftarrow> spin_lock d s;
       let n = ppool (devs s d);
       s \<leftarrow> upd_pkt i (\<lambda>p. p\<lparr>nxt := n\<rparr>) s;
       let s = spin_unlock d (upd_dev d (\<lambda>v. v\<lparr>ppool := Some i\<rparr>) s);
       Some (if queue_stopped (devs s d) \<and> n = None then upd_dev d (\<lambda>v. v\<lparr>queue_stopped := False\<rparr>) s else s)
     }"

definition dummeth_enqueue_buf :: "nat \<Rightarrow> nat \<Rightarrow> dummeth \<Rightarrow> dummeth option" where
  "dummeth_enqueue_buf d i s =
     do {
       s \<leftarrow> spin_lock d s;
       let q = rx_queue (devs s d);
       s \<leftarrow> upd_pkt i (\<lambda>p. p\<lparr>nxt := q\<rparr>) s;
       Some (spin_unlock d (upd_dev d (\<lambda>v. v\<lparr>rx_queue := Some i\<rparr>) s))
     }"

definition dummeth_dequeue_buf :: "nat \<Rightarrow> dummeth \<Rightarrow> (nat option \<times> dummeth) option" where
  "dummeth_dequeue_buf d s =
     do {
       s \<leftarrow> spin_lock d s;
       case rx_queue (devs s d) of
         None \<Rightarrow> Some (None, spin_unlock d s)
       | Some i \<Rightarrow>
           do {
             p \<leftarrow> mem s i;
             Some (Some i, spin_unlock d (upd_dev d (\<lambda>v. v\<lparr>rx_queue := nxt p\<rparr>) s))
           }
     }"

definition dummeth_rx_ints :: "nat \<Rightarrow> bool \<Rightarrow> dummeth \<Rightarrow> dummeth" where
  "dummeth_rx_ints d en s = upd_dev d (\<lambda>v. v\<lparr>rx_int_enabled := en\<rparr>) s"

section \<open>Receiving\<close>

text \<open>\<^verbatim>\<open>dummeth_rx\<close>; the argument \<^term>\<open>ok\<close> is whether \<^verbatim>\<open>dev_alloc_skb\<close> succeeds.  The copy reads
  \<^verbatim>\<open>datalen\<close> bytes of the buffer.\<close>

definition dummeth_rx :: "bool \<Rightarrow> nat \<Rightarrow> nat \<Rightarrow> dummeth \<Rightarrow> dummeth option" where
  "dummeth_rx ok d i s =
     do {
       p \<leftarrow> mem s i;
       if \<not> ok then Some (upd_dev d (\<lambda>v. v\<lparr>rx_dropped := rx_dropped v + 1\<rparr>) s)
       else if length (data p) < datalen p then None
       else
         Some ((upd_dev d (\<lambda>v. v\<lparr>rx_packets := rx_packets v + 1,
                                rx_bytes := rx_bytes v + of_nat (datalen p)\<rparr>) s)
           \<lparr>delivered := delivered s @ [(d, take (datalen p) (data p))]\<rparr>)
     }"

text \<open>The loop of \<^verbatim>\<open>dummeth_poll\<close>, on the number of packets still allowed by the budget; \<^term>\<open>ok\<close>
  tells for each packet whether its socket buffer can be allocated.  Its body does to the
  statistics and the delivered frames what \<^term>\<open>dummeth_rx\<close> does.\<close>

fun poll_loop :: "(nat \<Rightarrow> bool) \<Rightarrow> nat \<Rightarrow> nat \<Rightarrow> nat \<Rightarrow> dummeth \<Rightarrow> (nat \<times> dummeth) option" where
  "poll_loop ok 0 npackets d s = Some (npackets, s)"
| "poll_loop ok (Suc left) npackets d s =
     (if rx_queue (devs s d) = None then Some (npackets, s)
      else
        do {
          (pkt, s) \<leftarrow> dummeth_dequeue_buf d s;
          i \<leftarrow> pkt;
          s \<leftarrow> dummeth_rx (ok npackets) d i s;
          s \<leftarrow> dummeth_release_buffer i s;
          poll_loop ok left (npackets + 1) d s
        })"

definition dummeth_poll :: "(nat \<Rightarrow> bool) \<Rightarrow> bool \<Rightarrow> int \<Rightarrow> nat \<Rightarrow> dummeth \<Rightarrow> (nat \<times> dummeth) option" where
  "dummeth_poll ok complete budget d s =
     do {
       (npackets, s) \<leftarrow> poll_loop ok (nat budget) 0 d s;
       if int npackets < budget then
         do {
           s \<leftarrow> spin_lock d s;
           let s = (if complete then dummeth_rx_ints d True (upd_dev d (\<lambda>v. v\<lparr>napi_scheduled := False\<rparr>) s) else s);
           Some (npackets, spin_unlock d s)
         }
       else Some (npackets, s)
     }"

section \<open>Interrupts\<close>

text \<open>\<^verbatim>\<open>dev_kfree_skb\<close>: a null pointer is ignored, a buffer that is not owned any more is a
  second free.\<close>

definition dev_kfree_skb :: "nat option \<Rightarrow> dummeth \<Rightarrow> dummeth option" where
  "dev_kfree_skb k s =
     (case k of
        None \<Rightarrow> Some s
      | Some k \<Rightarrow> if k \<in> set (skbs s) then Some (s\<lparr>skbs := remove1 k (skbs s)\<rparr>) else None)"

definition tx_done :: "nat \<Rightarrow> dummeth \<Rightarrow> dummeth" where
  "tx_done d s = upd_dev d (\<lambda>v. v\<lparr>tx_packets := tx_packets v + 1,
     tx_bytes := tx_bytes v + of_nat (tx_packetlen v)\<rparr>) s"

definition dummeth_regular_interrupt :: "bool \<Rightarrow> nat \<Rightarrow> dummeth \<Rightarrow> dummeth option" where
  "dummeth_regular_interrupt ok d s =
     do {
       s \<leftarrow> spin_lock d s;
       let statusword = status (devs s d);
       let s = upd_dev d (\<lambda>v. v\<lparr>status := 0\<rparr>) s;
       (pkt, s) \<leftarrow>
         (if statusword AND DUMMETH_RX_INTR \<noteq> 0 then
            (case rx_queue (devs s d) of
               None \<Rightarrow> Some (None, s)
             | Some i \<Rightarrow>
                 do {
                   p \<leftarrow> mem s i;
                   s \<leftarrow> dummeth_rx ok d i (upd_dev d (\<lambda>v. v\<lparr>rx_queue := nxt p\<rparr>) s);
                   Some (Some i, s)
                 })
          else Some (None, s));
       s \<leftarrow> (if statusword AND DUMMETH_TX_INTR \<noteq> 0 then dev_kfree_skb (skb (devs s d)) (tx_done d s)
             else Some s);
       let s = spin_unlock d s;
       (case pkt of None \<Rightarrow> Some s | Some i \<Rightarrow> dummeth_release_buffer i s)
     }"

definition dummeth_napi_interrupt :: "nat \<Rightarrow> dummeth \<Rightarrow> dummeth option" where
  "dummeth_napi_interrupt d s =
     do {
       s \<leftarrow> spin_lock d s;
       let statusword = status (devs s d);
       let s = upd_dev d (\<lambda>v. v\<lparr>status := 0\<rparr>) s;
       let s = (if statusword AND DUMMETH_RX_INTR \<noteq> 0
                then upd_dev d (\<lambda>v. v\<lparr>napi_scheduled := True\<rparr>) (dummeth_rx_ints d False s) else s);
       s \<leftarrow> (if statusword AND DUMMETH_TX_INTR \<noteq> 0 then
               do {
                 s \<leftarrow> dev_kfree_skb (skb (devs s d)) (tx_done d s);
                 Some (upd_dev d (\<lambda>v. v\<lparr>skb := None\<rparr>) s)
               }
             else Some s);
       Some (spin_unlock d s)
     }"

definition dummeth_interrupt :: "bool \<Rightarrow> nat \<Rightarrow> dummeth \<Rightarrow> dummeth option" where
  "dummeth_interrupt ok d s =
     (if use_napi s then dummeth_napi_interrupt d s else dummeth_regular_interrupt ok d s)"

section \<open>Transmitting\<close>

text \<open>
  The rewriting of the frame in \<^verbatim>\<open>dummeth_hw_tx\<close>: the third byte of both addresses is flipped and
  the IP checksum rebuilt by the kernel's \<^verbatim>\<open>ip_fast_csum\<close>, a parameter that gets the
  header's words and yields the checksum field as it lies in memory.
\<close>

definition rewrite_frame :: "(u8 list \<Rightarrow> u16) \<Rightarrow> u8 list \<Rightarrow> u8 list option" where
  "rewrite_frame ip_fast_csum buf =
     (let buf = buf[28 := buf ! 28 XOR 1, 32 := buf ! 32 XOR 1, 24 := 0, 25 := 0];
          n = 4 * unat (buf ! 14 AND 0x0F) in
      if length buf < 14 + n then None
      else
        let c = ip_fast_csum (take n (drop 14 buf)) in
        Some (buf[24 := lo8 c, 25 := hi8 c]))"

text \<open>The receive interrupt on the twin device, then the end of the transmission.\<close>

definition hw_tx_notify :: "bool \<Rightarrow> nat \<Rightarrow> nat \<Rightarrow> nat \<Rightarrow> dummeth \<Rightarrow> dummeth option" where
  "hw_tx_notify ok len d dest s =
     do {
       s \<leftarrow> (if rx_int_enabled (devs s dest)
             then dummeth_interrupt ok dest
               (upd_dev dest (\<lambda>v. v\<lparr>status := status v OR DUMMETH_RX_INTR\<rparr>) s)
             else Some s);
       let s = upd_dev d (\<lambda>v. v\<lparr>tx_packetlen := len, status := status v OR DUMMETH_TX_INTR\<rparr>) s;
       if lockup s \<noteq> 0 \<and> (tx_packets (devs s d) + 1) mod lockup s = 0
       then Some (upd_dev d (\<lambda>v. v\<lparr>queue_stopped := True\<rparr>) s)
       else dummeth_interrupt ok d s
     }"

definition dummeth_hw_tx :: "(u8 list \<Rightarrow> u16) \<Rightarrow> bool \<Rightarrow> u8 list \<Rightarrow> nat \<Rightarrow> dummeth \<Rightarrow> dummeth option" where
  "dummeth_hw_tx ip_fast_csum ok buf d s =
     (if length buf < 34 then Some s
      else
        do {
          buf \<leftarrow> rewrite_frame ip_fast_csum buf;
          let dest = (if d = 0 then 1 else 0);
          (b, s) \<leftarrow> dummeth_get_tx_buffer d s;
          case b of
            None \<Rightarrow> Some s
          | Some i \<Rightarrow>
              if ETH_DATA_LEN < length buf then None
              else
                do {
                  s \<leftarrow> upd_pkt i (\<lambda>p. p\<lparr>datalen := length buf, data := buf @ drop (length buf) (data p)\<rparr>) s;
                  s \<leftarrow> dummeth_enqueue_buf dest i s;
                  hw_tx_notify ok (length buf) d dest s
                }
        })"

text \<open>\<^verbatim>\<open>dummeth_xmit\<close> takes over the socket buffer \<^term>\<open>k\<close> with the given bytes; a short frame is
  padded with zeros.\<close>

definition dummeth_xmit :: "(u8 list \<Rightarrow> u16) \<Rightarrow> bool \<Rightarrow> nat \<Rightarrow> u8 list \<Rightarrow> nat \<Rightarrow> dummeth \<Rightarrow> dummeth option" where
  "dummeth_xmit ip_fast_csum ok k bytes d s =
     (let buf = (if length bytes < ETH_ZLEN then bytes @ replicate (ETH_ZLEN - length bytes) 0 else bytes) in
      dummeth_hw_tx ip_fast_csum ok buf d
        (upd_dev d (\<lambda>v. v\<lparr>skb := Some k\<rparr>) (s\<lparr>skbs := skbs s @ [k]\<rparr>)))"

section \<open>Headers and configuration\<close>

definition flip_last :: "u8 list \<Rightarrow> u8 list" where
  "flip_last eth = eth[5 := eth ! 5 XOR 1]"

text \<open>\<^verbatim>\<open>dummeth_rebuild_header\<close> on the bytes of the frame, \<^verbatim>\<open>dummeth_header\<close> on the bytes behind the
  header space of the socket buffer.  The address length is that of Ethernet.\<close>

definition dummeth_rebuild_header :: "u8 list \<Rightarrow> u8 list \<Rightarrow> u8 list option" where
  "dummeth_rebuild_header addr buf =
     do {
       buf \<leftarrow> store_bytes buf 6 (take 6 addr);
       buf \<leftarrow> store_bytes buf 0 (take 6 addr);
       Some (flip_last buf)
     }"

definition dummeth_header ::
  "dummeth_priv \<Rightarrow> u16 \<Rightarrow> u8 list option \<Rightarrow> u8 list option \<Rightarrow> nat \<Rightarrow> u8 list \<Rightarrow> (nat \<times> u8 list) option" where
  "dummeth_header v type daddr saddr headroom payload =
     (if headroom < ETH_HLEN then None
      else
        let dst = (case daddr of Some a \<Rightarrow> a | None \<Rightarrow> dev_addr v);
            src = (case saddr of Some a \<Rightarrow> a | None \<Rightarrow> dev_addr v);
            proto = swap16 type in
        Some (ETH_HLEN, flip_last (take 6 dst @ take 6 src @ [lo8 proto, hi8 proto] @ payload)))"

definition dummeth_change_mtu :: "nat \<Rightarrow> int \<Rightarrow> dummeth \<Rightarrow> (int \<times> dummeth) option" where
  "dummeth_change_mtu d new_mtu s =
     (if new_mtu < 68 \<or> 1500 < new_mtu then Some (-22, s)
      else
        do {
          s \<leftarrow> spin_lock d s;
          Some (0, spin_unlock d (upd_dev d (\<lambda>v. v\<lparr>mtu := new_mtu\<rparr>) s))
        })"

definition dummeth_open :: "nat \<Rightarrow> dummeth \<Rightarrow> dummeth" where
  "dummeth_open d s =
     upd_dev d (\<lambda>v. v\<lparr>
         dev_addr := (if d = 1 then [0, 0x44, 0x45, 0x54, 0x48, 0x31] else [0, 0x44, 0x45, 0x54, 0x48, 0x30]),
         napi_enabled := (if use_napi s then True else napi_enabled v),
         queue_stopped := False\<rparr>) s"

definition dummeth_stop :: "nat \<Rightarrow> dummeth \<Rightarrow> dummeth" where
  "dummeth_stop d s =
     upd_dev d (\<lambda>v. v\<lparr>queue_stopped := True, napi_enabled := (if use_napi s then False else napi_enabled v)\<rparr>) s"

text \<open>\<^verbatim>\<open>dummeth_set_config\<close> on the flag \<^verbatim>\<open>IFF_UP\<close>, the base address and the interrupt number of the
  device and the requested ones; it returns the error code and the interrupt number.\<close>

definition dummeth_set_config :: "bool \<Rightarrow> u64 \<Rightarrow> int \<Rightarrow> u64 \<Rightarrow> int \<Rightarrow> int \<times> int" where
  "dummeth_set_config up base irq map_base map_irq =
     (if up then (-16, irq)
      else if map_base \<noteq> base then (-95, irq)
      else (0, if map_irq \<noteq> irq then map_irq else irq))"

definition dummeth_tx_timeout :: "(nat \<Rightarrow> dummeth_packet option) \<Rightarrow> bool \<Rightarrow> nat \<Rightarrow> dummeth \<Rightarrow> dummeth option" where
  "dummeth_tx_timeout kmalloc ok d s =
     do {
       s \<leftarrow> dummeth_interrupt ok d (upd_dev d (\<lambda>v. v\<lparr>status := status v OR DUMMETH_TX_INTR\<rparr>) s);
       let s = upd_dev d (\<lambda>v. v\<lparr>tx_errors := tx_errors v + 1\<rparr>) s;
       s \<leftarrow> spin_lock d s;
       s \<leftarrow> dummeth_teardown_pool d s;
       let s = spin_unlock d (dummeth_setup_pool kmalloc d s);
       Some (upd_dev d (\<lambda>v. v\<lparr>queue_stopped := False\<rparr>) s)
     }"

section \<open>The module\<close>

definition zero_priv :: dummeth_priv where
  "zero_priv = \<lparr>rx_packets = 0, rx_bytes = 0, rx_dropped = 0, tx_packets = 0, tx_bytes = 0, tx_errors = 0,
     status = 0, ppool = None, rx_queue = None, rx_int_enabled = False, tx_packetlen = 0, skb = None,
     locked = False, queue_stopped = False, napi_scheduled = False, napi_enabled = False,
     dev_addr = replicate 6 0, mtu = 1500\<rparr>"

definition dummeth_setup :: "(nat \<Rightarrow> dummeth_packet option) \<Rightarrow> nat \<Rightarrow> dummeth \<Rightarrow> dummeth" where
  "dummeth_setup kmalloc d s =
     dummeth_setup_pool kmalloc d (dummeth_rx_ints d True (upd_dev d (\<lambda>_. zero_priv) s))"

text \<open>The arguments of \<^verbatim>\<open>dummeth_init_module\<close> are the outcomes of the two allocations and the two
  registrations; the result tells which devices are left allocated.\<close>

definition dummeth_init_module ::
  "(nat \<Rightarrow> dummeth_packet option) \<Rightarrow> (nat \<Rightarrow> bool) \<Rightarrow> (nat \<Rightarrow> int) \<Rightarrow> dummeth \<Rightarrow> int \<times> nat list \<times> dummeth" where
  "dummeth_init_module kmalloc alloc_ok reg s =
     (if \<not> alloc_ok 0 then (-12, [], s)
      else
        let s = dummeth_setup kmalloc 0 s in
        if \<not> alloc_ok 1 then (-12, [0], s)
        else
          let s = dummeth_setup kmalloc 1 s in
          if reg 0 < 0 then (reg 0, [1], s)
          else if reg 1 < 0 then (reg 1, [], s)
          else (0, [0, 1], s))"

fun dummeth_cleanup :: "nat list \<Rightarrow> dummeth \<Rightarrow> dummeth option" where
  "dummeth_cleanup [] s = Some s"
| "dummeth_cleanup (d # ds) s = do { s \<leftarrow> dummeth_teardown_pool d s; dummeth_cleanup ds s }"

section \<open>Chains\<close>

text \<open>The buffers chained from a head pointer, as a list of addresses.\<close>

fun plist :: "(nat \<Rightarrow> dummeth_packet option) \<Rightarrow> nat option \<Rightarrow> nat list \<Rightarrow> bool" where
  "plist m h [] \<longleftrightarrow> h = None"
| "plist m h (i # is) \<longleftrightarrow> h = Some i \<and> (case m i of None \<Rightarrow> False | Some p \<Rightarrow> plist m (nxt p) is)"

lemma plist_None [simp]: "plist m None xs \<longleftrightarrow> xs = []"
  by (cases xs) auto

lemma plist_Some: "plist m (Some i) xs \<longleftrightarrow> (\<exists>p ys. xs = i # ys \<and> m i = Some p \<and> plist m (nxt p) ys)"
  by (cases xs) (auto split: option.splits)

lemma plist_other [simp]: "i \<notin> set xs \<Longrightarrow> plist (m(i := x)) h xs = plist m h xs"
  by (induction xs arbitrary: h) (auto split: option.splits)

lemma plist_fun: "\<lbrakk>plist m h xs; plist m h ys\<rbrakk> \<Longrightarrow> xs = ys"
  by (induction xs arbitrary: h ys) (auto simp: plist_Some split: option.splits)

lemma plist_mem: "\<lbrakk>plist m h xs; i \<in> set xs\<rbrakk> \<Longrightarrow> m i \<noteq> None"
  by (induction xs arbitrary: h) (auto split: option.splits)

lemma upd_dev_simps [simp]:
  "mem (upd_dev d f s) = mem s" "fresh (upd_dev d f s) = fresh s"
  "devs (upd_dev d f s) = (devs s)(d := f (devs s d))"
  "skbs (upd_dev d f s) = skbs s" "delivered (upd_dev d f s) = delivered s"
  "use_napi (upd_dev d f s) = use_napi s" "lockup (upd_dev d f s) = lockup s"
  "pool_size (upd_dev d f s) = pool_size s"
  by (simp_all add: upd_dev_def)

lemma spin_unlock_simps [simp]:
  "mem (spin_unlock d s) = mem s" "fresh (spin_unlock d s) = fresh s"
  "devs (spin_unlock d s) = (devs s)(d := (devs s d)\<lparr>locked := False\<rparr>)"
  "skbs (spin_unlock d s) = skbs s" "delivered (spin_unlock d s) = delivered s"
  "use_napi (spin_unlock d s) = use_napi s" "lockup (spin_unlock d s) = lockup s"
  "pool_size (spin_unlock d s) = pool_size s"
  by (simp_all add: spin_unlock_def)

lemma upd_pkt_Some [simp]: "mem s i = Some p \<Longrightarrow> upd_pkt i f s = Some (s\<lparr>mem := (mem s)(i \<mapsto> f p)\<rparr>)"
  by (simp add: upd_pkt_def)

fun push_list :: "(nat \<Rightarrow> dummeth \<Rightarrow> dummeth option) \<Rightarrow> nat list \<Rightarrow> dummeth \<Rightarrow> dummeth option" where
  "push_list push [] s = Some s"
| "push_list push (i # is) s = do { s \<leftarrow> push i s; push_list push is s }"

text \<open>What a client of a chain relies on: pushing a buffer that is not in the chain and
  popping behave like the operations of a list.\<close>

locale packet_stack =
  fixes ready :: "dummeth \<Rightarrow> bool"
    and accepts :: "nat \<Rightarrow> dummeth \<Rightarrow> bool"
    and head :: "dummeth \<Rightarrow> nat option"
    and push :: "nat \<Rightarrow> dummeth \<Rightarrow> dummeth option"
    and pop :: "dummeth \<Rightarrow> (nat option \<times> dummeth) option"
  assumes push_law: "\<lbrakk>ready s; accepts i s; plist (mem s) (head s) xs; i \<notin> set xs\<rbrakk> \<Longrightarrow>
      \<exists>s'. push i s = Some s' \<and> ready s' \<and> plist (mem s') (head s') (i # xs)
        \<and> (\<forall>j. accepts j s' = accepts j s)"
    and pop_law: "\<lbrakk>ready s; plist (mem s) (head s) (i # xs)\<rbrakk> \<Longrightarrow>
      \<exists>s'. pop s = Some (Some i, s') \<and> ready s' \<and> plist (mem s') (head s') xs
        \<and> (\<forall>j. accepts j s' = accepts j s)"
begin

lemma pop_push:
  assumes "ready s" "accepts i s" "plist (mem s) (head s) xs" "i \<notin> set xs"
  shows "\<exists>s' s''. push i s = Some s' \<and> pop s' = Some (Some i, s'') \<and> ready s''
    \<and> plist (mem s'') (head s'') xs"
  using push_law [OF assms] pop_law by blast

lemma push_list_rev:
  assumes "ready s" "\<forall>i\<in>set is. accepts i s" "plist (mem s) (head s) xs" "distinct (is @ xs)"
  shows "\<exists>s'. push_list push is s = Some s' \<and> ready s' \<and> plist (mem s') (head s') (rev is @ xs)"
  using assms
proof (induction "is" arbitrary: s xs)
  case (Cons i "is")
  then obtain s1 where 1: "push i s = Some s1" "ready s1" "plist (mem s1) (head s1) (i # xs)"
    "\<forall>j. accepts j s1 = accepts j s"
    using push_law [of s i xs] by auto
  then have "\<exists>s'. push_list push is s1 = Some s' \<and> ready s' \<and> plist (mem s') (head s') (rev is @ i # xs)"
    using Cons.prems by (intro Cons.IH) auto
  with 1 show ?case
    by auto
qed simp

end

lemma release_buffer_eq:
  assumes "mem s i = Some p" "\<not> locked (devs s (pdev p))"
  shows "dummeth_release_buffer i s =
    Some ((upd_dev (pdev p) (\<lambda>v. v\<lparr>ppool := Some i, queue_stopped := (queue_stopped v \<and> ppool v \<noteq> None)\<rparr>) s)
      \<lparr>mem := (mem s)(i \<mapsto> p\<lparr>nxt := ppool (devs s (pdev p))\<rparr>)\<rparr>)"
  using assms
  by (cases "devs s (pdev p)")
    (auto simp: dummeth_release_buffer_def spin_lock_def spin_unlock_def upd_dev_def upd_pkt_def Let_def)

lemma get_tx_buffer_eq:
  assumes "ppool (devs s d) = Some i" "mem s i = Some p" "\<not> locked (devs s d)"
  shows "dummeth_get_tx_buffer d s =
    Some (Some i, upd_dev d (\<lambda>v. v\<lparr>ppool := nxt p, queue_stopped := (queue_stopped v \<or> nxt p = None)\<rparr>) s)"
  using assms
  by (cases "devs s d")
    (auto simp: dummeth_get_tx_buffer_def spin_lock_def spin_unlock_def upd_dev_def upd_pkt_def Let_def)

lemma enqueue_buf_eq:
  assumes "mem s i = Some p" "\<not> locked (devs s d)"
  shows "dummeth_enqueue_buf d i s =
    Some ((upd_dev d (\<lambda>v. v\<lparr>rx_queue := Some i\<rparr>) s)
      \<lparr>mem := (mem s)(i \<mapsto> p\<lparr>nxt := rx_queue (devs s d)\<rparr>)\<rparr>)"
  using assms
  by (cases "devs s d")
    (auto simp: dummeth_enqueue_buf_def spin_lock_def spin_unlock_def upd_dev_def upd_pkt_def Let_def)

lemma dequeue_buf_eq:
  assumes "rx_queue (devs s d) = Some i" "mem s i = Some p" "\<not> locked (devs s d)"
  shows "dummeth_dequeue_buf d s = Some (Some i, upd_dev d (\<lambda>v. v\<lparr>rx_queue := nxt p\<rparr>) s)"
  using assms
  by (cases "devs s d")
    (auto simp: dummeth_dequeue_buf_def spin_lock_def spin_unlock_def upd_dev_def upd_pkt_def Let_def)

lemmas chain_eqs = release_buffer_eq get_tx_buffer_eq enqueue_buf_eq dequeue_buf_eq

interpretation pool: packet_stack
  "\<lambda>s. \<not> locked (devs s d)"
  "\<lambda>i s. \<exists>p. mem s i = Some p \<and> pdev p = d"
  "\<lambda>s. ppool (devs s d)"
  dummeth_release_buffer
  "dummeth_get_tx_buffer d"
  for d
proof (unfold_locales, goal_cases)
  case (1 s i xs)
  then show ?case
    by (auto simp: release_buffer_eq)
next
  case (2 s i xs)
  then show ?case
    by (auto simp: get_tx_buffer_eq split: option.splits)
qed

interpretation rxq: packet_stack
  "\<lambda>s. \<not> locked (devs s d)"
  "\<lambda>i s. mem s i \<noteq> None"
  "\<lambda>s. rx_queue (devs s d)"
  "dummeth_enqueue_buf d"
  "dummeth_dequeue_buf d"
  for d
proof (unfold_locales, goal_cases)
  case (1 s i xs)
  then show ?case
    by (auto simp: enqueue_buf_eq)
next
  case (2 s i xs)
  then show ?case
    by (auto simp: dequeue_buf_eq split: option.splits)
qed

section \<open>The invariant\<close>

text \<open>
  \<^term>\<open>P d\<close> are the free buffers of device \<^term>\<open>d\<close>, \<^term>\<open>Q d\<close> those waiting to be received on
  \<^term>\<open>d\<close>, which belong to the other device.  The transmit queue of a device without
  free buffers is stopped.
\<close>

definition owner :: "dummeth \<Rightarrow> nat \<Rightarrow> nat \<Rightarrow> bool" where
  "owner s i d \<longleftrightarrow> (case mem s i of None \<Rightarrow> False | Some p \<Rightarrow> pdev p = d \<and> length (data p) = ETH_DATA_LEN)"

definition frame_of :: "dummeth \<Rightarrow> nat \<Rightarrow> u8 list" where
  "frame_of s i = (case mem s i of None \<Rightarrow> [] | Some p \<Rightarrow> take (datalen p) (data p))"

definition full_frame :: "dummeth \<Rightarrow> nat \<Rightarrow> bool" where
  "full_frame s i \<longleftrightarrow> (case mem s i of None \<Rightarrow> False | Some p \<Rightarrow> datalen p \<le> length (data p))"

definition in_lists :: "(nat \<Rightarrow> nat list) \<Rightarrow> (nat \<Rightarrow> nat list) \<Rightarrow> nat list" where
  "in_lists P Q = P 0 @ P 1 @ Q 0 @ Q 1"

definition dev_ok :: "dummeth \<Rightarrow> nat \<Rightarrow> nat list \<Rightarrow> nat list \<Rightarrow> bool" where
  "dev_ok s d p q \<longleftrightarrow>
     plist (mem s) (ppool (devs s d)) p \<and> plist (mem s) (rx_queue (devs s d)) q
   \<and> \<not> locked (devs s d) \<and> (p = [] \<longrightarrow> queue_stopped (devs s d))
   \<and> list_all (\<lambda>i. owner s i d) p \<and> list_all (\<lambda>i. owner s i (1 - d) \<and> full_frame s i) q"

definition dinv :: "dummeth \<Rightarrow> (nat \<Rightarrow> nat list) \<Rightarrow> (nat \<Rightarrow> nat list) \<Rightarrow> bool" where
  "dinv s P Q \<longleftrightarrow> dev_ok s 0 (P 0) (Q 0) \<and> dev_ok s 1 (P 1) (Q 1) \<and> distinct (in_lists P Q)"

lemma less_2: "d < 2 \<longleftrightarrow> d = 0 \<or> d = (1 :: nat)"
  by auto

lemma dinv_dev: "\<lbrakk>dinv s P Q; d < 2\<rbrakk> \<Longrightarrow> dev_ok s d (P d) (Q d)"
  by (auto simp: dinv_def less_2)

lemma owner_mem_other [simp]:
  "j \<noteq> i \<Longrightarrow> owner (s\<lparr>mem := (mem s)(i := x)\<rparr>) j d = owner s j d"
  "j \<noteq> i \<Longrightarrow> full_frame (s\<lparr>mem := (mem s)(i := x)\<rparr>) j = full_frame s j"
  by (simp_all add: owner_def full_frame_def)

lemma owner_upd_dev [simp]:
  "owner (upd_dev e f s) j d = owner s j d" "full_frame (upd_dev e f s) j = full_frame s j"
  by (simp_all add: owner_def full_frame_def)

lemma list_all_other:
  "i \<notin> set l \<Longrightarrow> (\<And>j. j \<noteq> i \<Longrightarrow> f j = g j) \<Longrightarrow> list_all f l = list_all g l"
  by (induction l) auto

lemma dev_ok_mem_other:
  assumes "i \<notin> set p" "i \<notin> set q"
  shows "dev_ok (s\<lparr>mem := (mem s)(i := x)\<rparr>) d p q = dev_ok s d p q"
  using list_all_other [OF assms(1), of "\<lambda>j. owner (s\<lparr>mem := (mem s)(i := x)\<rparr>) j d" "\<lambda>j. owner s j d"]
    list_all_other [OF assms(2), of
      "\<lambda>j. owner (s\<lparr>mem := (mem s)(i := x)\<rparr>) j (1 - d) \<and> full_frame (s\<lparr>mem := (mem s)(i := x)\<rparr>) j"
      "\<lambda>j. owner s j (1 - d) \<and> full_frame s j"] assms
  by (simp add: dev_ok_def)

lemma dinv_mem_other:
  "i \<notin> set (in_lists P Q) \<Longrightarrow> dinv (s\<lparr>mem := (mem s)(i := x)\<rparr>) P Q = dinv s P Q"
  by (simp add: dinv_def in_lists_def dev_ok_mem_other)

lemma dev_ok_cong:
  assumes "mem s' = mem s" "ppool (devs s' d) = ppool (devs s d)" "rx_queue (devs s' d) = rx_queue (devs s d)"
    "locked (devs s' d) = locked (devs s d)" "queue_stopped (devs s d) \<longrightarrow> queue_stopped (devs s' d)"
    and "dev_ok s d p q"
  shows "dev_ok s' d p q"
  using assms by (simp add: dev_ok_def owner_def full_frame_def cong: list.pred_cong)

lemma dev_ok_upd_other [simp]: "d \<noteq> e \<Longrightarrow> dev_ok (upd_dev e f s) d p q = dev_ok s d p q"
  by (simp add: dev_ok_def owner_def full_frame_def)

text \<open>Two states with the same buffers and chains, where no queue has been started.\<close>

definition same_chains :: "dummeth \<Rightarrow> dummeth \<Rightarrow> bool" where
  "same_chains s s' \<longleftrightarrow> mem s' = mem s \<and> fresh s' = fresh s \<and>
     (\<forall>d<2. ppool (devs s' d) = ppool (devs s d) \<and> rx_queue (devs s' d) = rx_queue (devs s d)
        \<and> locked (devs s' d) = locked (devs s d) \<and> (queue_stopped (devs s d) \<longrightarrow> queue_stopped (devs s' d)))"

lemma dinv_same_chains: "\<lbrakk>same_chains s s'; dinv s P Q\<rbrakk> \<Longrightarrow> dinv s' P Q"
  using dev_ok_cong [of s' s] by (auto simp: dinv_def same_chains_def)

lemma same_chains_upd_dev:
  assumes "ppool (f (devs s d)) = ppool (devs s d)" "rx_queue (f (devs s d)) = rx_queue (devs s d)"
    "locked (f (devs s d)) = locked (devs s d)"
    "queue_stopped (devs s d) \<longrightarrow> queue_stopped (f (devs s d))"
  shows "same_chains s (upd_dev d f s)"
  using assms by (simp add: same_chains_def)

lemma dinv_get:
  assumes inv: "dinv s P Q" and d: "d < 2" and P: "P d = i # xs"
  obtains p where "mem s i = Some p" "pdev p = d" "length (data p) = ETH_DATA_LEN"
    "dummeth_get_tx_buffer d s =
      Some (Some i, upd_dev d (\<lambda>v. v\<lparr>ppool := nxt p, queue_stopped := (queue_stopped v \<or> nxt p = None)\<rparr>) s)"
    "dinv (upd_dev d (\<lambda>v. v\<lparr>ppool := nxt p, queue_stopped := (queue_stopped v \<or> nxt p = None)\<rparr>) s) (P(d := xs)) Q"
    "i \<notin> set (in_lists (P(d := xs)) Q)"
proof -
  have ok: "dev_ok s d (i # xs) (Q d)"
    using dinv_dev [OF inv d] P by simp
  then obtain p where p: "mem s i = Some p" "pdev p = d" "length (data p) = ETH_DATA_LEN"
    "ppool (devs s d) = Some i" "plist (mem s) (nxt p) xs" "\<not> locked (devs s d)"
    by (auto simp: dev_ok_def owner_def split: option.splits)
  have "dev_ok (upd_dev d (\<lambda>v. v\<lparr>ppool := nxt p, queue_stopped := (queue_stopped v \<or> nxt p = None)\<rparr>) s) d xs (Q d)"
    using ok p by (auto simp: dev_ok_def owner_def full_frame_def)
  then have "dinv (upd_dev d (\<lambda>v. v\<lparr>ppool := nxt p, queue_stopped := (queue_stopped v \<or> nxt p = None)\<rparr>) s) (P(d := xs)) Q
      \<and> i \<notin> set (in_lists (P(d := xs)) Q)"
    using inv d P by (auto simp: dinv_def less_2 in_lists_def)
  with p that get_tx_buffer_eq [OF p(4,1,6)] show ?thesis
    by blast
qed

lemma dinv_enqueue:
  assumes inv: "dinv s P Q" and d: "d < 2" and i: "i \<notin> set (in_lists P Q)"
    and "owner s i (1 - d)" "full_frame s i"
  obtains p where "mem s i = Some p"
    "dummeth_enqueue_buf d i s =
      Some ((upd_dev d (\<lambda>v. v\<lparr>rx_queue := Some i\<rparr>) s)\<lparr>mem := (mem s)(i \<mapsto> p\<lparr>nxt := rx_queue (devs s d)\<rparr>)\<rparr>)"
    "dinv ((upd_dev d (\<lambda>v. v\<lparr>rx_queue := Some i\<rparr>) s)\<lparr>mem := (mem s)(i \<mapsto> p\<lparr>nxt := rx_queue (devs s d)\<rparr>)\<rparr>)
      P (Q(d := i # Q d))"
proof -
  obtain p where p: "mem s i = Some p" "pdev p = 1 - d" "length (data p) = ETH_DATA_LEN" "datalen p \<le> length (data p)"
    using assms(4,5) by (auto simp: owner_def full_frame_def split: option.splits)
  have ok: "dev_ok s d (P d) (Q d)"
    using inv d by (rule dinv_dev)
  let ?s = "s\<lparr>mem := (mem s)(i \<mapsto> p\<lparr>nxt := rx_queue (devs s d)\<rparr>)\<rparr>"
  have "dinv ?s P Q"
    using inv i by (simp add: dinv_mem_other)
  moreover from dinv_dev [OF this d] have "dev_ok (upd_dev d (\<lambda>v. v\<lparr>rx_queue := Some i\<rparr>) ?s) d (P d) (i # Q d)"
    using p by (auto simp: dev_ok_def owner_def full_frame_def)
  ultimately have "dinv (upd_dev d (\<lambda>v. v\<lparr>rx_queue := Some i\<rparr>) ?s) P (Q(d := i # Q d))"
    using d i by (auto simp: dinv_def less_2 in_lists_def)
  moreover have "upd_dev d (\<lambda>v. v\<lparr>rx_queue := Some i\<rparr>) ?s =
      (upd_dev d (\<lambda>v. v\<lparr>rx_queue := Some i\<rparr>) s)\<lparr>mem := (mem s)(i \<mapsto> p\<lparr>nxt := rx_queue (devs s d)\<rparr>)\<rparr>"
    by (simp add: upd_dev_def)
  moreover have "\<not> locked (devs s d)"
    using ok by (simp add: dev_ok_def)
  ultimately show ?thesis
    using that [OF p(1)] enqueue_buf_eq [OF p(1)] by simp
qed

lemma dinv_dequeue:
  assumes inv: "dinv s P Q" and d: "d < 2" and Q: "Q d = i # ys"
  obtains p where "mem s i = Some p" "pdev p = 1 - d" "length (data p) = ETH_DATA_LEN" "datalen p \<le> length (data p)"
    "dummeth_dequeue_buf d s = Some (Some i, upd_dev d (\<lambda>v. v\<lparr>rx_queue := nxt p\<rparr>) s)"
    "dinv (upd_dev d (\<lambda>v. v\<lparr>rx_queue := nxt p\<rparr>) s) P (Q(d := ys))"
    "i \<notin> set (in_lists P (Q(d := ys)))"
proof -
  have ok: "dev_ok s d (P d) (i # ys)"
    using dinv_dev [OF inv d] Q by simp
  then obtain p where p: "mem s i = Some p" "pdev p = 1 - d" "length (data p) = ETH_DATA_LEN" "datalen p \<le> length (data p)"
    "rx_queue (devs s d) = Some i" "plist (mem s) (nxt p) ys" "\<not> locked (devs s d)"
    by (auto simp: dev_ok_def owner_def full_frame_def split: option.splits)
  have "dev_ok (upd_dev d (\<lambda>v. v\<lparr>rx_queue := nxt p\<rparr>) s) d (P d) ys"
    using ok p by (auto simp: dev_ok_def owner_def full_frame_def)
  then have "dinv (upd_dev d (\<lambda>v. v\<lparr>rx_queue := nxt p\<rparr>) s) P (Q(d := ys)) \<and> i \<notin> set (in_lists P (Q(d := ys)))"
    using inv d Q by (auto simp: dinv_def less_2 in_lists_def)
  with p that dequeue_buf_eq [OF p(5,1,7)] show ?thesis
    by blast
qed

lemma dinv_release:
  assumes inv: "dinv s P Q" and i: "i \<notin> set (in_lists P Q)" and "owner s i e" "e < 2"
  obtains p s' where "mem s i = Some p" "dummeth_release_buffer i s = Some s'"
    "dinv s' (P(e := i # P e)) Q"
    "mem s' = (mem s)(i \<mapsto> p\<lparr>nxt := ppool (devs s e)\<rparr>)" "delivered s' = delivered s" "fresh s' = fresh s"
    "skbs s' = skbs s" "use_napi s' = use_napi s" "lockup s' = lockup s" "pool_size s' = pool_size s"
    "\<forall>d. skb (devs s' d) = skb (devs s d)"
proof -
  obtain p where p: "mem s i = Some p" "pdev p = e" "length (data p) = ETH_DATA_LEN"
    using assms(3) by (auto simp: owner_def split: option.splits)
  let ?s = "s\<lparr>mem := (mem s)(i \<mapsto> p\<lparr>nxt := ppool (devs s e)\<rparr>)\<rparr>"
  let ?f = "\<lambda>v. v\<lparr>ppool := Some i, queue_stopped := (queue_stopped v \<and> ppool v \<noteq> None)\<rparr>"
  have inv': "dinv ?s P Q"
    using inv i by (simp add: dinv_mem_other)
  then have "dev_ok (upd_dev e ?f ?s) e (i # P e) (Q e)"
    using dinv_dev [OF inv' assms(4)] p by (auto simp: dev_ok_def owner_def full_frame_def)
  then have "dinv (upd_dev e ?f ?s) (P(e := i # P e)) Q"
    using inv' assms(4) i by (auto simp: dinv_def less_2 in_lists_def)
  moreover have "\<not> locked (devs s (pdev p))"
    using dinv_dev [OF inv assms(4)] p by (simp add: dev_ok_def)
  then have "dummeth_release_buffer i s = Some (upd_dev e ?f ?s)"
    using release_buffer_eq [OF p(1)] p(2) by (simp add: upd_dev_def)
  ultimately show ?thesis
    using that [OF p(1), of "upd_dev e ?f ?s"] by simp
qed

section \<open>Socket buffers and interrupts\<close>

text \<open>A device's pending socket buffer is one the driver owns, and the two devices have
  different ones.\<close>

definition skb_inv :: "dummeth \<Rightarrow> bool" where
  "skb_inv s \<longleftrightarrow> distinct (skbs s)
     \<and> (\<forall>d<2. \<forall>k. skb (devs s d) = Some k \<longrightarrow> k \<in> set (skbs s))
     \<and> (\<forall>k. \<not> (skb (devs s 0) = Some k \<and> skb (devs s 1) = Some k))"

definition same_config :: "dummeth \<Rightarrow> dummeth \<Rightarrow> bool" where
  "same_config s s' \<longleftrightarrow> use_napi s' = use_napi s \<and> lockup s' = lockup s \<and> pool_size s' = pool_size s"

lemma same_config_refl [simp]: "same_config s s"
  by (simp add: same_config_def)

lemma same_config_trans: "\<lbrakk>same_config a b; same_config b c\<rbrakk> \<Longrightarrow> same_config a c"
  by (simp add: same_config_def)

lemma same_config_simps [simp]:
  "same_config (upd_dev d f s') s = same_config s' s"
  "same_config s (upd_dev d f s') = same_config s s'"
  "same_config s (s'\<lparr>mem := m\<rparr>) = same_config s s'"
  "same_config s (s'\<lparr>skbs := l\<rparr>) = same_config s s'"
  "same_config s (s'\<lparr>delivered := l'\<rparr>) = same_config s s'"
  "same_config s (spin_unlock d s') = same_config s s'"
  by (simp_all add: same_config_def)

lemma same_chains_trans: "\<lbrakk>same_chains a b; same_chains b c\<rbrakk> \<Longrightarrow> same_chains a c"
  by (auto simp: same_chains_def)

lemma napi_interrupt_ok:
  assumes unlocked: "\<not> locked (devs s d)" and skb: "skb_inv s" and d: "d < 2"
  shows "\<exists>s'. dummeth_napi_interrupt d s = Some s' \<and> same_chains s s' \<and> skb_inv s'
    \<and> same_config s s' \<and> delivered s' = delivered s \<and> set (skbs s') \<subseteq> set (skbs s)"
proof (cases "skb (devs s d)")
  case None
  then show ?thesis
    using assms
    by (auto simp: dummeth_napi_interrupt_def spin_lock_def dummeth_rx_ints_def dev_kfree_skb_def tx_done_def
        Let_def same_chains_def skb_inv_def less_2)
next
  case (Some k)
  then have k: "k \<in> set (skbs s)" "distinct (skbs s)"
    using skb d by (auto simp: skb_inv_def)
  have other: "skb (devs s e) = Some j \<Longrightarrow> e < 2 \<Longrightarrow> e \<noteq> d \<Longrightarrow> j \<in> set (remove1 k (skbs s))" for e j
    using skb d Some k by (auto simp: skb_inv_def less_2)
  show ?thesis
    using unlocked skb d Some k other
    by (auto simp: dummeth_napi_interrupt_def spin_lock_def dummeth_rx_ints_def dev_kfree_skb_def tx_done_def
        Let_def same_chains_def skb_inv_def less_2 distinct_remove1 dest: notin_set_remove1)
qed

lemma frame_of_upd_dev [simp]: "frame_of (upd_dev d f s) i = frame_of s i"
  by (simp add: frame_of_def)

lemma skb_inv_upd_dev: "skb (f (devs s d)) = skb (devs s d) \<Longrightarrow> skb_inv (upd_dev d f s) = skb_inv s"
proof -
  assume "skb (f (devs s d)) = skb (devs s d)"
  then have "skb (devs (upd_dev d f s) e) = skb (devs s e)" for e
    by simp
  then show ?thesis
    by (simp only: skb_inv_def upd_dev_simps(4))
qed

lemma skb_inv_mem [simp]: "skb_inv (s\<lparr>mem := m\<rparr>) = skb_inv s"
  by (simp add: skb_inv_def)

lemma frame_of_same_chains: "same_chains s s' \<Longrightarrow> frame_of s' i = frame_of s i"
  by (simp add: same_chains_def frame_of_def)

lemma rewrite_frame_length: "rewrite_frame csum buf = Some buf' \<Longrightarrow> length buf' = length buf"
  by (auto simp: rewrite_frame_def Let_def split: if_splits)

text \<open>The end of \<^verbatim>\<open>dummeth_hw_tx\<close>, after the buffer is in the other device's queue.\<close>

lemma tx_interrupts_ok:
  assumes inv: "dinv s P Q" and skb: "skb_inv s" and napi: "use_napi s" and d: "d < 2" "e < 2"
  shows "\<exists>s'. hw_tx_notify ok n d e s = Some s'
    \<and> same_chains s s' \<and> skb_inv s' \<and> same_config s s' \<and> delivered s' = delivered s
    \<and> set (skbs s') \<subseteq> set (skbs s)"
proof -
  have unl: "\<not> locked (devs s a)" if "a < 2" for a
    using dinv_dev [OF inv that] by (simp add: dev_ok_def)
  obtain s1 where 1: "(if rx_int_enabled (devs s e)
            then dummeth_interrupt ok e (upd_dev e (\<lambda>v. v\<lparr>status := status v OR DUMMETH_RX_INTR\<rparr>) s)
            else Some s) = Some s1"
    "same_chains s s1" "skb_inv s1" "same_config s s1" "delivered s1 = delivered s" "set (skbs s1) \<subseteq> set (skbs s)"
  proof (cases "rx_int_enabled (devs s e)")
    case True
    let ?s = "upd_dev e (\<lambda>v. v\<lparr>status := status v OR DUMMETH_RX_INTR\<rparr>) s"
    have "same_chains s ?s"
      by (rule same_chains_upd_dev) simp_all
    then show ?thesis
      using that True napi_interrupt_ok [of ?s e] unl [OF d(2)] skb napi d
      by (auto simp: dummeth_interrupt_def skb_inv_upd_dev dest: same_chains_trans)
  next
    case False
    then show ?thesis
      using that skb by (simp add: same_chains_def)
  qed
  let ?s2 = "upd_dev d (\<lambda>v. v\<lparr>tx_packetlen := n, status := status v OR DUMMETH_TX_INTR\<rparr>) s1"
  have 2: "same_chains s1 ?s2" "skb_inv ?s2" "\<not> locked (devs ?s2 d)" "use_napi ?s2"
    using 1 unl [OF d(1)] d napi
    by (auto intro!: same_chains_upd_dev simp: skb_inv_upd_dev same_chains_def same_config_def)
  let ?s3 = "upd_dev d (\<lambda>v. v\<lparr>queue_stopped := True\<rparr>) ?s2"
  have 3: "same_chains ?s2 ?s3" "skb_inv ?s3"
    using 2 by (auto intro!: same_chains_upd_dev simp: skb_inv_upd_dev)
  obtain s4 where 4: "dummeth_interrupt ok d ?s2 = Some s4" "same_chains ?s2 s4" "skb_inv s4"
    "same_config ?s2 s4" "delivered s4 = delivered s1" "set (skbs s4) \<subseteq> set (skbs s1)"
    using napi_interrupt_ok [OF 2(3,2) d(1)] 2(4) by (auto simp: dummeth_interrupt_def)
  have "same_config s s4"
    using 1(4) 4(4) by (simp add: same_config_def)
  moreover have "same_chains s ?s3" "same_chains s s4"
    using 1(2) 2(1) 3(1) 4(2) same_chains_trans by blast+
  ultimately show ?thesis
    using 1 3 4 by (auto simp: hw_tx_notify_def Let_def)
qed

section \<open>Transmission and polling\<close>

definition pad_frame :: "u8 list \<Rightarrow> u8 list" where
  "pad_frame bytes = (if length bytes < ETH_ZLEN then bytes @ replicate (ETH_ZLEN - length bytes) 0 else bytes)"

text \<open>A frame the driver can carry: its IP header lies inside, and it fits a buffer.\<close>

definition good_frame :: "(u8 list \<Rightarrow> u16) \<Rightarrow> u8 list \<Rightarrow> bool" where
  "good_frame csum bytes \<longleftrightarrow> rewrite_frame csum (pad_frame bytes) \<noteq> None \<and> length (pad_frame bytes) \<le> ETH_DATA_LEN"

definition sent_frame :: "(u8 list \<Rightarrow> u16) \<Rightarrow> u8 list \<Rightarrow> u8 list" where
  "sent_frame csum bytes = the (rewrite_frame csum (pad_frame bytes))"

lemma pad_frame_length: "34 \<le> length (pad_frame bytes)"
  by (simp add: pad_frame_def)

lemma xmit_ok:
  assumes inv: "dinv s P Q" and skb: "skb_inv s" and napi: "use_napi s" and d: "d < 2"
    and P: "P d = i # xs" and k: "k \<notin> set (skbs s)" and good: "good_frame csum bytes"
  shows "\<exists>s'. dummeth_xmit csum ok k bytes d s = Some s'
    \<and> dinv s' (P(d := xs)) (Q(1 - d := i # Q (1 - d))) \<and> skb_inv s' \<and> same_config s s'
    \<and> delivered s' = delivered s \<and> fresh s' = fresh s \<and> set (skbs s') \<subseteq> insert k (set (skbs s))
    \<and> (\<forall>j. frame_of s' j = (if j = i then sent_frame csum bytes else frame_of s j))
    \<and> (\<forall>j. (mem s' j = None) = (mem s j = None))"
proof -
  define e where "e = 1 - d"
  have e: "e < 2" "(if d = 0 then 1 else 0) = e" "1 - e = d"
    using d by (auto simp: e_def less_2)
  let ?buf = "sent_frame csum bytes"
  have buf: "rewrite_frame csum (pad_frame bytes) = Some ?buf" "length ?buf \<le> ETH_DATA_LEN"
    using good rewrite_frame_length by (auto simp: good_frame_def sent_frame_def)
  let ?s0 = "upd_dev d (\<lambda>v. v\<lparr>skb := Some k\<rparr>) (s\<lparr>skbs := skbs s @ [k]\<rparr>)"
  have "same_chains s ?s0"
    by (simp add: same_chains_def)
  then have inv0: "dinv ?s0 P Q"
    using inv by (rule dinv_same_chains)
  have skb0: "skb_inv ?s0"
    using skb k d by (auto simp: skb_inv_def less_2)
  let ?g = "\<lambda>p. upd_dev d (\<lambda>v. v\<lparr>ppool := nxt p, queue_stopped := (queue_stopped v \<or> nxt p = None)\<rparr>) ?s0"
  obtain p where p: "mem ?s0 i = Some p" "pdev p = d" "length (data p) = ETH_DATA_LEN"
    and get: "dummeth_get_tx_buffer d ?s0 = Some (Some i, ?g p)"
    and inv1: "dinv (?g p) (P(d := xs)) Q"
    and i: "i \<notin> set (in_lists (P(d := xs)) Q)"
    by (rule dinv_get [OF inv0 d P])
  let ?s1 = "?g p"
  let ?p2 = "p\<lparr>datalen := length ?buf, data := ?buf @ drop (length ?buf) (data p)\<rparr>"
  let ?s2 = "?s1\<lparr>mem := (mem ?s1)(i \<mapsto> ?p2)\<rparr>"
  have inv2: "dinv ?s2 (P(d := xs)) Q"
    unfolding dinv_mem_other [OF i] by (rule inv1)
  have own2: "owner ?s2 i (1 - e)" "full_frame ?s2 i"
    using p buf e by (simp_all add: owner_def full_frame_def)
  let ?h = "\<lambda>p. (upd_dev e (\<lambda>v. v\<lparr>rx_queue := Some i\<rparr>) ?s2)\<lparr>mem := (mem ?s2)(i \<mapsto> p\<lparr>nxt := rx_queue (devs ?s2 e)\<rparr>)\<rparr>"
  obtain p2 where p2: "mem ?s2 i = Some p2"
    and enq: "dummeth_enqueue_buf e i ?s2 = Some (?h p2)"
    and inv3: "dinv (?h p2) (P(d := xs)) (Q(e := i # Q e))"
    by (rule dinv_enqueue [OF inv2 e(1) i own2])
  let ?s3 = "?h p2"
  have skb3: "skb_inv ?s3" and napi3: "use_napi ?s3"
    using skb0 napi by (simp_all add: skb_inv_upd_dev)
  have fr: "frame_of ?s3 j = (if j = i then ?buf else frame_of s j)"
    "(mem ?s3 j = None) = (mem s j = None)" for j
    using p p2 by (auto simp: frame_of_def)
  from tx_interrupts_ok [OF inv3 skb3 napi3 d e(1), of ok "length ?buf"] obtain s' where
    s': "hw_tx_notify ok (length ?buf) d e ?s3 = Some s'" and r: "same_chains ?s3 s'" "skb_inv s'" "same_config ?s3 s'" "delivered s' = delivered ?s3"
      "set (skbs s') \<subseteq> set (skbs ?s3)"
    by blast
  have "dummeth_xmit csum ok k bytes d s = dummeth_hw_tx csum ok (pad_frame bytes) d ?s0"
    by (simp add: dummeth_xmit_def pad_frame_def Let_def)
  also have "\<dots> = Some s'"
    unfolding dummeth_hw_tx_def e(2)
    using pad_frame_length [of bytes] buf get enq s' p
    by (simp add: not_less [symmetric] Let_def)
  finally show ?thesis
    using dinv_same_chains [OF r(1) inv3] r fr frame_of_same_chains [OF r(1)]
    by (auto simp: e_def same_chains_def same_config_def)
qed

text \<open>The buffers among the given ones for which a socket buffer can be allocated.\<close>

fun allocated :: "(nat \<Rightarrow> bool) \<Rightarrow> nat \<Rightarrow> nat list \<Rightarrow> nat list" where
  "allocated ok n [] = []"
| "allocated ok n (i # is) = (if ok n then i # allocated ok (n + 1) is else allocated ok (n + 1) is)"

lemma rx_ok:
  assumes "mem s i = Some p" "datalen p \<le> length (data p)"
  shows "\<exists>s'. dummeth_rx ok d i s = Some s' \<and> same_chains s s' \<and> same_config s s'
    \<and> skbs s' = skbs s \<and> (\<forall>e. skb (devs s' e) = skb (devs s e))
    \<and> delivered s' = delivered s @ (if ok then [(d, frame_of s i)] else [])"
  using assms by (auto simp: dummeth_rx_def same_chains_def frame_of_def)

lemma poll_loop_ok:
  assumes "dinv s P Q" "d < 2"
  shows "\<exists>s'. poll_loop ok b n d s = Some (n + min b (length (Q d)), s')
    \<and> dinv s' (P(1 - d := rev (take b (Q d)) @ P (1 - d))) (Q(d := drop b (Q d)))
    \<and> delivered s' = delivered s @ map (\<lambda>i. (d, frame_of s i)) (allocated ok n (take b (Q d)))
    \<and> same_config s s' \<and> skbs s' = skbs s \<and> (\<forall>e. skb (devs s' e) = skb (devs s e))
    \<and> fresh s' = fresh s \<and> (\<forall>j. (mem s' j = None) = (mem s j = None))
    \<and> (\<forall>j. frame_of s' j = frame_of s j)"
  using assms(1)
proof (induction b arbitrary: n s P Q)
  case 0
  then show ?case
    by simp
next
  case (Suc b)
  show ?case
  proof (cases "Q d")
    case Nil
    have "rx_queue (devs s d) = None"
      using dinv_dev [OF Suc.prems assms(2)] Nil by (simp add: dev_ok_def)
    then show ?thesis
      using Suc.prems Nil by (simp add: fun_upd_idem)
  next
    case (Cons i ys)
    define e where "e = 1 - d"
    have e: "e < 2"
      using assms(2) by (simp add: e_def)
    obtain p where p: "mem s i = Some p" "pdev p = 1 - d" "length (data p) = ETH_DATA_LEN"
      "datalen p \<le> length (data p)"
      and deq: "dummeth_dequeue_buf d s = Some (Some i, upd_dev d (\<lambda>v. v\<lparr>rx_queue := nxt p\<rparr>) s)"
      and inv1: "dinv (upd_dev d (\<lambda>v. v\<lparr>rx_queue := nxt p\<rparr>) s) P (Q(d := ys))"
      and i: "i \<notin> set (in_lists P (Q(d := ys)))"
      by (rule dinv_dequeue [OF Suc.prems assms(2) Cons])
    let ?s1 = "upd_dev d (\<lambda>v. v\<lparr>rx_queue := nxt p\<rparr>) s"
    obtain s2 where 2: "dummeth_rx (ok n) d i ?s1 = Some s2" "same_chains ?s1 s2" "same_config ?s1 s2"
      "skbs s2 = skbs s" "\<forall>e. skb (devs s2 e) = skb (devs ?s1 e)"
      "delivered s2 = delivered s @ (if ok n then [(d, frame_of s i)] else [])"
      using rx_ok [of ?s1 i p "ok n" d] p by auto
    have inv2: "dinv s2 P (Q(d := ys))"
      using 2(2) inv1 by (rule dinv_same_chains)
    have own: "owner s2 i e"
      using 2(2) p by (simp add: owner_def same_chains_def e_def)
    obtain p3 s3 where 3: "mem s2 i = Some p3" "dummeth_release_buffer i s2 = Some s3"
      "dinv s3 (P(e := i # P e)) (Q(d := ys))"
      "mem s3 = (mem s2)(i \<mapsto> p3\<lparr>nxt := ppool (devs s2 e)\<rparr>)" "delivered s3 = delivered s2" "fresh s3 = fresh s2"
      "skbs s3 = skbs s2" "use_napi s3 = use_napi s2" "lockup s3 = lockup s2" "pool_size s3 = pool_size s2"
      "\<forall>d. skb (devs s3 d) = skb (devs s2 d)"
      by (rule dinv_release [OF inv2 i own e])
    have fr: "frame_of s3 j = frame_of s j" "(mem s3 j = None) = (mem s j = None)" "fresh s3 = fresh s" for j
      using 2(2) 3(1,4,6) by (auto simp: frame_of_def same_chains_def)
    obtain s' where s': "poll_loop ok b (n + 1) d s3 = Some (n + 1 + min b (length ys), s')"
      "dinv s' ((P(e := i # P e))(1 - d := rev (take b ys) @ (P(e := i # P e)) (1 - d))) ((Q(d := ys))(d := drop b ys))"
      "delivered s' = delivered s3 @ map (\<lambda>i. (d, frame_of s3 i)) (allocated ok (n + 1) (take b ys))"
      "same_config s3 s'" "skbs s' = skbs s3" "\<forall>e. skb (devs s' e) = skb (devs s3 e)"
      "fresh s' = fresh s3" "\<forall>j. (mem s' j = None) = (mem s3 j = None)" "\<forall>j. frame_of s' j = frame_of s3 j"
      using Suc.IH [OF 3(3), of "n + 1", unfolded fun_upd_same] by blast
    have "rx_queue (devs s d) \<noteq> None"
      using dinv_dev [OF Suc.prems assms(2)] Cons by (simp add: dev_ok_def)
    then have "poll_loop ok (Suc b) n d s = Some (n + min (Suc b) (length (Q d)), s')"
      using deq 2(1) 3(2) s'(1) Cons by simp
    moreover have "dinv s' (P(1 - d := rev (take (Suc b) (Q d)) @ P (1 - d))) (Q(d := drop (Suc b) (Q d)))"
      using s'(2) Cons by (simp add: e_def)
    moreover have "delivered s' = delivered s @ map (\<lambda>i. (d, frame_of s i)) (allocated ok n (take (Suc b) (Q d)))"
      using s'(3) 2(6) 3(5) fr(1) Cons by simp
    moreover have "same_config s s'" "skbs s' = skbs s" "fresh s' = fresh s"
      using s'(4,5,7) 2(3,4) 3(7-10) fr(3) by (simp_all add: same_config_def)
    moreover have "skb (devs s' a) = skb (devs s a)" for a
      using s'(6) 2(5) 3(11) by simp
    moreover have "(mem s' j = None) = (mem s j = None)" "frame_of s' j = frame_of s j" for j
      using s'(8,9) fr by simp_all
    ultimately show ?thesis
      by blast
  qed
qed

lemma poll_ok:
  assumes "dinv s P Q" "d < 2" "0 \<le> budget"
  shows "\<exists>s'. dummeth_poll ok complete budget d s = Some (min (nat budget) (length (Q d)), s')
    \<and> dinv s' (P(1 - d := rev (take (nat budget) (Q d)) @ P (1 - d))) (Q(d := drop (nat budget) (Q d)))
    \<and> delivered s' = delivered s @ map (\<lambda>i. (d, frame_of s i)) (allocated ok 0 (take (nat budget) (Q d)))
    \<and> same_config s s' \<and> skbs s' = skbs s \<and> (\<forall>e. skb (devs s' e) = skb (devs s e))
    \<and> fresh s' = fresh s \<and> (\<forall>j. (mem s' j = None) = (mem s j = None))"
proof -
  obtain s1 where 1: "poll_loop ok (nat budget) 0 d s = Some (min (nat budget) (length (Q d)), s1)"
    "dinv s1 (P(1 - d := rev (take (nat budget) (Q d)) @ P (1 - d))) (Q(d := drop (nat budget) (Q d)))"
    "delivered s1 = delivered s @ map (\<lambda>i. (d, frame_of s i)) (allocated ok 0 (take (nat budget) (Q d)))"
    "same_config s s1" "skbs s1 = skbs s" "\<forall>e. skb (devs s1 e) = skb (devs s e)" "fresh s1 = fresh s"
    "\<forall>j. (mem s1 j = None) = (mem s j = None)"
    using poll_loop_ok [OF assms(1,2), of ok "nat budget" 0] by auto
  define s2 where "s2 = (if int (min (nat budget) (length (Q d))) < budget
    then spin_unlock d (if complete then dummeth_rx_ints d True
        (upd_dev d (\<lambda>v. v\<lparr>napi_scheduled := False\<rparr>) (upd_dev d (\<lambda>v. v\<lparr>locked := True\<rparr>) s1))
      else upd_dev d (\<lambda>v. v\<lparr>locked := True\<rparr>) s1) else s1)"
  have unl: "\<not> locked (devs s1 d)"
    using dinv_dev [OF 1(2) assms(2)] by (simp add: dev_ok_def)
  then have "dummeth_poll ok complete budget d s = Some (min (nat budget) (length (Q d)), s2)"
    using 1(1) by (simp add: dummeth_poll_def spin_lock_def s2_def Let_def)
  moreover have same: "same_chains s1 s2"
    using unl by (simp add: s2_def same_chains_def dummeth_rx_ints_def)
  moreover have "same_config s1 s2" "skbs s2 = skbs s1" "\<forall>e. skb (devs s2 e) = skb (devs s1 e)"
    "delivered s2 = delivered s1"
    by (simp_all add: s2_def dummeth_rx_ints_def)
  ultimately show ?thesis
    using 1 dinv_same_chains [OF same 1(2)] by (auto simp: same_chains_def same_config_def)
qed

end
