(* ===== verification/DummethRun.thy ===== *)
theory DummethRun
  imports Dummeth
begin

text \<open>
  The life of the \<^verbatim>\<open>dummeth\<close> pair in NAPI mode: loading the module, opening the devices, and the
  calls the kernel makes afterwards, as a step relation; the invariant of the reachable
  states and the properties of the driver.
\<close>

section \<open>Building and dropping a pool\<close>

text \<open>An allocator that always succeeds, with blocks of the size of a packet buffer.\<close>

definition kmalloc_ok :: "(nat \<Rightarrow> dummeth_packet option) \<Rightarrow> bool" where
  "kmalloc_ok kmalloc \<longleftrightarrow> (\<forall>i. \<exists>p. kmalloc i = Some p \<and> length (data p) = ETH_DATA_LEN)"

definition mem_fresh :: "dummeth \<Rightarrow> bool" where
  "mem_fresh s \<longleftrightarrow> (\<forall>i\<ge>fresh s. mem s i = None)"

lemma plist_agree: "(\<And>i. i \<in> set xs \<Longrightarrow> m' i = m i) \<Longrightarrow> plist m' h xs = plist m h xs"
  by (induction xs arbitrary: h) (auto split: option.splits)

lemma setup_loop_ok:
  assumes "kmalloc_ok kmalloc" "mem_fresh s" "plist (mem s) (ppool (devs s d)) xs" "\<forall>i\<in>set xs. i < fresh s"
  shows "mem_fresh (setup_loop kmalloc n d s) \<and> fresh (setup_loop kmalloc n d s) = fresh s + n
    \<and> (\<forall>i<fresh s. mem (setup_loop kmalloc n d s) i = mem s i)
    \<and> plist (mem (setup_loop kmalloc n d s)) (ppool (devs (setup_loop kmalloc n d s) d)) (rev [fresh s..<fresh s + n] @ xs)
    \<and> (\<forall>i\<in>{fresh s..<fresh s + n}. owner (setup_loop kmalloc n d s) i d)
    \<and> (\<exists>h. devs (setup_loop kmalloc n d s) = (devs s)(d := (devs s d)\<lparr>ppool := h\<rparr>))
    \<and> same_config s (setup_loop kmalloc n d s) \<and> skbs (setup_loop kmalloc n d s) = skbs s
    \<and> delivered (setup_loop kmalloc n d s) = delivered s"
  using assms(2-4)
proof (induction n arbitrary: s xs)
  case 0
  have "\<exists>h. devs s = (devs s)(d := (devs s d)\<lparr>ppool := h\<rparr>)"
    by (rule exI [of _ "ppool (devs s d)"]) simp
  then show ?case
    using 0 by (simp add: fun_upd_def)
next
  case (Suc n)
  obtain p where p: "kmalloc (fresh s) = Some p" "length (data p) = ETH_DATA_LEN"
    using assms(1) by (auto simp: kmalloc_ok_def)
  define s1 where "s1 = upd_dev d (\<lambda>v. v\<lparr>ppool := Some (fresh s)\<rparr>)
    (s\<lparr>mem := (mem s)(fresh s \<mapsto> p\<lparr>pdev := d, nxt := ppool (devs s d)\<rparr>), fresh := fresh s + 1\<rparr>)"
  have run: "setup_loop kmalloc (Suc n) d s = setup_loop kmalloc n d s1"
    using p(1) by (simp add: s1_def Let_def)
  have "mem_fresh s1" "fresh s1 = Suc (fresh s)"
    using Suc.prems(1) by (simp_all add: s1_def mem_fresh_def)
  moreover have "plist (mem s1) (ppool (devs s1 d)) (fresh s # xs)"
    using Suc.prems(2,3) by (auto simp: s1_def)
  ultimately have IH: "mem_fresh (setup_loop kmalloc n d s1) \<and> fresh (setup_loop kmalloc n d s1) = fresh s1 + n
    \<and> (\<forall>i<fresh s1. mem (setup_loop kmalloc n d s1) i = mem s1 i)
    \<and> plist (mem (setup_loop kmalloc n d s1)) (ppool (devs (setup_loop kmalloc n d s1) d)) (rev [fresh s1..<fresh s1 + n] @ fresh s # xs)
    \<and> (\<forall>i\<in>{fresh s1..<fresh s1 + n}. owner (setup_loop kmalloc n d s1) i d)
    \<and> (\<exists>h. devs (setup_loop kmalloc n d s1) = (devs s1)(d := (devs s1 d)\<lparr>ppool := h\<rparr>))
    \<and> same_config s1 (setup_loop kmalloc n d s1) \<and> skbs (setup_loop kmalloc n d s1) = skbs s1
    \<and> delivered (setup_loop kmalloc n d s1) = delivered s1"
    using Suc.prems(3) by (intro Suc.IH) auto
  have f: "fresh s1 = Suc (fresh s)" "skbs s1 = skbs s" "delivered s1 = delivered s" "same_config s s1"
    "\<forall>i<fresh s. mem s1 i = mem s i" "mem s1 (fresh s) = Some (p\<lparr>pdev := d, nxt := ppool (devs s d)\<rparr>)"
    by (simp_all add: s1_def same_config_def)
  have "rev [fresh s..<fresh s + Suc n] = rev [Suc (fresh s)..<Suc (fresh s) + n] @ [fresh s]"
    by (simp add: upt_conv_Cons del: upt_Suc)
  moreover have "owner (setup_loop kmalloc n d s1) i d" if "i \<in> {fresh s..<fresh s + Suc n}" for i
    using that IH f p(2) by (cases "i = fresh s") (auto simp: owner_def)
  moreover have "\<exists>h. devs (setup_loop kmalloc n d s1) = (devs s)(d := (devs s d)\<lparr>ppool := h\<rparr>)"
    using IH by (auto simp: s1_def)
  moreover have "same_config s (setup_loop kmalloc n d s1)"
    using f(4) IH same_config_trans by blast
  ultimately show ?case
    unfolding run using IH f by (simp add: fun_upd_def)
qed

lemma teardown_eq:
  assumes "plist (mem s) (ppool (devs s d)) xs" "distinct xs"
  shows "dummeth_teardown_pool d s =
    Some ((upd_dev d (\<lambda>v. v\<lparr>ppool := None\<rparr>) s)\<lparr>mem := (\<lambda>i. if i \<in> set xs then None else mem s i)\<rparr>)"
  using assms
proof (induction xs arbitrary: s)
  case Nil
  moreover from Nil have "upd_dev d (\<lambda>v. v\<lparr>ppool := None\<rparr>) s = s"
    by (cases "devs s d") (simp add: upd_dev_def fun_upd_idem)
  ultimately show ?case
    by (subst dummeth_teardown_pool.simps) simp
next
  case (Cons i xs)
  then obtain p where p: "ppool (devs s d) = Some i" "mem s i = Some p" "plist (mem s) (nxt p) xs"
    by (auto split: option.splits)
  let ?s = "(upd_dev d (\<lambda>v. v\<lparr>ppool := nxt p\<rparr>) s)\<lparr>mem := (mem s)(i := None)\<rparr>"
  have "plist ((mem s)(i := None)) (nxt p) xs"
    using Cons.prems(2) p(3) by simp
  then have chain: "plist (mem ?s) (ppool (devs ?s d)) xs"
    by (simp add: fun_upd_def)
  have "dummeth_teardown_pool d s = dummeth_teardown_pool d ?s"
    by (subst dummeth_teardown_pool.simps) (simp add: p)
  also have "\<dots> = Some ((upd_dev d (\<lambda>v. v\<lparr>ppool := None\<rparr>) ?s)\<lparr>mem := (\<lambda>j. if j \<in> set xs then None else mem ?s j)\<rparr>)"
    using Cons.prems(2) by (intro Cons.IH chain) simp
  also have "\<dots> = Some ((upd_dev d (\<lambda>v. v\<lparr>ppool := None\<rparr>) s)\<lparr>mem := (\<lambda>j. if j \<in> set (i # xs) then None else mem s j)\<rparr>)"
  proof -
    have "(\<lambda>j. if j \<in> set xs then None else mem ?s j) = (\<lambda>j. if j \<in> set (i # xs) then None else mem s j)"
      by (auto simp: fun_eq_iff)
    then show ?thesis
      by (simp only: option.inject) (simp add: upd_dev_def)
  qed
  finally show ?case .
qed

text \<open>A device that has lost its pool gets a new one.\<close>

lemma dev_ok_agree:
  assumes "\<And>i. i \<in> set p \<union> set q \<Longrightarrow> mem s' i = mem s i" "devs s' d = devs s d"
  shows "dev_ok s' d p q = dev_ok s d p q"
proof -
  have "owner s' i e = owner s i e \<and> full_frame s' i = full_frame s i" if "i \<in> set p \<union> set q" for i e
    using assms(1) [OF that] by (simp add: owner_def full_frame_def)
  then have "list_all (\<lambda>i. owner s' i d) p = list_all (\<lambda>i. owner s i d) p"
    "list_all (\<lambda>i. owner s' i (1 - d) \<and> full_frame s' i) q = list_all (\<lambda>i. owner s i (1 - d) \<and> full_frame s i) q"
    by (auto simp: list_all_iff)
  moreover have "plist (mem s') h p = plist (mem s) h p" "plist (mem s') h q = plist (mem s) h q" for h
    using assms(1) by (auto intro!: plist_agree)
  ultimately show ?thesis
    using assms(2) by (simp add: dev_ok_def)
qed

definition without_pool :: "nat \<Rightarrow> dummeth \<Rightarrow> dummeth" where
  "without_pool d s = upd_dev d (\<lambda>v. v\<lparr>ppool := None, queue_stopped := True, locked := False\<rparr>) s"

lemma setup_pool_ok:
  assumes k: "kmalloc_ok kmalloc" and fr: "mem_fresh s" and ps: "0 < pool_size s" and d: "d < 2"
    and inv: "dinv (without_pool d s) (P(d := [])) Q"
  shows "\<exists>s' h. spin_unlock d (dummeth_setup_pool kmalloc d s) = s'
    \<and> dinv s' (P(d := rev [fresh s..<fresh s + nat (pool_size s)])) Q
    \<and> mem_fresh s' \<and> same_config s s' \<and> skbs s' = skbs s \<and> delivered s' = delivered s
    \<and> devs s' = (devs s)(d := (devs s d)\<lparr>ppool := h, locked := False\<rparr>)"
proof -
  define n where "n = nat (pool_size s)"
  define s0 where "s0 = upd_dev d (\<lambda>v. v\<lparr>ppool := None\<rparr>) s"
  define s2 where "s2 = setup_loop kmalloc n d s0"
  define s1 where "s1 = spin_unlock d s2"
  define new where "new = rev [fresh s..<fresh s + n]"
  define e where "e = 1 - d"
  have new: "new \<noteq> []" "set new = {fresh s..<fresh s + n}" "distinct new"
    using ps by (auto simp: new_def n_def)
  have run: "spin_unlock d (dummeth_setup_pool kmalloc d s) = s1"
    by (simp add: dummeth_setup_pool_def s1_def s2_def s0_def n_def)
  have s0: "mem_fresh s0" "plist (mem s0) (ppool (devs s0 d)) []" "fresh s0 = fresh s" "mem s0 = mem s"
    "same_config s s0" "skbs s0 = skbs s" "delivered s0 = delivered s"
    using fr by (simp_all add: s0_def mem_fresh_def same_config_def)
  note L = setup_loop_ok [OF k s0(1,2), of n, folded s2_def, simplified]
  have s1: "mem s1 = mem s2" "fresh s1 = fresh s2" "skbs s1 = skbs s2" "delivered s1 = delivered s2"
    "same_config s2 s1" "ppool (devs s1 d) = ppool (devs s2 d)" "owner s1 i d = owner s2 i d" for i
    by (simp_all add: s1_def owner_def)
  obtain h where h: "devs s1 = (devs s)(d := (devs s d)\<lparr>ppool := h, locked := False\<rparr>)"
    using L by (auto simp: s0_def s1_def)
  have low: "i < fresh s" if "i \<in> set (in_lists (P(d := [])) Q)" for i
  proof -
    have "mem s i \<noteq> None"
      using that inv plist_mem
      by (auto simp: in_lists_def dinv_def dev_ok_def without_pool_def split: if_splits)
    then show ?thesis
      using fr by (meson mem_fresh_def not_le)
  qed
  have agree: "mem s1 i = mem s i" if "i \<in> set (in_lists (P(d := [])) Q)" for i
    using L low [OF that] s0 s1(1) by simp
  have e: "e < 2" "e \<noteq> d"
    using d by (auto simp: e_def less_2)
  have "dev_ok (without_pool d s) e ((P(d := [])) e) (Q e)"
    using inv e(1) by (rule dinv_dev)
  moreover have "dev_ok s1 e (P e) (Q e) = dev_ok (without_pool d s) e (P e) (Q e)"
    using agree e d h by (intro dev_ok_agree) (auto simp: without_pool_def in_lists_def less_2)
  ultimately have oke: "dev_ok s1 e (P e) (Q e)"
    using e(2) by simp
  have "dev_ok (without_pool d s) d [] (Q d)"
    using dinv_dev [OF inv d] by simp
  moreover have "dev_ok (s1\<lparr>devs := devs (without_pool d s)\<rparr>) d [] (Q d) = dev_ok (without_pool d s) d [] (Q d)"
    using agree d by (intro dev_ok_agree) (auto simp: without_pool_def in_lists_def less_2)
  ultimately have "dev_ok s1 d new (Q d)"
    using L new h s0 s1 by (auto simp: dev_ok_def without_pool_def new_def list_all_iff owner_def full_frame_def)
  with oke have "dev_ok s1 0 ((P(d := new)) 0) (Q 0) \<and> dev_ok s1 1 ((P(d := new)) 1) (Q 1)"
    using d by (auto simp: e_def less_2)
  moreover have "distinct (in_lists (P(d := new)) Q)"
  proof -
    have "set new \<inter> set (in_lists (P(d := [])) Q) = {}"
      using low new(2) by fastforce
    moreover have "distinct (in_lists (P(d := [])) Q)"
      using inv by (simp add: dinv_def)
    ultimately show ?thesis
      using new(3) d by (auto simp: in_lists_def less_2)
  qed
  ultimately have "dinv s1 (P(d := new)) Q"
    by (simp add: dinv_def)
  then show ?thesis
    unfolding run using L s0 h s1 by (auto simp: new_def n_def same_config_def mem_fresh_def)
qed

lemma mem_fresh_same_chains: "same_chains s s' \<Longrightarrow> mem_fresh s' = mem_fresh s"
  by (simp add: same_chains_def mem_fresh_def)

lemma skb_inv_cong:
  "\<lbrakk>skbs s' = skbs s; \<forall>e. skb (devs s' e) = skb (devs s e)\<rbrakk> \<Longrightarrow> skb_inv s' = skb_inv s"
  by (simp add: skb_inv_def)

lemma teardown_dinv:
  assumes inv: "dinv s P Q" and d: "d < 2"
  shows "dinv (without_pool d ((upd_dev d (\<lambda>v. v\<lparr>ppool := None\<rparr>) s)\<lparr>mem := (\<lambda>i. if i \<in> set (P d) then None else mem s i)\<rparr>))
    (P(d := [])) Q" (is "dinv ?s _ _")
proof -
  define e where "e = 1 - d"
  have e: "e < 2" "e \<noteq> d"
    using d by (auto simp: e_def less_2)
  have dist: "distinct (in_lists P Q)"
    using inv by (simp add: dinv_def)
  have "dev_ok ?s e (P e) (Q e) = dev_ok s e (P e) (Q e)"
    using e d dist by (intro dev_ok_agree) (auto simp: without_pool_def in_lists_def less_2)
  then have oke: "dev_ok ?s e (P e) (Q e)"
    using dinv_dev [OF inv e(1)] by simp
  have "dev_ok ?s d [] (Q d) = dev_ok (without_pool d s) d [] (Q d)"
    using d dist by (intro dev_ok_agree) (auto simp: without_pool_def in_lists_def less_2)
  moreover have "dev_ok (without_pool d s) d [] (Q d)"
    using dinv_dev [OF inv d] by (simp add: dev_ok_def without_pool_def)
  ultimately have "dev_ok ?s d [] (Q d)"
    by simp
  with oke have "dev_ok ?s 0 ((P(d := [])) 0) (Q 0) \<and> dev_ok ?s 1 ((P(d := [])) 1) (Q 1)"
    using d by (auto simp: e_def less_2)
  moreover have "distinct (in_lists (P(d := [])) Q)"
    using dist d by (auto simp: in_lists_def less_2)
  ultimately show ?thesis
    by (simp add: dinv_def)
qed

lemma tx_timeout_ok:
  assumes k: "kmalloc_ok kmalloc" and inv: "dinv s P Q" and skb: "skb_inv s" and napi: "use_napi s"
    and fr: "mem_fresh s" and ps: "0 < pool_size s" and d: "d < 2"
  shows "\<exists>s'. dummeth_tx_timeout kmalloc ok d s = Some s'
    \<and> dinv s' (P(d := rev [fresh s..<fresh s + nat (pool_size s)])) Q
    \<and> skb_inv s' \<and> same_config s s' \<and> mem_fresh s' \<and> delivered s' = delivered s"
proof -
  let ?s0 = "upd_dev d (\<lambda>v. v\<lparr>status := status v OR DUMMETH_TX_INTR\<rparr>) s"
  have c0: "same_chains s ?s0" "skb_inv ?s0" "\<not> locked (devs ?s0 d)"
    using dinv_dev [OF inv d] skb by (auto intro: same_chains_upd_dev simp: skb_inv_upd_dev dev_ok_def)
  obtain s1 where 1: "dummeth_interrupt ok d ?s0 = Some s1" "same_chains ?s0 s1" "skb_inv s1"
    "same_config ?s0 s1" "delivered s1 = delivered s"
    using napi_interrupt_ok [OF c0(3,2) d] napi by (auto simp: dummeth_interrupt_def)
  define s2 where "s2 = upd_dev d (\<lambda>v. v\<lparr>tx_errors := tx_errors v + 1\<rparr>) s1"
  have "same_chains s1 s2"
    unfolding s2_def by (rule same_chains_upd_dev) simp_all
  then have c2: "same_chains s s2"
    using c0(1) 1(2) same_chains_trans by blast
  have inv2: "dinv s2 P Q" and fr2: "fresh s2 = fresh s" "mem_fresh s2"
    using dinv_same_chains [OF c2 inv] mem_fresh_same_chains [OF c2] fr c2 by (auto simp: same_chains_def)
  let ?s3 = "upd_dev d (\<lambda>v. v\<lparr>locked := True\<rparr>) s2"
  have lock: "spin_lock d s2 = Some ?s3"
    using dinv_dev [OF inv2 d] by (simp add: spin_lock_def dev_ok_def)
  have "plist (mem ?s3) (ppool (devs ?s3 d)) (P d)" "distinct (P d)"
    using inv2 d dinv_dev [OF inv2 d] by (auto simp: dev_ok_def dinv_def in_lists_def less_2)
  from teardown_eq [OF this]
  have td: "dummeth_teardown_pool d ?s3 = Some ((upd_dev d (\<lambda>v. v\<lparr>ppool := None\<rparr>) ?s3)
      \<lparr>mem := (\<lambda>i. if i \<in> set (P d) then None else mem ?s3 i)\<rparr>)" .
  define s4 where "s4 = (upd_dev d (\<lambda>v. v\<lparr>ppool := None\<rparr>) ?s3)\<lparr>mem := (\<lambda>i. if i \<in> set (P d) then None else mem ?s3 i)\<rparr>"
  have "without_pool d s4 = without_pool d ((upd_dev d (\<lambda>v. v\<lparr>ppool := None\<rparr>) s2)
      \<lparr>mem := (\<lambda>i. if i \<in> set (P d) then None else mem s2 i)\<rparr>)"
    unfolding s4_def without_pool_def upd_dev_simps(1) by (simp add: upd_dev_def)
  then have inv4: "dinv (without_pool d s4) (P(d := [])) Q"
    using teardown_dinv [OF inv2 d] by simp
  have s4: "mem_fresh s4" "fresh s4 = fresh s" "pool_size s4 = pool_size s" "skbs s4 = skbs s1"
    "same_config s s4" "delivered s4 = delivered s" "\<forall>e. skb (devs s4 e) = skb (devs s1 e)"
    using fr2 1(4,5) by (auto simp: s4_def s2_def mem_fresh_def same_config_def)
  have ps4: "0 < pool_size s4"
    using ps s4(3) by simp
  obtain s5 h where 5: "spin_unlock d (dummeth_setup_pool kmalloc d s4) = s5"
    "dinv s5 (P(d := rev [fresh s..<fresh s + nat (pool_size s)])) Q" "mem_fresh s5" "same_config s4 s5"
    "skbs s5 = skbs s4" "delivered s5 = delivered s4"
    "devs s5 = (devs s4)(d := (devs s4 d)\<lparr>ppool := h, locked := False\<rparr>)"
    using setup_pool_ok [OF k s4(1) ps4 d inv4] s4(2,3) by auto
  let ?s6 = "upd_dev d (\<lambda>v. v\<lparr>queue_stopped := False\<rparr>) s5"
  have "dummeth_tx_timeout kmalloc ok d s = Some ?s6"
    using 1(1) lock td 5(1) by (simp add: dummeth_tx_timeout_def Let_def flip: s2_def s4_def)
  moreover have "dinv ?s6 (P(d := rev [fresh s..<fresh s + nat (pool_size s)])) Q"
  proof -
    have "rev [fresh s..<fresh s + nat (pool_size s)] \<noteq> []"
      using ps by simp
    then show ?thesis
      using 5(2) d by (auto simp: dinv_def less_2 dev_ok_def)
  qed
  moreover have "skb_inv ?s6"
    using 1(3) 5(5,7) s4(4,7) skb_inv_cong [of ?s6 s1] by simp
  moreover have "same_config s ?s6" "mem_fresh ?s6" "delivered ?s6 = delivered s"
    using 5(3,4,6) s4(5,6) by (auto simp: same_config_def mem_fresh_def)
  ultimately show ?thesis
    by blast
qed

section \<open>Loading the module\<close>

text \<open>Before the module is loaded there are no buffers and no devices.\<close>

definition boot :: "u64 \<Rightarrow> int \<Rightarrow> dummeth" where
  "boot lk psize = \<lparr>use_napi = True, lockup = lk, pool_size = psize, mem = (\<lambda>_. None), fresh = 0,
     devs = (\<lambda>_. zero_priv\<lparr>queue_stopped := True\<rparr>), skbs = [], delivered = []\<rparr>"

lemma spin_unlock_idle: "\<not> locked (devs s d) \<Longrightarrow> spin_unlock d s = s"
  by (cases "devs s d") (simp add: spin_unlock_def upd_dev_def fun_upd_idem)

lemma setup_ok:
  assumes k: "kmalloc_ok kmalloc" and fr: "mem_fresh s" and ps: "0 < pool_size s" and d: "d < 2"
    and inv: "dinv s (P(d := [])) (Q(d := []))"
  shows "\<exists>s'. dummeth_setup kmalloc d s = s'
    \<and> dinv s' (P(d := rev [fresh s..<fresh s + nat (pool_size s)])) (Q(d := []))
    \<and> mem_fresh s' \<and> same_config s s' \<and> skbs s' = skbs s \<and> delivered s' = delivered s
    \<and> skb (devs s' d) = None \<and> (\<forall>e. e \<noteq> d \<longrightarrow> devs s' e = devs s e)"
proof -
  let ?s = "dummeth_rx_ints d True (upd_dev d (\<lambda>_. zero_priv) s)"
  have s: "mem_fresh ?s" "0 < pool_size ?s" "fresh ?s = fresh s" "pool_size ?s = pool_size s"
    "\<not> locked (devs ?s d)" "same_config s ?s" "skbs ?s = skbs s" "delivered ?s = delivered s"
    "skb (devs ?s d) = None" "\<forall>e. e \<noteq> d \<longrightarrow> devs ?s e = devs s e"
    using fr ps by (simp_all add: dummeth_rx_ints_def mem_fresh_def zero_priv_def)
  have "dinv (without_pool d ?s) (P(d := [])) (Q(d := []))"
    using inv d by (auto simp: dinv_def less_2 dev_ok_def without_pool_def dummeth_rx_ints_def zero_priv_def)
  from setup_pool_ok [OF k s(1,2) d this] obtain s' h where
    5: "spin_unlock d (dummeth_setup_pool kmalloc d ?s) = s'"
    "dinv s' (P(d := rev [fresh s..<fresh s + nat (pool_size s)])) (Q(d := []))" "mem_fresh s'"
    "same_config ?s s'" "skbs s' = skbs ?s" "delivered s' = delivered ?s"
    "devs s' = (devs ?s)(d := (devs ?s d)\<lparr>ppool := h, locked := False\<rparr>)"
    unfolding s(3,4) by blast
  have unl: "\<not> locked (devs (setup_loop kmalloc n d t) d)" if "\<not> locked (devs t d)" for n t
    using that by (induction n arbitrary: t) (auto simp: Let_def split: option.splits)
  have "\<not> locked (devs (dummeth_setup_pool kmalloc d ?s) d)"
    unfolding dummeth_setup_pool_def using s(5) by (intro unl) simp
  then have "dummeth_setup kmalloc d s = s'"
    using 5(1) by (simp add: dummeth_setup_def spin_unlock_idle)
  moreover have "same_config s s'"
    using s(6) 5(4) same_config_trans by blast
  ultimately show ?thesis
    using 5 s by simp
qed

lemma open_dinv:
  assumes "dinv s P Q" "P d \<noteq> []" "d < 2"
  shows "dinv (dummeth_open d s) P Q"
  using assms by (auto simp: dummeth_open_def dinv_def less_2 dev_ok_def)

lemma open_simps [simp]:
  "use_napi (dummeth_open d s) = use_napi s" "pool_size (dummeth_open d s) = pool_size s"
  "mem_fresh (dummeth_open d s) = mem_fresh s" "skb_inv (dummeth_open d s) = skb_inv s"
  "delivered (dummeth_open d s) = delivered s" "fresh (dummeth_open d s) = fresh s" "skbs (dummeth_open d s) = skbs s"
  by (simp_all add: dummeth_open_def mem_fresh_def skb_inv_upd_dev)

definition run_inv :: "dummeth \<Rightarrow> (nat \<Rightarrow> nat list) \<Rightarrow> (nat \<Rightarrow> nat list) \<Rightarrow> bool" where
  "run_inv s P Q \<longleftrightarrow> dinv s P Q \<and> use_napi s \<and> 0 < pool_size s \<and> mem_fresh s \<and> skb_inv s"

definition load :: "(nat \<Rightarrow> dummeth_packet option) \<Rightarrow> u64 \<Rightarrow> int \<Rightarrow> dummeth" where
  "load kmalloc lk psize =
     (case dummeth_init_module kmalloc (\<lambda>_. True) (\<lambda>_. 0) (boot lk psize) of
        (_, _, s) \<Rightarrow> dummeth_open 1 (dummeth_open 0 s))"

lemma load_module_ok:
  assumes k: "kmalloc_ok kmalloc" and ps: "0 < psize"
  shows "\<exists>P Q. run_inv (load kmalloc lk psize) P Q \<and> length (P 0) = nat psize \<and> length (P 1) = nat psize
    \<and> Q 0 = [] \<and> Q 1 = []"
proof -
  let ?b = "boot lk psize" and ?Q = "\<lambda>_ :: nat. [] :: nat list"
  have b: "dinv ?b (?Q(0 := [])) (?Q(0 := []))" "mem_fresh ?b" "0 < pool_size ?b" "pool_size ?b = psize"
    using ps by (simp_all add: boot_def dinv_def dev_ok_def in_lists_def zero_priv_def mem_fresh_def)
  obtain s0 where 0: "dummeth_setup kmalloc 0 ?b = s0"
    "dinv s0 (?Q(0 := rev [fresh ?b..<fresh ?b + nat psize])) (?Q(0 := []))"
    "mem_fresh s0" "same_config ?b s0" "skbs s0 = skbs ?b" "delivered s0 = delivered ?b"
    "skb (devs s0 0) = None" "\<forall>e. e \<noteq> 0 \<longrightarrow> devs s0 e = devs ?b e"
    using setup_ok [OF k b(2,3) _ b(1)] b(4) by auto
  let ?P = "?Q(0 := rev [fresh ?b..<fresh ?b + nat psize])"
  have p1: "?P(1 := []) = ?P" and q1: "?Q(1 := []) = ?Q(0 := [])"
    by (simp_all add: fun_eq_iff)
  have i0: "dinv s0 (?P(1 := [])) (?Q(1 := []))"
    unfolding p1 q1 by (rule 0(2))
  have ps0: "0 < pool_size s0" "pool_size s0 = psize"
    using 0(4) b by (simp_all add: same_config_def)
  obtain s1 where 1: "dummeth_setup kmalloc 1 s0 = s1"
    "dinv s1 (?P(1 := rev [fresh s0..<fresh s0 + nat psize])) (?Q(1 := []))"
    "mem_fresh s1" "same_config s0 s1" "skbs s1 = skbs s0" "delivered s1 = delivered s0"
    "skb (devs s1 1) = None" "\<forall>e. e \<noteq> 1 \<longrightarrow> devs s1 e = devs s0 e"
    using setup_ok [OF k 0(3) ps0(1) _ i0] ps0(2) by auto
  let ?P1 = "?P(1 := rev [fresh s0..<fresh s0 + nat psize])"
  have load: "load kmalloc lk psize = dummeth_open 1 (dummeth_open 0 s1)"
    using 0(1) 1(1) by (simp add: load_def dummeth_init_module_def Let_def)
  have "dinv (dummeth_open 1 (dummeth_open 0 s1)) ?P1 (?Q(1 := []))"
    using 1(2) ps by (intro open_dinv) auto
  moreover have "skb_inv s1" "use_napi s1"
    using 0(4,5,7) 1(4,5,7,8) by (auto simp: skb_inv_def less_2 boot_def same_config_def)
  ultimately have "run_inv (load kmalloc lk psize) ?P1 (?Q(1 := []))"
    unfolding load run_inv_def using 1(3,4) ps0 ps by (simp add: same_config_def)
  then show ?thesis
    by fastforce
qed

section \<open>The running driver\<close>

text \<open>
  What the kernel does with the open devices: it transmits only while the queue is not
  stopped, polls, delivers interrupts, reports transmit timeouts, changes the MTU and
  stops a device.  The frames are those the driver can carry.
\<close>

inductive dstep :: "(u8 list \<Rightarrow> u16) \<Rightarrow> dummeth \<Rightarrow> dummeth \<Rightarrow> bool" for csum where
  st_xmit: "\<lbrakk>d < 2; \<not> queue_stopped (devs s d); k \<notin> set (skbs s); good_frame csum bytes;
     dummeth_xmit csum ok k bytes d s = Some s'\<rbrakk> \<Longrightarrow> dstep csum s s'"
| st_poll: "\<lbrakk>d < 2; 0 \<le> budget; dummeth_poll okf complete budget d s = Some (n, s')\<rbrakk> \<Longrightarrow> dstep csum s s'"
| st_intr: "\<lbrakk>d < 2; dummeth_interrupt ok d s = Some s'\<rbrakk> \<Longrightarrow> dstep csum s s'"
| st_timeout: "\<lbrakk>d < 2; kmalloc_ok kmalloc; dummeth_tx_timeout kmalloc ok d s = Some s'\<rbrakk> \<Longrightarrow> dstep csum s s'"
| st_mtu: "\<lbrakk>d < 2; dummeth_change_mtu d m s = Some (r, s')\<rbrakk> \<Longrightarrow> dstep csum s s'"
| st_stop: "d < 2 \<Longrightarrow> dstep csum s (dummeth_stop d s)"

inductive dreach :: "(u8 list \<Rightarrow> u16) \<Rightarrow> dummeth \<Rightarrow> bool" for csum where
  dr_load: "\<lbrakk>kmalloc_ok kmalloc; 0 < psize\<rbrakk> \<Longrightarrow> dreach csum (load kmalloc lk psize)"
| dr_step: "\<lbrakk>dreach csum s; dstep csum s s'\<rbrakk> \<Longrightarrow> dreach csum s'"

lemma run_inv_same:
  assumes "same_chains s s'" "same_config s s'" "skb_inv s'" "run_inv s P Q"
  shows "run_inv s' P Q"
  using assms dinv_same_chains [OF assms(1)] mem_fresh_same_chains [OF assms(1)]
  by (simp add: run_inv_def same_config_def)

lemma mem_fresh_dom: "\<lbrakk>fresh s' = fresh s; \<forall>j. (mem s' j = None) = (mem s j = None)\<rbrakk> \<Longrightarrow> mem_fresh s' = mem_fresh s"
  by (simp add: mem_fresh_def)

lemma run_inv_unlocked: "\<lbrakk>run_inv s P Q; d < 2\<rbrakk> \<Longrightarrow> \<not> locked (devs s d)"
  using dinv_dev [of s P Q d] by (simp add: run_inv_def dev_ok_def)

lemma run_inv_xmit:
  assumes inv: "run_inv s P Q" and d: "d < 2" "\<not> queue_stopped (devs s d)" "k \<notin> set (skbs s)" "good_frame csum bytes"
  shows "\<exists>i xs s'. P d = i # xs \<and> dummeth_xmit csum ok k bytes d s = Some s'
    \<and> run_inv s' (P(d := xs)) (Q(1 - d := i # Q (1 - d)))
    \<and> delivered s' = delivered s \<and> set (skbs s') \<subseteq> insert k (set (skbs s))
    \<and> (\<forall>j. frame_of s' j = (if j = i then sent_frame csum bytes else frame_of s j))"
proof -
  have r: "dinv s P Q" "use_napi s" "0 < pool_size s" "mem_fresh s" "skb_inv s"
    using inv by (simp_all add: run_inv_def)
  then obtain i xs where P: "P d = i # xs"
    using dinv_dev [OF r(1) d(1)] d(2) by (cases "P d") (auto simp: dev_ok_def)
  obtain s' where "dummeth_xmit csum ok k bytes d s = Some s'"
    "dinv s' (P(d := xs)) (Q(1 - d := i # Q (1 - d)))" "skb_inv s'" "same_config s s'"
    "delivered s' = delivered s" "fresh s' = fresh s" "set (skbs s') \<subseteq> insert k (set (skbs s))"
    "\<forall>j. frame_of s' j = (if j = i then sent_frame csum bytes else frame_of s j)"
    "\<forall>j. (mem s' j = None) = (mem s j = None)"
    using xmit_ok [OF r(1,5,2) d(1) P d(3,4), of ok] by blast
  then show ?thesis
    using P r mem_fresh_dom [of s' s] by (auto simp: run_inv_def same_config_def)
qed

lemma run_inv_poll:
  assumes inv: "run_inv s P Q" and d: "d < 2" "0 \<le> budget"
  shows "\<exists>s'. dummeth_poll ok complete budget d s = Some (min (nat budget) (length (Q d)), s')
    \<and> run_inv s' (P(1 - d := rev (take (nat budget) (Q d)) @ P (1 - d))) (Q(d := drop (nat budget) (Q d)))
    \<and> delivered s' = delivered s @ map (\<lambda>i. (d, frame_of s i)) (allocated ok 0 (take (nat budget) (Q d)))"
proof -
  have r: "dinv s P Q" "use_napi s" "0 < pool_size s" "mem_fresh s" "skb_inv s"
    using inv by (simp_all add: run_inv_def)
  from poll_ok [OF r(1) d, of ok complete] obtain s' where
    "dummeth_poll ok complete budget d s = Some (min (nat budget) (length (Q d)), s')"
    "dinv s' (P(1 - d := rev (take (nat budget) (Q d)) @ P (1 - d))) (Q(d := drop (nat budget) (Q d)))"
    "delivered s' = delivered s @ map (\<lambda>i. (d, frame_of s i)) (allocated ok 0 (take (nat budget) (Q d)))"
    "same_config s s'" "skbs s' = skbs s" "\<forall>e. skb (devs s' e) = skb (devs s e)"
    "fresh s' = fresh s" "\<forall>j. (mem s' j = None) = (mem s j = None)"
    by blast
  then show ?thesis
    using r mem_fresh_dom [of s' s] skb_inv_cong [of s' s] by (auto simp: run_inv_def same_config_def)
qed

lemma run_inv_intr:
  assumes "run_inv s P Q" "d < 2"
  shows "\<exists>s'. dummeth_interrupt ok d s = Some s' \<and> run_inv s' P Q"
  using napi_interrupt_ok [OF run_inv_unlocked [OF assms] _ assms(2)] assms(1) run_inv_same
  by (fastforce simp: dummeth_interrupt_def run_inv_def)

lemma run_inv_mtu:
  assumes "run_inv s P Q" "d < 2"
  shows "\<exists>r s'. dummeth_change_mtu d m s = Some (r, s') \<and> run_inv s' P Q"
proof -
  let ?s = "spin_unlock d (upd_dev d (\<lambda>v. v\<lparr>mtu := m\<rparr>) (upd_dev d (\<lambda>v. v\<lparr>locked := True\<rparr>) s))"
  have unl: "\<not> locked (devs s d)"
    using assms by (rule run_inv_unlocked)
  then have "same_chains s ?s" "same_config s ?s" "skb_inv ?s = skb_inv s"
    by (auto simp: same_chains_def intro!: skb_inv_cong)
  then have "run_inv ?s P Q"
    using assms(1) run_inv_same by (auto simp: run_inv_def)
  then show ?thesis
    using assms(1) unl by (auto simp: dummeth_change_mtu_def spin_lock_def)
qed

lemma run_inv_timeout:
  assumes "run_inv s P Q" "d < 2" "kmalloc_ok kmalloc"
  shows "\<exists>s' new. dummeth_tx_timeout kmalloc ok d s = Some s' \<and> run_inv s' (P(d := new)) Q
    \<and> length new = nat (pool_size s) \<and> delivered s' = delivered s"
proof -
  have r: "dinv s P Q" "use_napi s" "0 < pool_size s" "mem_fresh s" "skb_inv s"
    using assms(1) by (simp_all add: run_inv_def)
  from tx_timeout_ok [OF assms(3) r(1,5,2,4,3) assms(2), of ok] obtain s' where
    s': "dummeth_tx_timeout kmalloc ok d s = Some s'"
    "dinv s' (P(d := rev [fresh s..<fresh s + nat (pool_size s)])) Q"
    "skb_inv s'" "same_config s s'" "mem_fresh s'" "delivered s' = delivered s"
    by blast
  then have "run_inv s' (P(d := rev [fresh s..<fresh s + nat (pool_size s)])) Q"
    using r by (simp add: run_inv_def same_config_def)
  moreover have "length (rev [fresh s..<fresh s + nat (pool_size s)]) = nat (pool_size s)"
    by simp
  ultimately show ?thesis
    using s'(1,6) by blast
qed

lemma run_inv_stop: "run_inv s P Q \<Longrightarrow> run_inv (dummeth_stop d s) P Q"
  by (rule run_inv_same [of s])
    (auto simp: dummeth_stop_def same_chains_def run_inv_def skb_inv_upd_dev)

lemma run_inv_step:
  assumes "dstep csum s s'" "run_inv s P Q"
  shows "\<exists>P Q. run_inv s' P Q"
  using assms(1)
proof cases
  case (st_xmit d k bytes ok)
  then show ?thesis
    using run_inv_xmit [OF assms(2), of d k csum bytes ok] by auto
next
  case (st_poll d budget okf complete n)
  then show ?thesis
    using run_inv_poll [OF assms(2), of d budget okf complete] by auto
next
  case (st_intr d ok)
  then show ?thesis
    using run_inv_intr [OF assms(2), of d ok] by auto
next
  case (st_timeout d kmalloc ok)
  then show ?thesis
    using run_inv_timeout [OF assms(2), of d kmalloc ok] by auto
next
  case (st_mtu d m r)
  then show ?thesis
    using run_inv_mtu [OF assms(2), of d m] by auto
next
  case (st_stop d)
  then show ?thesis
    using run_inv_stop [OF assms(2)] by auto
qed

lemma dreach_inv: "dreach csum s \<Longrightarrow> \<exists>P Q. run_inv s P Q"
proof (induction rule: dreach.induct)
  case (dr_load kmalloc psize lk)
  then show ?case
    using load_module_ok [of kmalloc psize lk] by blast
next
  case (dr_step s s')
  then show ?case
    using run_inv_step by blast
qed

text \<open>Several frames sent one after the other.\<close>

fun xmit_all :: "(u8 list \<Rightarrow> u16) \<Rightarrow> bool \<Rightarrow> nat \<Rightarrow> (nat \<times> u8 list) list \<Rightarrow> dummeth \<Rightarrow> dummeth option" where
  "xmit_all csum ok d [] s = Some s"
| "xmit_all csum ok d ((k, bytes) # fs) s =
     do { s \<leftarrow> dummeth_xmit csum ok k bytes d s; xmit_all csum ok d fs s }"

lemma xmit_all_ok:
  assumes "run_inv s P Q" "d < 2" "length fs \<le> length (P d)" "distinct (map fst fs)"
    "set (map fst fs) \<inter> set (skbs s) = {}" "\<forall>(k, b)\<in>set fs. good_frame csum b"
  shows "\<exists>s' P' is. xmit_all csum ok d fs s = Some s' \<and> run_inv s' P' (Q(1 - d := rev is @ Q (1 - d)))
    \<and> map (frame_of s') is = map (\<lambda>(k, b). sent_frame csum b) fs \<and> distinct is \<and> set is \<subseteq> set (P d)
    \<and> (\<forall>j. j \<notin> set is \<longrightarrow> frame_of s' j = frame_of s j) \<and> delivered s' = delivered s"
  using assms
proof (induction fs arbitrary: s P Q)
  case Nil
  then have "run_inv s P (Q(1 - d := rev [] @ Q (1 - d)))"
    by (simp only: rev.simps append_Nil fun_upd_triv)
  then show ?case
    by (intro exI [of _ s] exI [of _ P] exI [of _ "[]"]) (simp add: fun_upd_def)
next
  case (Cons f fs)
  obtain k b where f: "f = (k, b)"
    by (cases f)
  obtain i xs where P: "P d = i # xs"
    using Cons.prems(3) by (cases "P d") auto
  have r: "dinv s P Q" "use_napi s" "0 < pool_size s" "mem_fresh s" "skb_inv s"
    using Cons.prems(1) by (simp_all add: run_inv_def)
  have k: "k \<notin> set (skbs s)" "good_frame csum b"
    using Cons.prems(5,6) f by auto
  obtain s1 where 1: "dummeth_xmit csum ok k b d s = Some s1"
    "dinv s1 (P(d := xs)) (Q(1 - d := i # Q (1 - d)))" "skb_inv s1" "same_config s s1"
    "delivered s1 = delivered s" "fresh s1 = fresh s" "set (skbs s1) \<subseteq> insert k (set (skbs s))"
    "\<forall>j. frame_of s1 j = (if j = i then sent_frame csum b else frame_of s j)"
    "\<forall>j. (mem s1 j = None) = (mem s j = None)"
    using xmit_ok [OF r(1,5,2) Cons.prems(2) P k, of ok] by blast
  have inv1: "run_inv s1 (P(d := xs)) (Q(1 - d := i # Q (1 - d)))"
    using 1 r mem_fresh_dom [of s1 s] by (simp add: run_inv_def same_config_def)
  have i: "i \<notin> set xs"
    using r(1) P Cons.prems(2) by (auto simp: dinv_def in_lists_def less_2)
  have "\<exists>s' P' is. xmit_all csum ok d fs s1 = Some s'
    \<and> run_inv s' P' ((Q(1 - d := i # Q (1 - d)))(1 - d := rev is @ (Q(1 - d := i # Q (1 - d))) (1 - d)))
    \<and> map (frame_of s') is = map (\<lambda>(k, b). sent_frame csum b) fs \<and> distinct is \<and> set is \<subseteq> set ((P(d := xs)) d)
    \<and> (\<forall>j. j \<notin> set is \<longrightarrow> frame_of s' j = frame_of s1 j) \<and> delivered s' = delivered s1"
    using Cons.prems(2-6) f P 1(7) by (intro Cons.IH [OF inv1]) auto
  then obtain s' P' "is" where "xmit_all csum ok d fs s1 = Some s'"
    "run_inv s' P' (Q(1 - d := rev is @ i # Q (1 - d)))"
    "map (frame_of s') is = map (\<lambda>(k, b). sent_frame csum b) fs" "distinct is" "set is \<subseteq> set xs"
    "\<forall>j. j \<notin> set is \<longrightarrow> frame_of s' j = frame_of s1 j" "delivered s' = delivered s1"
    unfolding fun_upd_same fun_upd_upd by blast
  moreover from this i have "i \<notin> set is"
    by auto
  ultimately show ?case
    using 1(1,5,8) P f
    by (intro exI [of _ s'] exI [of _ P'] exI [of _ "i # is"]) (auto simp: fun_upd_def)
qed

lemma allocated_all [simp]: "allocated (\<lambda>_. True) n is = is"
  by (induction "is" arbitrary: n) auto

lemma load_idle:
  "skbs (load kmalloc lk psize) = [] \<and> delivered (load kmalloc lk psize) = []
    \<and> (d < 2 \<longrightarrow> \<not> queue_stopped (devs (load kmalloc lk psize) d))"
proof -
  have "skbs (setup_loop kmalloc n e t) = skbs t \<and> delivered (setup_loop kmalloc n e t) = delivered t" for n e t
    by (induction n arbitrary: t) (auto simp: Let_def split: option.splits)
  then show ?thesis
    by (auto simp: load_def dummeth_init_module_def Let_def dummeth_setup_def dummeth_setup_pool_def
        dummeth_rx_ints_def boot_def less_2) (auto simp: dummeth_open_def)
qed

text \<open>A concrete allocator and a checksum function for the examples.\<close>

definition demo_kmalloc :: "nat \<Rightarrow> dummeth_packet option" where
  "demo_kmalloc i = Some \<lparr>nxt = None, pdev = 0, datalen = 0, data = replicate ETH_DATA_LEN 0\<rparr>"

definition demo_frame :: "u8 list" where
  "demo_frame = [0, 0x44, 0x45, 0x54, 0x48, 0x31, 0, 0x44, 0x45, 0x54, 0x48, 0x30, 8, 0,
     69, 0, 0, 28, 0, 0, 0, 0, 64, 17, 0, 0, 192, 168, 0, 1, 192, 168, 0, 2] @ replicate 26 0"

lemma demo_kmalloc_ok: "kmalloc_ok demo_kmalloc"
  by (simp add: kmalloc_ok_def demo_kmalloc_def)

lemma demo_frame_good: "good_frame (\<lambda>_. 7) demo_frame"
  by (simp add: good_frame_def demo_frame_def pad_frame_def rewrite_frame_def Let_def)

section \<open>Properties\<close>



text \<open>
  C20.  What is sent on one device arrives on the other, each frame rewritten once, and in the
  reverse order when several are sent before the receiver polls.
\<close>

theorem dummeth_burst_reversed:
  assumes "kmalloc_ok kmalloc" "0 < psize" "d < 2" "length fs \<le> nat psize" "distinct (map fst fs)"
    "list_all (\<lambda>(k, b). good_frame csum b) fs"
  shows "\<exists>s s'. xmit_all csum ok d fs (load kmalloc lk psize) = Some s
    \<and> dummeth_poll (\<lambda>_. True) complete (int (length fs)) (1 - d) s = Some (length fs, s')
    \<and> delivered s' = map (\<lambda>(k, b). (1 - d, sent_frame csum b)) (rev fs)"
proof -
  let ?s = "load kmalloc lk psize"
  obtain P Q where inv: "run_inv ?s P Q" and P: "length (P 0) = nat psize" "length (P 1) = nat psize"
    and Q: "Q 0 = []" "Q 1 = []"
    using load_module_ok [OF assms(1,2), of lk] by blast
  have ini: "skbs ?s = []" "delivered ?s = []"
    using load_idle by auto
  have d: "length (P d) = nat psize" "Q (1 - d) = []" "1 - d < 2"
    using P Q assms(3) by (auto simp: less_2)
  have "\<forall>(k, b)\<in>set fs. good_frame csum b"
    using assms(6) by (auto simp: list_all_iff)
  then obtain s P' "is" where s: "xmit_all csum ok d fs ?s = Some s"
    "run_inv s P' (Q(1 - d := rev is @ Q (1 - d)))"
    "map (frame_of s) is = map (\<lambda>(k, b). sent_frame csum b) fs" "delivered s = delivered ?s"
    using xmit_all_ok [OF inv assms(3), of fs csum ok] assms(4,5) d(1) ini(1) by auto
  have len: "length is = length fs"
    using arg_cong [where f = length, OF s(3)] by simp
  obtain s' where s': "dummeth_poll (\<lambda>_. True) complete (int (length fs)) (1 - d) s = Some (length fs, s')"
    "delivered s' = delivered s @ map (\<lambda>i. (1 - d, frame_of s i)) (rev is)"
    using run_inv_poll [OF s(2) d(3), of "int (length fs)" "\<lambda>_. True" complete] len d(2) by auto
  have "map (\<lambda>i. (1 - d, frame_of s i)) (rev is) = rev (map (Pair (1 - d)) (map (frame_of s) is))"
    by (simp add: rev_map comp_def)
  also have "\<dots> = map (\<lambda>(k, b). (1 - d, sent_frame csum b)) (rev fs)"
    unfolding s(3) by (simp add: rev_map comp_def case_prod_beta)
  finally show ?thesis
    using s s' ini by auto
qed

theorem dummeth_burst_reversed_witness:
  "\<exists>s s'. xmit_all (\<lambda>_. 7) True 0 [(1, demo_frame), (2, demo_frame)] (load demo_kmalloc 0 8) = Some s
    \<and> dummeth_poll (\<lambda>_. True) True 2 1 s = Some (2, s') \<and> length (delivered s') = 2"
  using dummeth_burst_reversed [OF demo_kmalloc_ok, of 8 0 "[(1, demo_frame), (2, demo_frame)]" "\<lambda>_. 7" True 0 True]
    demo_frame_good by (auto simp: numeral_2_eq_2)

text \<open>
  C21.  The lock of a device is lost when its pool is empty: opening a device whose
  buffers are all in flight starts its queue, the next transmission returns with the lock held
  and without sending, and every later operation that takes the lock never returns.
\<close>

theorem dummeth_open_loses_lock:
  assumes "dinv s P Q" "d < 2" "P d = []" "good_frame csum bytes"
  shows "\<not> queue_stopped (devs (dummeth_open d s) d)
    \<and> (\<exists>s'. dummeth_xmit csum ok k bytes d (dummeth_open d s) = Some s' \<and> locked (devs s' d)
        \<and> delivered s' = delivered s
        \<and> dummeth_xmit csum ok k' bytes d s' = None \<and> dummeth_change_mtu d 1500 s' = None
        \<and> dummeth_interrupt ok d s' = None)"
proof -
  have ok: "ppool (devs s d) = None" "\<not> locked (devs s d)"
    using dinv_dev [OF assms(1,2)] assms(3) by (auto simp: dev_ok_def)
  obtain buf where buf: "rewrite_frame csum (pad_frame bytes) = Some buf"
    using assms(4) by (auto simp: good_frame_def)
  have len: "\<not> length (pad_frame bytes) < 34"
    using pad_frame_length [of bytes] by simp
  have xmit: "dummeth_xmit csum ok k bytes d t = dummeth_hw_tx csum ok (pad_frame bytes) d
      (upd_dev d (\<lambda>v. v\<lparr>skb := Some k\<rparr>) (t\<lparr>skbs := skbs t @ [k]\<rparr>))" for t k
    by (simp add: dummeth_xmit_def pad_frame_def Let_def)
  let ?s = "upd_dev d (\<lambda>v. v\<lparr>locked := True\<rparr>)
    (upd_dev d (\<lambda>v. v\<lparr>skb := Some k\<rparr>) ((dummeth_open d s)\<lparr>skbs := skbs s @ [k]\<rparr>))"
  have "dummeth_xmit csum ok k bytes d (dummeth_open d s) = Some ?s"
    using ok buf len unfolding xmit
    by (simp add: dummeth_hw_tx_def dummeth_get_tx_buffer_def spin_lock_def dummeth_open_def)
  moreover have "dummeth_xmit csum ok k' bytes d ?s = None"
    using buf len unfolding xmit by (simp add: dummeth_hw_tx_def dummeth_get_tx_buffer_def spin_lock_def)
  moreover have "dummeth_change_mtu d 1500 ?s = None" "dummeth_interrupt ok d ?s = None"
    by (simp_all add: dummeth_change_mtu_def spin_lock_def dummeth_interrupt_def dummeth_napi_interrupt_def
        dummeth_regular_interrupt_def)
  moreover have "\<not> queue_stopped (devs (dummeth_open d s) d)"
    by (simp add: dummeth_open_def)
  ultimately show ?thesis
    by auto
qed

theorem dummeth_open_loses_lock_witness:
  "\<exists>s'. dummeth_xmit (\<lambda>_. 7) True 3 demo_frame 0 (dummeth_open 0 (boot 0 8)) = Some s' \<and> locked (devs s' 0)"
  using dummeth_open_loses_lock [of "boot 0 8" "\<lambda>_. []" "\<lambda>_. []" 0 "\<lambda>_. 7" demo_frame True 3] demo_frame_good
  by (auto simp: boot_def dinv_def dev_ok_def in_lists_def zero_priv_def)

text \<open>
  C22.  A frame of more than \<^verbatim>\<open>ETH_DATA_LEN\<close> bytes overruns the packet buffer.  The MTU
  check lets an MTU of 1500 pass, for which a frame has up to 1514 bytes.
\<close>

theorem dummeth_long_frame_overruns:
  assumes "dinv s P Q" "d < 2" "P d \<noteq> []" "ETH_DATA_LEN < length bytes"
  shows "dummeth_xmit csum ok k bytes d s = None
    \<and> (\<exists>s'. dummeth_change_mtu d (int ETH_DATA_LEN) s = Some (0, s'))"
proof -
  obtain i xs where P: "P d = i # xs"
    using assms(3) by (cases "P d") auto
  let ?s = "upd_dev d (\<lambda>v. v\<lparr>skb := Some k\<rparr>) (s\<lparr>skbs := skbs s @ [k]\<rparr>)"
  have "same_chains s ?s"
    by (simp add: same_chains_def)
  then have inv: "dinv ?s P Q"
    using assms(1) by (rule dinv_same_chains)
  obtain s1 where get: "dummeth_get_tx_buffer d ?s = Some (Some i, s1)"
    by (rule dinv_get [OF inv assms(2) P]) blast
  have len: "length buf = length bytes" if "rewrite_frame csum bytes = Some buf" for buf
    using that by (rule rewrite_frame_length)
  have "dummeth_xmit csum ok k bytes d s = dummeth_hw_tx csum ok bytes d ?s"
    using assms(4) by (simp add: dummeth_xmit_def)
  also have "\<dots> = None"
    using get len assms(4)
    by (cases "rewrite_frame csum bytes") (auto simp: dummeth_hw_tx_def)
  finally show ?thesis
    using dinv_dev [OF assms(1,2)] by (simp add: dummeth_change_mtu_def spin_lock_def dev_ok_def)
qed

theorem dummeth_long_frame_overruns_witness:
  "dummeth_xmit (\<lambda>_. 7) True 3 (replicate 1514 69) 0 (load demo_kmalloc 0 8) = None"
proof -
  obtain P Q where "run_inv (load demo_kmalloc 0 8) P Q" "length (P 0) = 8"
    using load_module_ok [OF demo_kmalloc_ok, of 8 0] by auto
  moreover from this have "P 0 \<noteq> []"
    by auto
  ultimately show ?thesis
    using dummeth_long_frame_overruns [of "load demo_kmalloc 0 8" P Q 0 "replicate 1514 69" "\<lambda>_. 7" True 3]
    by (auto simp: run_inv_def)
qed



text \<open>
  \<^verbatim>\<open>dummeth_header\<close> writes an Ethernet header in front of the payload: destination with the
  last bit of its last byte flipped, source, and the type in network byte order; an
  address that is not given is the device's own.  \<^verbatim>\<open>dummeth_rebuild_header\<close> writes the same
  addresses the create function chooses by default and leaves the rest of the frame.
\<close>

theorem dummeth_header_layout:
  assumes "length (dev_addr v) = 6" "ETH_HLEN \<le> headroom"
    and "\<And>a. daddr = Some a \<Longrightarrow> length a = 6" "\<And>a. saddr = Some a \<Longrightarrow> length a = 6"
  shows "\<exists>eth. dummeth_header v type daddr saddr headroom payload = Some (ETH_HLEN, eth)
    \<and> take 6 eth = flip_last (case daddr of Some a \<Rightarrow> a | None \<Rightarrow> dev_addr v)
    \<and> take 6 (drop 6 eth) = (case saddr of Some a \<Rightarrow> a | None \<Rightarrow> dev_addr v)
    \<and> load16 eth 12 = Some (swap16 type)
    \<and> drop 14 eth = payload
    \<and> dummeth_rebuild_header (dev_addr v) eth
        = Some (flip_last (dev_addr v) @ dev_addr v @ drop 12 eth)"
proof -
  define a where "a = (case daddr of Some a \<Rightarrow> a | None \<Rightarrow> dev_addr v)"
  define b where "b = (case saddr of Some a \<Rightarrow> a | None \<Rightarrow> dev_addr v)"
  let ?c = "dev_addr v"
  have len: "length a = 6" "length b = 6"
    using assms by (auto simp: a_def b_def split: option.splits)
  obtain a0 a1 a2 a3 a4 a5 where a: "a = [a0, a1, a2, a3, a4, a5]"
    using len(1) by (auto simp: length_Suc_conv numeral_eq_Suc)
  obtain b0 b1 b2 b3 b4 b5 where b: "b = [b0, b1, b2, b3, b4, b5]"
    using len(2) by (auto simp: length_Suc_conv numeral_eq_Suc)
  obtain c0 c1 c2 c3 c4 c5 where c: "?c = [c0, c1, c2, c3, c4, c5]"
    using assms(1) by (auto simp: length_Suc_conv numeral_eq_Suc)
  have "dummeth_header v type daddr saddr headroom payload =
      Some (ETH_HLEN, flip_last (take 6 a @ take 6 b @ [lo8 (swap16 type), hi8 (swap16 type)] @ payload))"
    using assms(2) by (simp add: dummeth_header_def Let_def a_def b_def)
  then show ?thesis
    unfolding a_def [symmetric] b_def [symmetric]
    by (simp add: a b c flip_last_def load16_def dummeth_rebuild_header_def store_bytes_def)
qed

theorem dummeth_header_layout_witness:
  "\<exists>eth. dummeth_header zero_priv 0x0800 (Some [2, 0, 0, 0, 0, 8]) None 16 [1, 2] = Some (ETH_HLEN, eth)
    \<and> take 6 eth = [2, 0, 0, 0, 0, 9] \<and> drop 14 eth = [1, 2]"
  using dummeth_header_layout [of zero_priv 16 "Some [2, 0, 0, 0, 0, 8]" None "0x0800" "[1, 2]"]
  by (auto simp: zero_priv_def flip_last_def)

end
