(* ===== verification/CHeap.thy ===== *)
theory CHeap
  imports HackPrelude
begin

text \<open>
  The C heap of the user-space programs: blocks of cells at addresses, with the allocation
  functions of the C library.  A cell holds an integer, a pointer, a character or nothing yet.
  An access to a freed block, outside a block, through a null pointer or to an uninitialised
  cell, a second free and a free of an uninitialised pointer are \<^term>\<open>None\<close>.

  Sizes count cells instead of bytes.  The number of allocations that still succeed is part of
  the heap, since the sources do not test for a null result; \<^verbatim>\<open>realloc\<close> always moves the block.
\<close>

section \<open>Heaps\<close>

datatype cell = CUndef | CInt int | CPtr "nat option" | CChar char

record cheap =
  blk :: "nat \<Rightarrow> cell list option"
  nxt_addr :: nat
  quota :: nat

abbreviation NUL :: char where "NUL \<equiv> CHR 0x00"

definition c_malloc :: "nat \<Rightarrow> cheap \<Rightarrow> nat option \<times> cheap" where
  "c_malloc n h =
     (if quota h = 0 then (None, h)
      else (Some (nxt_addr h),
            h\<lparr>blk := (blk h)(nxt_addr h \<mapsto> replicate n CUndef), nxt_addr := nxt_addr h + 1, quota := quota h - 1\<rparr>))"

definition c_free :: "nat option \<Rightarrow> cheap \<Rightarrow> cheap option" where
  "c_free p h =
     (case p of
        None \<Rightarrow> Some h
      | Some a \<Rightarrow> if blk h a = None then None else Some (h\<lparr>blk := (blk h)(a := None)\<rparr>))"

definition c_realloc :: "nat option \<Rightarrow> nat \<Rightarrow> cheap \<Rightarrow> (nat option \<times> cheap) option" where
  "c_realloc p n h =
     (case p of
        None \<Rightarrow> Some (c_malloc n h)
      | Some a \<Rightarrow>
          (case blk h a of
             None \<Rightarrow> None
           | Some cs \<Rightarrow>
               if quota h = 0 then Some (None, h)
               else Some (Some (nxt_addr h),
                 h\<lparr>blk := (blk h)(a := None, nxt_addr h \<mapsto> take n cs @ replicate (n - length cs) CUndef),
                   nxt_addr := nxt_addr h + 1, quota := quota h - 1\<rparr>)))"

definition c_load :: "nat option \<Rightarrow> nat \<Rightarrow> cheap \<Rightarrow> cell option" where
  "c_load p i h =
     do {
       a \<leftarrow> p;
       cs \<leftarrow> blk h a;
       if i < length cs then Some (cs ! i) else None
     }"

definition c_store :: "nat option \<Rightarrow> nat \<Rightarrow> cell \<Rightarrow> cheap \<Rightarrow> cheap option" where
  "c_store p i v h =
     do {
       a \<leftarrow> p;
       cs \<leftarrow> blk h a;
       if i < length cs then Some (h\<lparr>blk := (blk h)(a \<mapsto> cs[i := v])\<rparr>) else None
     }"

fun as_ptr :: "cell \<Rightarrow> nat option option" where
  "as_ptr (CPtr p) = Some p"
| "as_ptr _ = None"

fun as_int :: "cell \<Rightarrow> int option" where
  "as_int (CInt n) = Some n"
| "as_int _ = None"

section \<open>Strings\<close>

text \<open>The string that starts a list of cells; there is none without a terminating zero.\<close>

fun cstr :: "cell list \<Rightarrow> string option" where
  "cstr (CChar c # cs) = (if c = NUL then Some [] else map_option ((#) c) (cstr cs))"
| "cstr _ = None"

definition str_of :: "nat option \<Rightarrow> cheap \<Rightarrow> string option" where
  "str_of p h = do { a \<leftarrow> p; cs \<leftarrow> blk h a; cstr cs }"

text \<open>\<^verbatim>\<open>memset\<close> with zero on \<^term>\<open>n\<close> characters, and \<^verbatim>\<open>strcpy\<close> of a string into a block.\<close>

definition c_memset0 :: "nat option \<Rightarrow> nat \<Rightarrow> cheap \<Rightarrow> cheap option" where
  "c_memset0 p n h =
     do {
       a \<leftarrow> p;
       cs \<leftarrow> blk h a;
       if n \<le> length cs then Some (h\<lparr>blk := (blk h)(a \<mapsto> replicate n (CChar NUL) @ drop n cs)\<rparr>) else None
     }"

definition c_strcpy :: "nat option \<Rightarrow> string \<Rightarrow> cheap \<Rightarrow> cheap option" where
  "c_strcpy p s h =
     do {
       a \<leftarrow> p;
       cs \<leftarrow> blk h a;
       if length s < length cs
       then Some (h\<lparr>blk := (blk h)(a \<mapsto> map CChar (s @ [NUL]) @ drop (length s + 1) cs)\<rparr>) else None
     }"

text \<open>The pattern \<^verbatim>\<open>malloc(strlen(s) + 1); memset; strcpy\<close> of the sources.\<close>

definition dup_string :: "string \<Rightarrow> cheap \<Rightarrow> (nat option \<times> cheap) option" where
  "dup_string s h =
     (case c_malloc (length s + 1) h of
        (p, h) \<Rightarrow>
          do {
            h \<leftarrow> c_memset0 p (length s + 1) h;
            h \<leftarrow> c_strcpy p s h;
            Some (p, h)
          })"

section \<open>Ownership\<close>

definition heap_ok :: "cheap \<Rightarrow> bool" where
  "heap_ok h \<longleftrightarrow> (\<forall>a\<ge>nxt_addr h. blk h a = None)"

text \<open>
  From \<^term>\<open>h\<close> to \<^term>\<open>h'\<close> the blocks \<^term>\<open>F\<close> have become \<^term>\<open>F'\<close>: new ones are fresh, what is no
  longer owned has been freed, and everything else is untouched.
\<close>

definition frame :: "cheap \<Rightarrow> nat set \<Rightarrow> cheap \<Rightarrow> nat set \<Rightarrow> bool" where
  "frame h F h' F' \<longleftrightarrow>
     heap_ok h' \<and> nxt_addr h \<le> nxt_addr h' \<and> F' \<subseteq> F \<union> {nxt_addr h..}
   \<and> (\<forall>a. a \<notin> F' \<longrightarrow> blk h' a = (if a \<in> F then None else blk h a))"

definition str_at :: "cheap \<Rightarrow> nat \<Rightarrow> string \<Rightarrow> bool" where
  "str_at h a s \<longleftrightarrow> NUL \<notin> set s \<and> blk h a = Some (map CChar (s @ [NUL]))"

lemma frame_refl [intro]: "\<lbrakk>heap_ok h; \<forall>a\<in>F. blk h a \<noteq> None\<rbrakk> \<Longrightarrow> frame h F h F"
  by (auto simp: frame_def)

lemma frame_trans:
  assumes "heap_ok h" "frame h F h' F'" "frame h' F' h'' F''"
  shows "frame h F h'' F''"
proof -
  have sub: "F' \<subseteq> F \<union> {nxt_addr h..}" "F'' \<subseteq> F' \<union> {nxt_addr h'..}" "nxt_addr h \<le> nxt_addr h'"
    "nxt_addr h' \<le> nxt_addr h''" "heap_ok h''"
    and b1: "a \<notin> F' \<Longrightarrow> blk h' a = (if a \<in> F then None else blk h a)"
    and b2: "a \<notin> F'' \<Longrightarrow> blk h'' a = (if a \<in> F' then None else blk h' a)" for a
    using assms(2,3) by (auto simp: frame_def)
  have "F'' \<subseteq> F \<union> {nxt_addr h..}"
    using sub(1-3) by fastforce
  moreover have "blk h'' a = (if a \<in> F then None else blk h a)" if "a \<notin> F''" for a
  proof (cases "a \<in> F'")
    case True
    then have "a \<in> F \<or> blk h a = None"
      using sub(1) assms(1) by (auto simp: heap_ok_def)
    then show ?thesis
      using b2 [OF that] True by auto
  next
    case False
    then show ?thesis
      using b1 b2 [OF that] by simp
  qed
  ultimately show ?thesis
    using sub by (simp add: frame_def)
qed

text \<open>A step on a part of the owned blocks.\<close>

lemma frame_extend:
  assumes "frame h F h' F'" "F \<inter> G = {}" "G \<subseteq> {..<nxt_addr h}"
  shows "frame h (F \<union> G) h' (F' \<union> G)"
  using assms by (auto simp: frame_def)

lemma frame_blk: "\<lbrakk>frame h F h' F'; a \<notin> F; a < nxt_addr h\<rbrakk> \<Longrightarrow> blk h' a = blk h a"
proof -
  assume a: "frame h F h' F'" "a \<notin> F" "a < nxt_addr h"
  then have "a \<notin> F'"
    by (auto simp: frame_def)
  with a show ?thesis
    by (simp add: frame_def)
qed

lemma heap_ok_less: "\<lbrakk>heap_ok h; blk h a \<noteq> None\<rbrakk> \<Longrightarrow> a < nxt_addr h"
  by (meson heap_ok_def leI)

lemma cstr_map: "NUL \<notin> set s \<Longrightarrow> cstr (map CChar (s @ [NUL])) = Some s"
  by (induction s) auto

lemma str_at_str_of: "str_at h a s \<Longrightarrow> str_of (Some a) h = Some s"
  using cstr_map [of s] by (simp add: str_at_def str_of_def)

lemma str_at_frame: "\<lbrakk>frame h F h' F'; str_at h a s; a \<notin> F; heap_ok h\<rbrakk> \<Longrightarrow> str_at h' a s"
  using frame_blk [of h F h' F' a] heap_ok_less [of h a] by (auto simp: str_at_def)

lemma dup_string_ok:
  assumes "heap_ok h" "0 < quota h" "NUL \<notin> set s"
  shows "\<exists>h'. dup_string s h = Some (Some (nxt_addr h), h') \<and> str_at h' (nxt_addr h) s
    \<and> frame h {} h' {nxt_addr h} \<and> quota h' = quota h - 1 \<and> nxt_addr h' = nxt_addr h + 1"
  using assms
  by (auto simp: dup_string_def c_malloc_def c_memset0_def c_strcpy_def str_at_def frame_def heap_ok_def)

lemma free_ok:
  assumes "heap_ok h" "blk h a \<noteq> None"
  shows "\<exists>h'. c_free (Some a) h = Some h' \<and> frame h {a} h' {} \<and> quota h' = quota h \<and> nxt_addr h' = nxt_addr h"
  using assms by (auto simp: c_free_def frame_def heap_ok_def)

lemma store_ok:
  assumes "heap_ok h" "blk h a = Some cs" "i < length cs"
  shows "\<exists>h'. c_store (Some a) i v h = Some h' \<and> blk h' a = Some (cs[i := v])
    \<and> frame h {a} h' {a} \<and> quota h' = quota h \<and> nxt_addr h' = nxt_addr h"
  using assms by (auto simp: c_store_def frame_def heap_ok_def)

lemma load_ok: "\<lbrakk>blk h a = Some cs; i < length cs\<rbrakk> \<Longrightarrow> c_load (Some a) i h = Some (cs ! i)"
  by (simp add: c_load_def)

lemma malloc_ok:
  assumes "heap_ok h" "0 < quota h"
  shows "\<exists>h'. c_malloc n h = (Some (nxt_addr h), h') \<and> blk h' (nxt_addr h) = Some (replicate n CUndef)
    \<and> frame h {} h' {nxt_addr h} \<and> quota h' = quota h - 1 \<and> nxt_addr h' = nxt_addr h + 1"
  using assms by (auto simp: c_malloc_def frame_def heap_ok_def)

lemma realloc_ok:
  assumes "heap_ok h" "0 < quota h" "blk h a = Some cs"
  shows "\<exists>h'. c_realloc (Some a) n h = Some (Some (nxt_addr h), h')
    \<and> blk h' (nxt_addr h) = Some (take n cs @ replicate (n - length cs) CUndef)
    \<and> frame h {a} h' {nxt_addr h} \<and> quota h' = quota h - 1 \<and> nxt_addr h' = nxt_addr h + 1"
  using assms by (auto simp: c_realloc_def frame_def heap_ok_def)

text \<open>A step on the part \<^term>\<open>A\<close> of the blocks owned so far.\<close>

lemma frame_step:
  assumes "heap_ok h" "frame h F h1 F1" "frame h1 A h2 B" "A \<subseteq> F1" "F1 \<subseteq> {..<nxt_addr h1}"
    "F2 = B \<union> (F1 - A)"
  shows "frame h F h2 F2"
proof -
  have "frame h1 (A \<union> (F1 - A)) h2 (B \<union> (F1 - A))"
    using assms(3,5) by (intro frame_extend) auto
  then show ?thesis
    using frame_trans [OF assms(1,2), of h2 "B \<union> (F1 - A)"] assms(4,6) by (simp add: Un_absorb1)
qed

lemma str_at_live: "str_at h a s \<Longrightarrow> blk h a \<noteq> None"
  by (simp add: str_at_def)

lemma str_at_less: "\<lbrakk>str_at h a s; heap_ok h\<rbrakk> \<Longrightarrow> a < nxt_addr h"
  by (rule heap_ok_less) (auto simp: str_at_def)

lemma frame_heap_ok: "frame h F h' F' \<Longrightarrow> heap_ok h'"
  by (simp add: frame_def)

definition empty_heap :: "nat \<Rightarrow> cheap" where
  "empty_heap n = \<lparr>blk = \<lambda>_. None, nxt_addr = 0, quota = n\<rparr>"

lemma empty_heap_ok [simp]: "heap_ok (empty_heap n)" "quota (empty_heap n) = n" "blk (empty_heap n) a = None"
  by (simp_all add: heap_ok_def empty_heap_def)

end
