(* ===== verification/CVector.thy ===== *)
theory CVector
  imports CHeap
begin

text \<open>
  The growable arrays of \<^verbatim>\<open>vector/\<close>: \<^verbatim>\<open>int.c\<close>, \<^verbatim>\<open>string.c\<close>, the copying variants of
  \<^verbatim>\<open>inefficient.c\<close>, and the program over them in \<^verbatim>\<open>interface.c\<close>.

  The variable that holds an array is a cell, since the callers leave it uninitialised while the
  array is empty.  A string argument is the string it points to; the functions only read it.
\<close>

section \<open>Arrays of integers\<close>

definition VECTOR_PushBackInt :: "int \<Rightarrow> cell \<Rightarrow> int \<Rightarrow> cheap \<Rightarrow> (int \<times> cell \<times> cheap) option" where
  "VECTOR_PushBackInt count vec new_el h =
     do {
       (vec_tmp, h) \<leftarrow>
         (if count = 0 then Some (c_malloc (nat (count + 1)) h)
          else do { p \<leftarrow> as_ptr vec; c_realloc p (nat (count + 1)) h });
       h \<leftarrow> c_store vec_tmp (nat count) (CInt new_el) h;
       Some (0, CPtr vec_tmp, h)
     }"

fun erase_int_loop :: "nat list \<Rightarrow> int \<Rightarrow> nat option \<Rightarrow> cheap \<Rightarrow> cheap option" where
  "erase_int_loop [] index p h = Some h"
| "erase_int_loop (i # is) index p h =
     (if int i \<le> index then erase_int_loop is index p h
      else do {
        v \<leftarrow> c_load p i h;
        n \<leftarrow> as_int v;
        h \<leftarrow> c_store p (i - 1) (CInt n) h;
        erase_int_loop is index p h
      })"

definition VECTOR_EraseInt :: "int \<Rightarrow> cell \<Rightarrow> int \<Rightarrow> cheap \<Rightarrow> (int \<times> cell \<times> cheap) option" where
  "VECTOR_EraseInt count vec index h =
     (if count - 1 < 0 then Some (-1, vec, h)
      else if count \<le> index \<or> index < 0 then Some (-2, vec, h)
      else do {
        p \<leftarrow> as_ptr vec;
        h \<leftarrow> erase_int_loop [0..<nat count] index p h;
        if count - 1 = 0 then do { h \<leftarrow> c_free p h; Some (1, vec, h) }
        else do {
          (q, h) \<leftarrow> c_realloc p (nat (count - 1)) h;
          Some (0, CPtr q, h)
        }
      })"

section \<open>Arrays of strings\<close>

definition VECTOR_PushBackString :: "int \<Rightarrow> cell \<Rightarrow> string \<Rightarrow> cheap \<Rightarrow> (int \<times> cell \<times> cheap) option" where
  "VECTOR_PushBackString rowc vec new_el h =
     do {
       (vec_tmp, h) \<leftarrow>
         (if rowc = 0 then Some (c_malloc (nat (rowc + 1)) h)
          else do { p \<leftarrow> as_ptr vec; c_realloc p (nat (rowc + 1)) h });
       (p, h) \<leftarrow> dup_string new_el h;
       h \<leftarrow> c_store vec_tmp (nat rowc) (CPtr p) h;
       Some (0, CPtr vec_tmp, h)
     }"

text \<open>The loop of \<^verbatim>\<open>VECTOR_EraseString\<close>; the last string is copied into a new block.\<close>

fun erase_string_loop :: "nat list \<Rightarrow> int \<Rightarrow> int \<Rightarrow> nat option \<Rightarrow> cheap \<Rightarrow> cheap option" where
  "erase_string_loop [] rowc index p h = Some h"
| "erase_string_loop (i # is) rowc index p h =
     (if int i < index then erase_string_loop is rowc index p h
      else do {
        c \<leftarrow> c_load p i h;
        q \<leftarrow> as_ptr c;
        h \<leftarrow> (if int i = index then c_free q h
              else if int i \<noteq> rowc - 1 then c_store p (i - 1) (CPtr q) h
              else do {
                s \<leftarrow> str_of q h;
                (r, h) \<leftarrow> dup_string s h;
                h \<leftarrow> c_free q h;
                c_store p (i - 1) (CPtr r) h
              });
        erase_string_loop is rowc index p h
      })"

definition VECTOR_EraseString :: "int \<Rightarrow> cell \<Rightarrow> int \<Rightarrow> cheap \<Rightarrow> (int \<times> cell \<times> cheap) option" where
  "VECTOR_EraseString rowc vec index h =
     (if rowc - 1 < 0 then Some (-1, vec, h)
      else if rowc \<le> index \<or> index < 0 then Some (-2, vec, h)
      else do {
        p \<leftarrow> as_ptr vec;
        h \<leftarrow> erase_string_loop [0..<nat rowc] rowc index p h;
        if rowc - 1 = 0 then do { h \<leftarrow> c_free p h; Some (1, vec, h) }
        else do {
          (q, h) \<leftarrow> c_realloc p (nat (rowc - 1)) h;
          Some (0, CPtr q, h)
        }
      })"

section \<open>The interface of a growable array\<close>

text \<open>
  \<^term>\<open>rep h v xs F\<close>: in heap \<^term>\<open>h\<close> the variable \<^term>\<open>v\<close> holds an array with the elements \<^term>\<open>xs\<close>,
  which owns exactly the blocks \<^term>\<open>F\<close>.  Pushing and erasing are the operations on lists, leave
  all other blocks alone and free what they no longer need.
\<close>

locale c_vector =
  fixes rep :: "cheap \<Rightarrow> cell \<Rightarrow> 'a list \<Rightarrow> nat set \<Rightarrow> bool"
    and elem_ok :: "'a \<Rightarrow> bool"
    and push :: "int \<Rightarrow> cell \<Rightarrow> 'a \<Rightarrow> cheap \<Rightarrow> (int \<times> cell \<times> cheap) option"
    and erase :: "int \<Rightarrow> cell \<Rightarrow> int \<Rightarrow> cheap \<Rightarrow> (int \<times> cell \<times> cheap) option"
  assumes rep_empty: "rep h v [] {}"
    and rep_live: "rep h v xs F \<Longrightarrow> a \<in> F \<Longrightarrow> blk h a \<noteq> None"
    and rep_frame: "\<lbrakk>heap_ok h; rep h v xs F; frame h G h' G'; F \<inter> G = {}\<rbrakk> \<Longrightarrow> rep h' v xs F"
    and push_law: "\<lbrakk>heap_ok h; rep h v xs F; elem_ok x; 2 \<le> quota h\<rbrakk> \<Longrightarrow>
      \<exists>v' h' F'. push (int (length xs)) v x h = Some (0, v', h') \<and> rep h' v' (xs @ [x]) F'
        \<and> frame h F h' F' \<and> quota h \<le> quota h' + 2"
    and erase_law: "\<lbrakk>heap_ok h; rep h v xs F; i < length xs; 2 \<le> quota h\<rbrakk> \<Longrightarrow>
      \<exists>v' h' F'. erase (int (length xs)) v (int i) h = Some (if length xs = 1 then 1 else 0, v', h')
        \<and> rep h' v' (take i xs @ drop (Suc i) xs) F' \<and> frame h F h' F' \<and> quota h \<le> quota h' + 2"
    and erase_range: "k < 0 \<or> int n \<le> k \<Longrightarrow> erase (int n) v k h = Some (if n = 0 then -1 else -2, v, h)"
begin

lemma push_then_erase:
  assumes "heap_ok h" "rep h v xs F" "elem_ok x" "4 \<le> quota h"
  shows "\<exists>v1 h1 st v2 h2 F2. push (int (length xs)) v x h = Some (0, v1, h1)
    \<and> erase (int (length xs + 1)) v1 (int (length xs)) h1 = Some (st, v2, h2)
    \<and> rep h2 v2 xs F2 \<and> frame h F h2 F2"
proof -
  obtain v1 h1 F1 where 1: "push (int (length xs)) v x h = Some (0, v1, h1)" "rep h1 v1 (xs @ [x]) F1"
    "frame h F h1 F1" "quota h \<le> quota h1 + 2"
    using push_law [OF assms(1-3)] assms(4) by auto
  then have "heap_ok h1"
    by (simp add: frame_def)
  then obtain st v2 h2 F2 where
    "erase (int (length (xs @ [x]))) v1 (int (length xs)) h1 = Some (st, v2, h2)" "rep h2 v2 xs F2" "frame h1 F1 h2 F2"
    using erase_law [of h1 v1 "xs @ [x]" F1 "length xs"] 1 assms(4) by auto
  then show ?thesis
    using 1 frame_trans [OF assms(1) 1(3)] by auto
qed

end

text \<open>The loops that fill an array line by line; a status below \<^verbatim>\<open>-1\<close> ends them with an error code.\<close>

fun push_lines ::
  "(int \<Rightarrow> cell \<Rightarrow> 'a \<Rightarrow> cheap \<Rightarrow> (int \<times> cell \<times> cheap) option) \<Rightarrow> int \<Rightarrow> nat \<Rightarrow> cell \<Rightarrow> 'a list \<Rightarrow> cheap
    \<Rightarrow> (int \<times> nat \<times> cell \<times> cheap) option" where
  "push_lines push err n v [] h = Some (0, n, v, h)"
| "push_lines push err n v (x # xs) h =
     do {
       (st, v, h) \<leftarrow> push (int n) v x h;
       if st < -1 then Some (err, n, v, h) else push_lines push err (n + 1) v xs h
     }"

context c_vector
begin

lemma push_lines_ok:
  assumes "heap_ok h" "rep h v xs F" "list_all elem_ok ys" "2 * length ys \<le> quota h"
  shows "\<exists>v' h' F'. push_lines push err (length xs) v ys h = Some (0, length xs + length ys, v', h')
    \<and> rep h' v' (xs @ ys) F' \<and> frame h F h' F' \<and> quota h \<le> quota h' + 2 * length ys"
  using assms
proof (induction ys arbitrary: h v xs F)
  case Nil
  then show ?case
    using rep_live by (auto intro!: exI [of _ F])
next
  case (Cons y ys)
  then obtain v1 h1 F1 where 1: "push (int (length xs)) v y h = Some (0, v1, h1)" "rep h1 v1 (xs @ [y]) F1"
    "frame h F h1 F1" "quota h \<le> quota h1 + 2"
    using push_law [of h v xs F y] by auto
  then have "heap_ok h1"
    by (simp add: frame_def)
  then obtain v' h' F' where
    "push_lines push err (length (xs @ [y])) v1 ys h1 = Some (0, length (xs @ [y]) + length ys, v', h')"
    "rep h' v' ((xs @ [y]) @ ys) F'" "frame h1 F1 h' F'" "quota h1 \<le> quota h' + 2 * length ys"
    using Cons.IH [of h1 v1 "xs @ [y]" F1] 1 Cons.prems by auto
  then show ?case
    using 1 frame_trans [OF Cons.prems(1) 1(3)] by auto
qed

end

section \<open>The array of integers implements the interface\<close>

definition ints_rep :: "cheap \<Rightarrow> cell \<Rightarrow> int list \<Rightarrow> nat set \<Rightarrow> bool" where
  "ints_rep h v xs F \<longleftrightarrow>
     (if xs = [] then F = {} else (\<exists>a. v = CPtr (Some a) \<and> blk h a = Some (map CInt xs) \<and> F = {a}))"

text \<open>The cells after moving the elements from \<^term>\<open>k\<close> up to \<^term>\<open>m\<close> one place down.\<close>

definition shift_down :: "nat \<Rightarrow> nat \<Rightarrow> 'a list \<Rightarrow> 'a list" where
  "shift_down k m xs = take (k - 1) xs @ take (m - k) (drop k xs) @ drop (m - 1) xs"

lemma shift_down_step:
  assumes "0 < k" "k < m" "m \<le> length xs"
  shows "shift_down (Suc k) m (xs[k - 1 := xs ! k]) = shift_down k m xs"
proof -
  have "take k (xs[k - 1 := xs ! k]) = take (k - 1) xs @ [xs ! k]"
    using assms by (cases k) (simp_all add: take_Suc_conv_app_nth)
  moreover have "drop (Suc k) (xs[k - 1 := xs ! k]) = drop (Suc k) xs" "drop (m - 1) (xs[k - 1 := xs ! k]) = drop (m - 1) xs"
    using assms by simp_all
  moreover have "take (m - k) (drop k xs) = xs ! k # take (m - Suc k) (drop (Suc k) xs)"
    using assms by (metis Cons_nth_drop_Suc Suc_diff_Suc dual_order.strict_trans1 take_Suc_Cons)
  ultimately show ?thesis
    by (simp add: shift_down_def)
qed

lemma shift_down_same [simp]: "0 < m \<Longrightarrow> shift_down m m xs = xs"
  by (simp add: shift_down_def)

lemma shift_down_length [simp]: "\<lbrakk>0 < k; k \<le> m; m \<le> length xs\<rbrakk> \<Longrightarrow> length (shift_down k m xs) = length xs"
  by (simp add: shift_down_def)

lemma shift_down_map: "shift_down k m (map f xs) = map f (shift_down k m xs)"
  by (simp add: shift_down_def take_map drop_map)

lemma erase_int_skip:
  "\<forall>i\<in>set is. int i \<le> index \<Longrightarrow> erase_int_loop (is @ js) index p h = erase_int_loop js index p h"
  by (induction "is") auto

lemma erase_int_loop_shift:
  assumes "heap_ok h" "blk h a = Some (map CInt xs)" "index < k" "k \<le> length xs"
  shows "\<exists>h'. erase_int_loop [k..<length xs] (int index) (Some a) h = Some h'
    \<and> blk h' a = Some (map CInt (shift_down k (length xs) xs)) \<and> frame h {a} h' {a} \<and> quota h' = quota h"
  using assms
proof (induction "length xs - k" arbitrary: k xs h)
  case 0
  then show ?case
    by (auto intro!: frame_refl)
next
  case (Suc d)
  then have k: "k < length xs" "0 < k"
    by auto
  let ?xs = "xs[k - 1 := xs ! k]"
  obtain h1 where 1: "c_store (Some a) (k - 1) (CInt (xs ! k)) h = Some h1"
    "blk h1 a = Some (map CInt ?xs)" "frame h {a} h1 {a}" "quota h1 = quota h"
    using store_ok [OF Suc.prems(1,2), of "k - 1" "CInt (xs ! k)"] k by (force simp: map_update)
  have "heap_ok h1" "d = length xs - Suc k"
    using 1(3) Suc.hyps(2) by (simp_all add: frame_def)
  then obtain h' where 2: "erase_int_loop [Suc k..<length xs] (int index) (Some a) h1 = Some h'"
    "blk h' a = Some (map CInt (shift_down (Suc k) (length xs) ?xs))" "frame h1 {a} h' {a}" "quota h' = quota h1"
    using Suc.hyps(1) [of ?xs "Suc k" h1] Suc.prems(3) k 1(2) by auto
  have "[k..<length xs] = k # [Suc k..<length xs]"
    using k by (simp add: upt_conv_Cons)
  then have "erase_int_loop [k..<length xs] (int index) (Some a) h = Some h'"
    using Suc.prems(2,3) k 1(1) 2(1) by (simp add: load_ok)
  moreover have "frame h {a} h' {a}"
    using Suc.prems(1) 1(3) 2(3) by (rule frame_trans)
  ultimately show ?case
    using 1(4) 2 shift_down_step [of k "length xs" xs] k by auto
qed

lemma shift_down_removes:
  "i < length xs \<Longrightarrow> take (length xs - 1) (shift_down (Suc i) (length xs) xs) = take i xs @ drop (Suc i) xs"
  by (cases "i = length xs - 1") (auto simp: shift_down_def)

lemma EraseInt_ok:
  assumes "heap_ok h" "blk h a = Some (map CInt xs)" "i < length xs" "2 \<le> quota h"
  shows "\<exists>v' h' F'. VECTOR_EraseInt (int (length xs)) (CPtr (Some a)) (int i) h
      = Some (if length xs = 1 then 1 else 0, v', h')
    \<and> ints_rep h' v' (take i xs @ drop (Suc i) xs) F' \<and> frame h {a} h' F' \<and> quota h \<le> quota h' + 2"
proof -
  let ?n = "length xs"
  have "[0..<?n] = [0..<Suc i] @ [Suc i..<?n]"
    using assms(3) by (metis Suc_leI le0 le_add_diff_inverse upt_add_eq_append)
  then obtain h1 where 1: "erase_int_loop [0..<?n] (int i) (Some a) h = Some h1"
    "blk h1 a = Some (map CInt (shift_down (Suc i) ?n xs))" "frame h {a} h1 {a}" "quota h1 = quota h"
    using erase_int_loop_shift [OF assms(1,2), of i "Suc i"] assms(3)
      erase_int_skip [of "[0..<Suc i]" "int i" "[Suc i..<?n]" "Some a" h] by auto
  have ok1: "heap_ok h1"
    using 1(3) by (simp add: frame_def)
  show ?thesis
  proof (cases "?n = 1")
    case True
    obtain h2 where 2: "c_free (Some a) h1 = Some h2" "frame h1 {a} h2 {}" "quota h2 = quota h1"
      using free_ok [OF ok1, of a] 1(2) by auto
    have "VECTOR_EraseInt (int ?n) (CPtr (Some a)) (int i) h = Some (1, CPtr (Some a), h2)"
      using True assms(3) 1(1) 2(1) by (simp add: VECTOR_EraseInt_def)
    then show ?thesis
      using True assms(3) 1 2 frame_trans [OF assms(1) 1(3) 2(2)]
      by (auto simp: ints_rep_def intro!: exI [of _ "{}"])
  next
    case False
    then have n: "1 < ?n"
      using assms(3) by simp
    obtain h2 where 2: "c_realloc (Some a) (?n - 1) h1 = Some (Some (nxt_addr h1), h2)"
      "blk h2 (nxt_addr h1) = Some (map CInt (take i xs @ drop (Suc i) xs))"
      "frame h1 {a} h2 {nxt_addr h1}" "quota h2 = quota h1 - 1"
      using realloc_ok [OF ok1 _ 1(2), of "?n - 1"] 1(4) assms(3,4) shift_down_removes [OF assms(3)]
      by (auto simp: take_map)
    have "nat (int ?n - 1) = ?n - 1" "xs \<noteq> []"
      using n by auto
    then have "VECTOR_EraseInt (int ?n) (CPtr (Some a)) (int i) h = Some (0, CPtr (Some (nxt_addr h1)), h2)"
      using n assms(3) 1(1) 2(1) by (simp add: VECTOR_EraseInt_def)
    moreover have "take i xs @ drop (Suc i) xs \<noteq> []"
      using n by auto
    ultimately show ?thesis
      using n 1(4) 2 frame_trans [OF assms(1) 1(3) 2(3)] by (auto simp: ints_rep_def)
  qed
qed

lemma PushBackInt_ok:
  assumes "heap_ok h" "ints_rep h v xs F" "2 \<le> quota h"
  shows "\<exists>v' h' F'. VECTOR_PushBackInt (int (length xs)) v x h = Some (0, v', h')
    \<and> ints_rep h' v' (xs @ [x]) F' \<and> frame h F h' F' \<and> quota h \<le> quota h' + 2"
proof -
  let ?n = "length xs" and ?a = "nxt_addr h"
  have n: "nat (int ?n + 1) = Suc ?n"
    by simp
  obtain h1 where 1: "(if int ?n = 0 then Some (c_malloc (nat (int ?n + 1)) h)
      else do { p \<leftarrow> as_ptr v; c_realloc p (nat (int ?n + 1)) h }) = Some (Some ?a, h1)"
    "blk h1 ?a = Some (map CInt xs @ [CUndef])" "frame h F h1 {?a}" "quota h1 = quota h - 1"
  proof (cases "xs = []")
    case True
    then show ?thesis
      using that malloc_ok [OF assms(1), of 1] assms by (auto simp: ints_rep_def)
  next
    case False
    then obtain a where a: "v = CPtr (Some a)" "blk h a = Some (map CInt xs)" "F = {a}"
      using assms(2) by (auto simp: ints_rep_def)
    then show ?thesis
      using that realloc_ok [OF assms(1) _ a(2), of "Suc ?n"] assms(3) False unfolding n by auto
  qed
  have ok1: "heap_ok h1"
    using 1(3) by (simp add: frame_def)
  obtain h2 where 2: "c_store (Some ?a) ?n (CInt x) h1 = Some h2" "blk h2 ?a = Some ((map CInt xs @ [CUndef])[?n := CInt x])"
    "frame h1 {?a} h2 {?a}" "quota h2 = quota h1"
    using store_ok [OF ok1 1(2), of ?n "CInt x"] by auto
  have "VECTOR_PushBackInt (int ?n) v x h = Some (0, CPtr (Some ?a), h2)"
    unfolding VECTOR_PushBackInt_def 1(1) using 2(1) by simp
  moreover have "(map CInt xs @ [CUndef])[?n := CInt x] = map CInt (xs @ [x])"
    by (simp add: list_update_append)
  ultimately show ?thesis
    using 2 1(4) frame_trans [OF assms(1) 1(3) 2(3)] by (auto simp: ints_rep_def)
qed

interpretation int_vector: c_vector ints_rep "\<lambda>_. True" VECTOR_PushBackInt VECTOR_EraseInt
proof (unfold_locales, goal_cases)
  case (3 h v xs F G h' G')
  then show ?case
    using frame_blk [of h G h' G'] heap_ok_less [of h] by (auto simp: ints_rep_def split: if_splits)
next
  case (4 h v xs F x)
  then show ?case
    by (intro PushBackInt_ok)
next
  case (5 h v xs F i)
  then show ?case
  proof -
    obtain a where "v = CPtr (Some a)" "blk h a = Some (map CInt xs)" "F = {a}"
      using 5 by (auto simp: ints_rep_def split: if_splits)
    then show ?thesis
      using EraseInt_ok [of h a xs i] 5 by simp
  qed
next
  case (6 k n v h)
  then show ?case
    by (auto simp: VECTOR_EraseInt_def)
qed (auto simp: ints_rep_def split: if_splits)

section \<open>The array of strings implements the interface\<close>

abbreviation ptr_cells :: "nat list \<Rightarrow> cell list" where
  "ptr_cells ps \<equiv> map (\<lambda>p. CPtr (Some p)) ps"

definition strs_at :: "cheap \<Rightarrow> nat \<Rightarrow> nat list \<Rightarrow> string list \<Rightarrow> bool" where
  "strs_at h a ps ss \<longleftrightarrow> blk h a = Some (ptr_cells ps) \<and> list_all2 (str_at h) ps ss \<and> distinct (a # ps)"

definition strs_rep :: "cheap \<Rightarrow> cell \<Rightarrow> string list \<Rightarrow> nat set \<Rightarrow> bool" where
  "strs_rep h v ss F \<longleftrightarrow>
     (if ss = [] then F = {}
      else (\<exists>a ps. v = CPtr (Some a) \<and> strs_at h a ps ss \<and> F = insert a (set ps)))"

lemma strs_repI: "\<lbrakk>strs_at h a ps ss; ss \<noteq> []\<rbrakk> \<Longrightarrow> strs_rep h (CPtr (Some a)) ss (insert a (set ps))"
  by (auto simp: strs_rep_def)

lemma str_list_frame:
  assumes "heap_ok h" "frame h G h' G'" "list_all2 (str_at h) ps ss" "set ps \<inter> G = {}"
  shows "list_all2 (str_at h') ps ss"
  using assms(3) by (rule list.rel_mono_strong) (use assms str_at_frame in blast)

lemma str_list_live: "\<lbrakk>list_all2 (str_at h) ps ss; p \<in> set ps\<rbrakk> \<Longrightarrow> blk h p \<noteq> None"
  by (metis in_set_conv_nth list_all2_nthD str_at_live)

lemma strs_at_live: "\<lbrakk>strs_at h a ps ss; p \<in> insert a (set ps)\<rbrakk> \<Longrightarrow> blk h p \<noteq> None"
  unfolding strs_at_def by (metis insert_iff option.discI str_list_live)

lemma strs_at_less: "\<lbrakk>heap_ok h; strs_at h a ps ss\<rbrakk> \<Longrightarrow> insert a (set ps) \<subseteq> {..<nxt_addr h}"
  using strs_at_live heap_ok_less by blast

lemma strs_at_frame:
  assumes "heap_ok h" "strs_at h a ps ss" "frame h G h' G'" "insert a (set ps) \<inter> G = {}"
  shows "strs_at h' a ps ss"
proof -
  have "blk h' a = blk h a"
    using frame_blk [OF assms(3)] strs_at_less [OF assms(1,2)] assms(4) by auto
  then show ?thesis
    using assms str_list_frame [OF assms(1,3)] by (auto simp: strs_at_def)
qed

lemma erase_string_append:
  "erase_string_loop (is @ js) n index p h
    = do { h \<leftarrow> erase_string_loop is n index p h; erase_string_loop js n index p h }"
  by (induction "is" arbitrary: h) (auto split: bind_splits)

lemma erase_string_skip: "\<forall>i\<in>set is. int i < index \<Longrightarrow> erase_string_loop is n index p h = Some h"
  by (induction "is") auto

lemma erase_string_loop_shift:
  assumes "heap_ok h" "blk h a = Some (ptr_cells ps)" "index < k" "k \<le> m" "m < length ps"
  shows "\<exists>h'. erase_string_loop [k..<m] (int (length ps)) (int index) (Some a) h = Some h'
    \<and> blk h' a = Some (ptr_cells (shift_down k m ps)) \<and> frame h {a} h' {a} \<and> quota h' = quota h
    \<and> nxt_addr h' = nxt_addr h"
  using assms
proof (induction "m - k" arbitrary: k ps h)
  case 0
  then show ?case
    by (auto intro!: frame_refl)
next
  case (Suc d)
  then have k: "k < m" "0 < k"
    by auto
  let ?ps = "ps[k - 1 := ps ! k]"
  obtain h1 where 1: "c_store (Some a) (k - 1) (CPtr (Some (ps ! k))) h = Some h1"
    "blk h1 a = Some (ptr_cells ?ps)" "frame h {a} h1 {a}" "quota h1 = quota h" "nxt_addr h1 = nxt_addr h"
    using store_ok [OF Suc.prems(1,2), of "k - 1" "CPtr (Some (ps ! k))"] k Suc.prems(5) by (force simp: map_update)
  have "heap_ok h1" "d = m - Suc k"
    using 1(3) Suc.hyps(2) by (simp_all add: frame_def)
  then obtain h' where 2: "erase_string_loop [Suc k..<m] (int (length ps)) (int index) (Some a) h1 = Some h'"
    "blk h' a = Some (ptr_cells (shift_down (Suc k) m ?ps))" "frame h1 {a} h' {a}" "quota h' = quota h1"
    "nxt_addr h' = nxt_addr h1"
    using Suc.hyps(1) [where k = "Suc k" and ps = ?ps and h = h1] Suc.prems(3,5) k 1(2) by auto
  have "[k..<m] = k # [Suc k..<m]"
    using k by (simp add: upt_conv_Cons)
  then have "erase_string_loop [k..<m] (int (length ps)) (int index) (Some a) h = Some h'"
    using Suc.prems(2,3,5) k 1(1) 2(1) by (simp add: load_ok)
  moreover have "frame h {a} h' {a}"
    using Suc.prems(1) 1(3) 2(3) by (rule frame_trans)
  ultimately show ?case
    using 1(4,5) 2 shift_down_step [of k m ps] k Suc.prems(5) by auto
qed

text \<open>Erasing the last string only frees it.\<close>

lemma erase_string_last:
  assumes "heap_ok h" "strs_at h a (ps @ [q]) (ss @ [s])"
  shows "\<exists>h'. erase_string_loop [0..<Suc (length ss)] (int (Suc (length ss))) (int (length ss)) (Some a) h = Some h'
    \<and> blk h' a = Some (ptr_cells (ps @ [q])) \<and> list_all2 (str_at h') ps ss
    \<and> frame h (insert a (set (ps @ [q]))) h' (insert a (set ps)) \<and> quota h' = quota h"
proof -
  let ?F = "insert a (set (ps @ [q]))"
  have a: "blk h a = Some (ptr_cells (ps @ [q]))" and ps: "list_all2 (str_at h) ps ss" "str_at h q s"
    and d: "a \<noteq> q" "a \<notin> set ps" "q \<notin> set ps" and n: "length ps = length ss"
    using assms(2) list_all2_lengthD [of "str_at h" "ps @ [q]" "ss @ [s]"]
    by (auto simp: strs_at_def list_all2_append)
  obtain h' where 1: "c_free (Some q) h = Some h'" "frame h {q} h' {}" "quota h' = quota h"
    using free_ok [OF assms(1), of q] str_at_live [OF ps(2)] by auto
  have "erase_string_loop [0..<Suc (length ss)] (int (Suc (length ss))) (int (length ss)) (Some a) h = Some h'"
    using 1(1) load_ok [OF a, of "length ss"] n by (simp add: erase_string_append erase_string_skip nth_append)
  moreover have "frame h ?F h' (insert a (set ps))"
    by (rule frame_step [OF assms(1) frame_refl [OF assms(1)] 1(2), of ?F])
      (use strs_at_less [OF assms] strs_at_live [OF assms(2)] d in auto)
  moreover have "blk h' a = blk h a"
    using frame_blk [OF 1(2)] strs_at_less [OF assms] d by auto
  ultimately show ?thesis
    using a 1(3) str_list_frame [OF assms(1) 1(2) ps(1)] d by auto
qed

lemma upt_around: "[0..<i + m + 2] = [0..<i] @ [i] @ [Suc i..<i + m + 1] @ [i + m + 1]"
proof -
  have "[0..<i + m + 2] = [0..<i] @ [i..<i + m + 2]"
    using upt_add_eq_append [of 0 i "m + 2"] by (simp only: add.assoc)
  also have "[i..<i + m + 2] = i # [Suc i..<i + m + 2]"
    by (rule upt_conv_Cons) simp
  also have "[Suc i..<i + m + 2] = [Suc i..<i + m + 1] @ [i + m + 1]"
    using upt_Suc_append [of "Suc i" "i + m + 1"] by (simp add: numeral_2_eq_2 del: upt_Suc)
  finally show ?thesis
    by simp
qed

text \<open>Erasing another one frees it, shifts the pointers behind it and copies the last string.\<close>

lemma erase_string_inner:
  assumes "heap_ok h" "strs_at h a (ps1 @ p # ps2 @ [q]) (ss1 @ t # ss2 @ [s])" "length ps1 = length ss1" "0 < quota h"
  shows "\<exists>h' x r. erase_string_loop [0..<length ss1 + length ss2 + 2] (int (length ss1 + length ss2 + 2)) (int (length ss1)) (Some a) h = Some h'
    \<and> blk h' a = Some (ptr_cells (ps1 @ ps2 @ [r, x])) \<and> list_all2 (str_at h') (ps1 @ ps2 @ [r]) (ss1 @ ss2 @ [s])
    \<and> distinct (a # ps1 @ ps2 @ [r])
    \<and> frame h (insert a (set (ps1 @ p # ps2 @ [q]))) h' (insert a (set (ps1 @ ps2 @ [r]))) \<and> quota h' = quota h - 1"
proof -
  let ?ps = "ps1 @ p # ps2 @ [q]" and ?r = "nxt_addr h" and ?n = "length ss1 + length ss2 + 2" and ?i = "length ss1"
  let ?F = "insert a (set ?ps)" and ?m = "length ss1 + length ss2 + 1"
  have a: "blk h a = Some (ptr_cells ?ps)" and n: "length ps2 = length ss2"
    and ps: "list_all2 (str_at h) (ps1 @ ps2) (ss1 @ ss2)" "str_at h p t" "str_at h q s"
    and d: "distinct (a # ps1 @ p # ps2 @ [q])"
    using assms(2,3) list_all2_lengthD [of "str_at h" ?ps "ss1 @ t # ss2 @ [s]"]
    by (auto simp: strs_at_def list_all2_append)
  have le: "?F \<subseteq> {..<nxt_addr h}"
    by (rule strs_at_less [OF assms(1,2)])
  obtain h1 where 1: "c_free (Some p) h = Some h1" "frame h {p} h1 {}" "quota h1 = quota h" "nxt_addr h1 = nxt_addr h"
    using free_ok [OF assms(1), of p] str_at_live [OF ps(2)] by auto
  have a1: "blk h1 a = Some (ptr_cells ?ps)"
    using frame_blk [OF 1(2), of a] le d a by auto
  obtain h2 where 2: "erase_string_loop [Suc ?i..<?m] (int ?n) (int ?i) (Some a) h1 = Some h2"
    "blk h2 a = Some (ptr_cells (shift_down (Suc ?i) ?m ?ps))" "frame h1 {a} h2 {a}" "quota h2 = quota h1"
    "nxt_addr h2 = nxt_addr h1"
    using erase_string_loop_shift [OF frame_heap_ok [OF 1(2)] a1, of ?i "Suc ?i" ?m] assms(3) n
    by (auto simp: add.commute)
  let ?x = "last (p # ps2)"
  have "drop (length ps2) ((p # ps2) @ [q]) = [?x, q]"
    by (induction ps2 arbitrary: p) auto
  then have "shift_down (Suc ?i) ?m ?ps = ps1 @ ps2 @ [?x, q]"
    using n assms(3) by (simp add: shift_down_def)
  then have a2: "blk h2 a = Some (ptr_cells (ps1 @ ps2 @ [?x, q]))"
    using 2(2) by simp
  have q: "str_at h2 q s" and nul: "NUL \<notin> set s"
    using str_at_frame [OF 2(3) str_at_frame [OF 1(2) ps(3)]] frame_heap_ok [OF 1(2)] assms(1) ps(3) d
    by (auto simp: str_at_def)
  obtain h3 where 3: "dup_string s h2 = Some (Some ?r, h3)" "str_at h3 ?r s" "frame h2 {} h3 {?r}" "quota h3 = quota h2 - 1"
    "nxt_addr h3 = nxt_addr h2 + 1"
    using dup_string_ok [OF frame_heap_ok [OF 2(3)] _ nul] 1 2 assms(4) by auto
  have "str_at h3 q s"
    using str_at_frame [OF 3(3) q _ frame_heap_ok [OF 2(3)]] by simp
  then obtain h4 where 4: "c_free (Some q) h3 = Some h4" "frame h3 {q} h4 {}" "quota h4 = quota h3" "nxt_addr h4 = nxt_addr h3"
    using free_ok [OF frame_heap_ok [OF 3(3)], of q] str_at_live by blast
  have a4: "blk h4 a = Some (ptr_cells (ps1 @ ps2 @ [?x, q]))"
    using frame_blk [OF 4(2), of a] frame_blk [OF 3(3), of a] a2 le d 1 2 3 by auto
  obtain h5 where 5: "c_store (Some a) (?n - 2) (CPtr (Some ?r)) h4 = Some h5"
    "blk h5 a = Some ((ptr_cells (ps1 @ ps2 @ [?x, q]))[?n - 2 := CPtr (Some ?r)])" "frame h4 {a} h5 {a}" "quota h5 = quota h4"
    using store_ok [OF frame_heap_ok [OF 4(2)] a4, of "?n - 2" "CPtr (Some ?r)"] n assms(3) by auto
  have a5: "(ptr_cells (ps1 @ ps2 @ [?x, q]))[?n - 2 := CPtr (Some ?r)] = ptr_cells (ps1 @ ps2 @ [?r, q])"
    using n assms(3) by (simp add: list_update_append)
  have "erase_string_loop [0..<?i] (int ?n) (int ?i) (Some a) h = Some h"
    by (simp add: erase_string_skip)
  moreover have "erase_string_loop [?i] (int ?n) (int ?i) (Some a) h = Some h1"
    using 1(1) load_ok [OF a, of ?i] assms(3) by (simp add: nth_append)
  moreover have "erase_string_loop [?m] (int ?n) (int ?i) (Some a) h2 = Some h5"
    using load_ok [OF a2, of ?m] n assms(3) str_at_str_of [OF q] 3(1) 4(1) 5(1) by (simp add: nth_append)
  ultimately have run: "erase_string_loop [0..<?n] (int ?n) (int ?i) (Some a) h = Some h5"
    unfolding upt_around erase_string_append using 2(1) by (simp only: bind.bind_lunit)
  have ls: "list_all2 (str_at h5) (ps1 @ ps2) (ss1 @ ss2)"
    by (intro str_list_frame [OF _ 5(3)] str_list_frame [OF _ 4(2)] str_list_frame [OF _ 3(3)] str_list_frame [OF _ 2(3)]
        str_list_frame [OF assms(1) 1(2)] ps(1)) (use d 1 2 3 4 in \<open>auto dest: frame_heap_ok\<close>)
  have lr: "str_at h5 ?r s"
    using str_at_frame [OF 5(3) str_at_frame [OF 4(2) 3(2)]] frame_heap_ok [OF 4(2)] frame_heap_ok [OF 3(3)] le by auto
  have "frame h ?F h ?F"
    using strs_at_live [OF assms(2)] by (intro frame_refl assms(1)) auto
  then have "frame h ?F h1 (?F - {p})"
    by (rule frame_step [OF assms(1) _ 1(2)]) (use le in auto)
  then have "frame h ?F h2 (?F - {p})"
    by (rule frame_step [OF assms(1) _ 2(3)]) (use le d 1(4) in auto)
  then have "frame h ?F h3 (insert ?r (?F - {p}))"
    by (rule frame_step [OF assms(1) _ 3(3)]) (use le 1(4) 2(5) in auto)
  then have "frame h ?F h4 (insert ?r (?F - {p}) - {q})"
    by (rule frame_step [OF assms(1) _ 4(2)]) (use le d 1(4) 2(5) 3(5) in auto)
  then have "frame h ?F h5 (insert ?r (?F - {p}) - {q})"
    by (rule frame_step [OF assms(1) _ 5(3)]) (use le d 1(4) 2(5) 3(5) 4(4) in auto)
  moreover have "insert ?r (?F - {p}) - {q} = insert a (set (ps1 @ ps2 @ [?r]))"
    using d le by auto
  ultimately have "frame h ?F h5 (insert a (set (ps1 @ ps2 @ [?r])))"
    by simp
  moreover have "distinct (a # ps1 @ ps2 @ [?r])"
    using d le by auto
  moreover have "list_all2 (str_at h5) ((ps1 @ ps2) @ [?r]) ((ss1 @ ss2) @ [s])"
    by (rule list_all2_appendI [OF ls]) (simp add: lr)
  ultimately show ?thesis
    using run 5(2,4) a5 1(3) 2(4) 3(4) 4(3) by auto
qed

text \<open>Both cases leave the remaining strings in the first cells of the array.\<close>

lemma erase_string_loop_ok:
  assumes "heap_ok h" "strs_at h a ps ss" "i < length ss" "0 < quota h"
  shows "\<exists>h' qs x. erase_string_loop [0..<length ss] (int (length ss)) (int i) (Some a) h = Some h'
    \<and> blk h' a = Some (ptr_cells (qs @ [x])) \<and> list_all2 (str_at h') qs (take i ss @ drop (Suc i) ss)
    \<and> distinct (a # qs) \<and> frame h (insert a (set ps)) h' (insert a (set qs)) \<and> quota h \<le> quota h' + 1"
proof (cases "i = length ss - 1")
  case True
  have "length ps = length ss"
    using assms(2) list_all2_lengthD by (auto simp: strs_at_def)
  then obtain ps1 q ss1 s where e: "ps = ps1 @ [q]" "ss = ss1 @ [s]"
    using assms(3) by (metis length_0_conv less_nat_zero_code rev_exhaust)
  have "distinct (a # ps1)"
    using assms(2) e by (simp add: strs_at_def)
  then show ?thesis
    using erase_string_last [OF assms(1) assms(2) [unfolded e]] True e by auto
next
  case False
  have n: "length ps = length ss"
    using assms(2) list_all2_lengthD by (auto simp: strs_at_def)
  have split: "\<exists>ys y zs z. xs = ys @ y # zs @ [z] \<and> length ys = i" if "length xs = length ss" for xs :: "'x list"
  proof -
    have "drop (Suc i) xs \<noteq> []"
      using that False assms(3) by auto
    then have "xs = take i xs @ xs ! i # butlast (drop (Suc i) xs) @ [last (drop (Suc i) xs)]"
      using id_take_nth_drop [of i xs] that assms(3) by (metis append_butlast_last_id)
    then show ?thesis
      using that assms(3) by (metis length_take less_imp_le min.absorb2)
  qed
  obtain ss1 t ss2 s where e: "ss = ss1 @ t # ss2 @ [s]" "length ss1 = i"
    using split [of ss] by blast
  obtain ps1 p ps2 q where f: "ps = ps1 @ p # ps2 @ [q]" "length ps1 = i"
    using split [OF n] by blast
  have "length ss = length ss1 + length ss2 + 2"
    using e by simp
  moreover have "take i ss @ drop (Suc i) ss = ss1 @ ss2 @ [s]"
    using e by simp
  ultimately show ?thesis
    using erase_string_inner [OF assms(1) assms(2) [unfolded e f] _ assms(4)] e(2) f
    by (metis (no_types, lifting) Suc_pred' add.commute append.assoc append_Cons append_Nil assms(4) le_refl plus_1_eq_Suc)
qed

lemma EraseString_ok:
  assumes "heap_ok h" "strs_at h a ps ss" "i < length ss" "2 \<le> quota h"
  shows "\<exists>v' h' F'. VECTOR_EraseString (int (length ss)) (CPtr (Some a)) (int i) h
      = Some (if length ss = 1 then 1 else 0, v', h')
    \<and> strs_rep h' v' (take i ss @ drop (Suc i) ss) F' \<and> frame h (insert a (set ps)) h' F' \<and> quota h \<le> quota h' + 2"
proof -
  let ?n = "length ss" and ?F = "insert a (set ps)"
  obtain h1 qs x where 1: "erase_string_loop [0..<?n] (int ?n) (int i) (Some a) h = Some h1"
    "blk h1 a = Some (ptr_cells (qs @ [x]))" "list_all2 (str_at h1) qs (take i ss @ drop (Suc i) ss)"
    "distinct (a # qs)" "frame h ?F h1 (insert a (set qs))" "quota h \<le> quota h1 + 1"
    using erase_string_loop_ok [OF assms(1-3)] assms(4) by auto
  have ok1: "heap_ok h1"
    using 1(5) by (rule frame_heap_ok)
  have le: "insert a (set qs) \<subseteq> {..<nxt_addr h1}"
    using str_list_live [OF 1(3)] 1(2) heap_ok_less [OF ok1] by auto
  have len: "length qs = ?n - 1"
    using list_all2_lengthD [OF 1(3)] assms(3) by simp
  show ?thesis
  proof (cases "?n = 1")
    case True
    obtain h2 where 2: "c_free (Some a) h1 = Some h2" "frame h1 {a} h2 {}" "quota h2 = quota h1"
      using free_ok [OF ok1, of a] 1(2) by auto
    have "VECTOR_EraseString (int ?n) (CPtr (Some a)) (int i) h = Some (1, CPtr (Some a), h2)"
      using True assms(3) 1(1) 2(1) by (simp add: VECTOR_EraseString_def del: erase_string_loop.simps upt_Suc upt_rec_numeral)
    moreover have "frame h ?F h2 {}"
      by (rule frame_step [OF assms(1) 1(5) 2(2) _ le]) (use len True in auto)
    ultimately show ?thesis
      using True assms(3) 1(6) 2(3) by (auto simp: strs_rep_def)
  next
    case False
    let ?b = "nxt_addr h1"
    obtain h2 where 2: "c_realloc (Some a) (?n - 1) h1 = Some (Some ?b, h2)"
      "blk h2 ?b = Some (ptr_cells qs)" "frame h1 {a} h2 {?b}" "quota h2 = quota h1 - 1"
      using realloc_ok [OF ok1 _ 1(2), of "?n - 1"] 1(6) assms(3,4) len by auto
    have "nat (int ?n - 1) = ?n - 1" "ss \<noteq> []"
      using assms(3) by auto
    then have "VECTOR_EraseString (int ?n) (CPtr (Some a)) (int i) h = Some (0, CPtr (Some ?b), h2)"
      using False assms(3) 1(1) 2(1) by (simp add: VECTOR_EraseString_def)
    moreover have "strs_at h2 ?b qs (take i ss @ drop (Suc i) ss)"
      using 2(2) le 1(4) str_list_frame [OF ok1 2(3) 1(3)] by (auto simp: strs_at_def)
    moreover have "frame h ?F h2 (insert ?b (set qs))"
      by (rule frame_step [OF assms(1) 1(5) 2(3) _ le]) (use 1(4) in auto)
    moreover have "take i ss @ drop (Suc i) ss \<noteq> []"
      using False assms(3) by auto
    moreover have "quota h \<le> quota h2 + 2"
      using 1(6) 2(4) by simp
    ultimately show ?thesis
      unfolding if_not_P [OF False] using strs_repI by blast
  qed
qed

text \<open>The array is made longer first, then the string is copied.\<close>

lemma grow_strings_ok:
  assumes "heap_ok h" "strs_rep h v ss F" "0 < quota h"
  shows "\<exists>h' ps. (if int (length ss) = 0 then Some (c_malloc (nat (int (length ss) + 1)) h)
      else do { p \<leftarrow> as_ptr v; c_realloc p (nat (int (length ss) + 1)) h }) = Some (Some (nxt_addr h), h')
    \<and> blk h' (nxt_addr h) = Some (ptr_cells ps @ [CUndef]) \<and> list_all2 (str_at h') ps ss
    \<and> distinct ps \<and> set ps \<subseteq> {..<nxt_addr h} \<and> frame h F h' (insert (nxt_addr h) (set ps))
    \<and> quota h' = quota h - 1 \<and> nxt_addr h' = nxt_addr h + 1"
proof (cases "ss = []")
  case True
  then show ?thesis
    using malloc_ok [OF assms(1,3), of 1] assms(2) by (auto simp: strs_rep_def)
next
  case False
  let ?n = "length ss" and ?b = "nxt_addr h"
  obtain a ps where a: "v = CPtr (Some a)" "strs_at h a ps ss" "F = insert a (set ps)"
    using assms(2) False by (auto simp: strs_rep_def)
  then have b: "blk h a = Some (ptr_cells ps)" "list_all2 (str_at h) ps ss" "distinct (a # ps)" "length ps = ?n"
    using list_all2_lengthD by (auto simp: strs_at_def)
  have le: "F \<subseteq> {..<nxt_addr h}"
    using strs_at_less [OF assms(1) a(2)] a(3) by simp
  obtain h' where 1: "c_realloc (Some a) (Suc ?n) h = Some (Some ?b, h')"
    "blk h' ?b = Some (ptr_cells ps @ [CUndef])" "frame h {a} h' {?b}" "quota h' = quota h - 1" "nxt_addr h' = ?b + 1"
    using realloc_ok [OF assms(1,3) b(1), of "Suc ?n"] b(4) by auto
  have "frame h F h' (insert ?b (set ps))"
    by (rule frame_step [OF assms(1) frame_refl [OF assms(1)] 1(3), of F])
      (use le a(3) b(3) strs_at_live [OF a(2)] in auto)
  moreover have "nat (int ?n + 1) = Suc ?n"
    by simp
  ultimately show ?thesis
    using 1 False a(1,3) b(3) le str_list_frame [OF assms(1) 1(3) b(2)]
    by (intro exI [of _ h'] exI [of _ ps]) auto
qed

lemma PushBackString_ok:
  assumes "heap_ok h" "strs_rep h v ss F" "NUL \<notin> set s" "2 \<le> quota h"
  shows "\<exists>v' h' F'. VECTOR_PushBackString (int (length ss)) v s h = Some (0, v', h')
    \<and> strs_rep h' v' (ss @ [s]) F' \<and> frame h F h' F' \<and> quota h \<le> quota h' + 2"
proof -
  let ?n = "length ss" and ?a = "nxt_addr h"
  obtain h1 ps where 1: "(if int ?n = 0 then Some (c_malloc (nat (int ?n + 1)) h)
      else do { p \<leftarrow> as_ptr v; c_realloc p (nat (int ?n + 1)) h }) = Some (Some ?a, h1)"
    "blk h1 ?a = Some (ptr_cells ps @ [CUndef])" "list_all2 (str_at h1) ps ss" "distinct ps" "set ps \<subseteq> {..<?a}"
    "frame h F h1 (insert ?a (set ps))" "quota h1 = quota h - 1" "nxt_addr h1 = ?a + 1"
    using grow_strings_ok [OF assms(1,2)] assms(4) by auto
  note ok1 = frame_heap_ok [OF 1(6)]
  obtain h2 where 2: "dup_string s h1 = Some (Some (?a + 1), h2)" "str_at h2 (?a + 1) s" "frame h1 {} h2 {?a + 1}"
    "quota h2 = quota h1 - 1" "nxt_addr h2 = ?a + 2"
    using dup_string_ok [OF ok1 _ assms(3)] 1(7,8) assms(4) by auto
  note ok2 = frame_heap_ok [OF 2(3)]
  have a2: "blk h2 ?a = Some (ptr_cells ps @ [CUndef])"
    using frame_blk [OF 2(3), of ?a] 1(2,8) by simp
  have n: "length ps = ?n"
    using list_all2_lengthD [OF 1(3)] .
  obtain h3 where 3: "c_store (Some ?a) ?n (CPtr (Some (?a + 1))) h2 = Some h3"
    "blk h3 ?a = Some (ptr_cells (ps @ [?a + 1]))" "frame h2 {?a} h3 {?a}" "quota h3 = quota h2"
    using store_ok [OF ok2 a2, of ?n "CPtr (Some (?a + 1))"] n by (auto simp: list_update_append)
  have "VECTOR_PushBackString (int ?n) v s h = Some (0, CPtr (Some ?a), h3)"
    unfolding VECTOR_PushBackString_def 1(1) using 2(1) 3(1) by simp
  moreover have "list_all2 (str_at h3) (ps @ [?a + 1]) (ss @ [s])"
    using 1(5) str_list_frame [OF ok1 2(3) 1(3)] str_at_frame [OF 3(3) 2(2) _ ok2]
    by (intro list_all2_appendI [OF str_list_frame [OF ok2 3(3)]]) auto
  then have "strs_at h3 ?a (ps @ [?a + 1]) (ss @ [s])"
    using 3(2) 1(4,5) by (auto simp: strs_at_def)
  then have "strs_rep h3 (CPtr (Some ?a)) (ss @ [s]) (insert ?a (set (ps @ [?a + 1])))"
    by (rule strs_repI) simp
  moreover have "frame h F h2 (insert (?a + 1) (insert ?a (set ps)))"
    by (rule frame_step [OF assms(1) 1(6) 2(3)]) (use 1(5,8) in auto)
  then have "frame h F h3 (insert ?a (set (ps @ [?a + 1])))"
    by (rule frame_step [OF assms(1) _ 3(3)]) (use 1(5) 2(5) in auto)
  moreover have "quota h \<le> quota h3 + 2"
    using 1(7) 2(4) 3(4) assms(4) by simp
  ultimately show ?thesis
    by blast
qed

interpretation str_vector: c_vector strs_rep "\<lambda>s. NUL \<notin> set s" VECTOR_PushBackString VECTOR_EraseString
proof (unfold_locales, goal_cases)
  case (2 h v xs F a)
  then show ?case
    using strs_at_live by (auto simp: strs_rep_def split: if_splits)
next
  case (3 h v xs F G h' G')
  then show ?case
    unfolding strs_rep_def by (metis strs_at_frame)
next
  case (4 h v xs F x)
  then show ?case
    by (intro PushBackString_ok)
next
  case (5 h v xs F i)
  then show ?case
  proof -
    obtain a ps where "v = CPtr (Some a)" "strs_at h a ps xs" "F = insert a (set ps)"
      using 5 by (auto simp: strs_rep_def split: if_splits)
    then show ?thesis
      using EraseString_ok [of h a ps xs i] 5 by simp
  qed
next
  case (6 k n v h)
  then show ?case
    by (auto simp: VECTOR_EraseString_def)
qed (auto simp: strs_rep_def)

end
