(* ===== verification/CText.thy ===== *)
theory CText
  imports CVector
begin

text \<open>
  What the programs over the string arrays share: cutting a text into tokens with \<^verbatim>\<open>strsep\<close> and
  \<^verbatim>\<open>strtok\<close>, searching with \<^verbatim>\<open>strstr\<close>, and the loops that print and free an array of strings.
\<close>

section \<open>Tokens\<close>

abbreviation newline :: char where "newline \<equiv> CHR 0x0A"

text \<open>\<^verbatim>\<open>strsep\<close> with one delimiter: the token, and the rest unless the text has ended.\<close>

fun strsep :: "char \<Rightarrow> string \<Rightarrow> string \<times> string option" where
  "strsep d [] = ([], None)"
| "strsep d (c # cs) =
     (if c = d then ([], Some cs)
      else case strsep d cs of (t, r) \<Rightarrow> (c # t, r))"

lemma strsep_rest_shorter: "strsep d s = (t, Some r) \<Longrightarrow> length r < length s"
  by (induction d s arbitrary: t rule: strsep.induct) (auto split: if_splits prod.splits)

text \<open>The tokens of a loop that calls \<^verbatim>\<open>strsep\<close> until the text is used up.\<close>

function sep_all :: "char \<Rightarrow> string \<Rightarrow> string list" where
  "sep_all d s = (case strsep d s of (t, None) \<Rightarrow> [t] | (t, Some r) \<Rightarrow> t # sep_all d r)"
  by pat_completeness auto
termination
  by (relation "measure (length \<circ> snd)") (auto dest: strsep_rest_shorter [OF sym])

declare sep_all.simps [simp del]

text \<open>The tokens of a \<^verbatim>\<open>strtok\<close> loop: runs of delimiters count as one.\<close>

definition tok_all :: "char \<Rightarrow> string \<Rightarrow> string list" where
  "tok_all d s = filter (\<lambda>t. t \<noteq> []) (sep_all d s)"

fun join :: "char \<Rightarrow> string list \<Rightarrow> string" where
  "join d [] = []"
| "join d [t] = t"
| "join d (t # ts) = t @ d # join d ts"

lemma strsep_text: "strsep d s = (t, r) \<Longrightarrow> s = t @ (case r of None \<Rightarrow> [] | Some r \<Rightarrow> d # r) \<and> d \<notin> set t"
  by (induction d s arbitrary: t r rule: strsep.induct) (auto split: if_splits prod.splits)

lemma sep_all_not_Nil [simp]: "sep_all d s \<noteq> []"
  by (subst sep_all.simps) (auto split: prod.splits option.splits)

lemma sep_all_join: "join d (sep_all d s) = s"
proof (induction d s rule: sep_all.induct)
  case (1 d s)
  obtain t r where e: "strsep d s = (t, r)"
    by (cases "strsep d s")
  show ?case
  proof (cases r)
    case None
    then show ?thesis
      using strsep_text [OF e] e by (subst sep_all.simps) simp
  next
    case (Some r')
    then have "join d (sep_all d r') = r'" "sep_all d s = t # sep_all d r'"
      using 1 e by (auto simp: sep_all.simps [of d s])
    then show ?thesis
      using strsep_text [OF e] Some by (cases "sep_all d r'") auto
  qed
qed

lemma sep_all_tokens: "t \<in> set (sep_all d s) \<Longrightarrow> d \<notin> set t \<and> set t \<subseteq> set s"
proof (induction d s rule: sep_all.induct)
  case (1 d s)
  obtain u r where e: "strsep d s = (u, r)"
    by (cases "strsep d s")
  show ?case
    using 1 e strsep_text [OF e] by (subst (asm) (2) sep_all.simps) (auto split: option.splits)
qed

lemma sep_all_length: "length (sep_all d s) = Suc (length (filter ((=) d) s))"
proof (induction d s rule: sep_all.induct)
  case (1 d s)
  obtain u r where e: "strsep d s = (u, r)"
    by (cases "strsep d s")
  then have "filter ((=) d) u = []"
    using strsep_text [OF e] by (auto simp: filter_empty_conv)
  then show ?case
    using 1 e strsep_text [OF e] by (subst sep_all.simps) (auto split: option.splits)
qed

lemma sep_all_unique:
  "\<lbrakk>ts \<noteq> []; \<forall>t\<in>set ts. d \<notin> set t\<rbrakk> \<Longrightarrow> sep_all d (join d ts) = ts"
proof (induction d ts rule: join.induct)
  case (2 d t)
  have "strsep d t = (t, None)" if "d \<notin> set t" for t
    using that by (induction t) auto
  then show ?case
    using 2 by (simp add: sep_all.simps [of d t])
next
  case (3 d t u us)
  have "strsep d (t @ d # r) = (t, Some r)" if "d \<notin> set t" for t r
    using that by (induction t) auto
  then show ?case
    using 3 by (simp add: sep_all.simps [of d "t @ d # join d (u # us)"])
qed simp

lemma sep_all_NUL: "NUL \<notin> set s \<Longrightarrow> list_all (\<lambda>t. NUL \<notin> set t) (sep_all d s)"
  using sep_all_tokens by (fastforce simp: list_all_iff)

section \<open>Searching\<close>

text \<open>\<^verbatim>\<open>strstr\<close>: the text from the first occurrence on.\<close>

fun strstr :: "string \<Rightarrow> string \<Rightarrow> string option" where
  "strstr [] t = (if t = [] then Some [] else None)"
| "strstr (c # cs) t = (if take (length t) (c # cs) = t then Some (c # cs) else strstr cs t)"

lemma strstr_Some:
  "strstr s t = Some r \<Longrightarrow> \<exists>u w. s = u @ r \<and> r = t @ w \<and> (\<forall>u' w'. s = u' @ t @ w' \<longrightarrow> length u \<le> length u')"
proof (induction s t rule: strstr.induct)
  case (2 c cs t)
  show ?case
  proof (cases "take (length t) (c # cs) = t")
    case True
    then have "r = c # cs"
      using 2 by simp
    then show ?thesis
      using True by (intro exI [of _ "[]"] exI [of _ "drop (length t) (c # cs)"]) (simp, metis append_take_drop_id)
  next
    case False
    then obtain u w where u: "cs = u @ r" "r = t @ w" "\<forall>u' w'. cs = u' @ t @ w' \<longrightarrow> length u \<le> length u'"
      using 2 by auto
    have "length (c # u) \<le> length u'" if "c # cs = u' @ t @ w'" for u' w'
      using that False u(3) by (cases u') auto
    then show ?thesis
      using u(1,2) by (intro exI [of _ "c # u"] exI [of _ w]) auto
  qed
qed (auto split: if_splits)

lemma strstr_None: "strstr s t = None \<longleftrightarrow> (\<nexists>u w. s = u @ t @ w)"
proof (induction s t rule: strstr.induct)
  case (2 c cs t)
  show ?case
  proof (cases "take (length t) (c # cs) = t")
    case True
    then show ?thesis
      by (simp, metis append_Nil append_take_drop_id)
  next
    case False
    have "(\<exists>u w. c # cs = u @ t @ w) \<longleftrightarrow> (\<exists>u w. cs = u @ t @ w)"
      using False by (metis append_Cons append_Nil append_eq_conv_conj list.inject neq_Nil_conv)
    then show ?thesis
      using False 2 by simp
  qed
qed auto

lemma strstr_set: "strstr s t = Some r \<Longrightarrow> set r \<subseteq> set s"
  using strstr_Some by fastforce

section \<open>Printing and freeing an array of strings\<close>

fun dump_strings :: "nat list \<Rightarrow> nat option \<Rightarrow> cheap \<Rightarrow> string list option" where
  "dump_strings [] p h = Some []"
| "dump_strings (i # is) p h =
     do {
       c \<leftarrow> c_load p i h;
       q \<leftarrow> as_ptr c;
       s \<leftarrow> str_of q h;
       rest \<leftarrow> dump_strings is p h;
       Some (s # rest)
     }"

fun free_strings :: "nat list \<Rightarrow> nat option \<Rightarrow> cheap \<Rightarrow> cheap option" where
  "free_strings [] p h = Some h"
| "free_strings (i # is) p h =
     do {
       c \<leftarrow> c_load p i h;
       q \<leftarrow> as_ptr c;
       h \<leftarrow> c_free q h;
       free_strings is p h
     }"

lemma upt_next: "[length ps..<length ps + length (q # qs)] = length ps # [length (ps @ [q])..<length (ps @ [q]) + length qs]"
  by (simp add: upt_conv_Cons del: upt_Suc)

lemma dump_strings_from:
  "\<lbrakk>blk h a = Some (ptr_cells (ps @ qs)); list_all2 (str_at h) qs ss\<rbrakk> \<Longrightarrow>
    dump_strings [length ps..<length ps + length qs] (Some a) h = Some ss"
proof (induction qs arbitrary: ps ss)
  case (Cons q qs)
  then obtain s ss' where s: "ss = s # ss'" "str_at h q s" "list_all2 (str_at h) qs ss'"
    by (auto simp: list_all2_Cons1)
  then have "dump_strings [length (ps @ [q])..<length (ps @ [q]) + length qs] (Some a) h = Some ss'"
    using Cons by (intro Cons.IH) auto
  then show ?case
    unfolding upt_next using s(1) load_ok [OF Cons.prems(1), of "length ps"] str_at_str_of [OF s(2)]
    by (simp add: nth_append del: upt_Suc)
qed auto

lemma dump_strings_ok: "strs_at h a ps ss \<Longrightarrow> dump_strings [0..<length ss] (Some a) h = Some ss"
  using dump_strings_from [of h a "[]" ps ss] list_all2_lengthD [of "str_at h" ps ss]
  by (simp add: strs_at_def)

lemma free_strings_from:
  "\<lbrakk>heap_ok h; blk h a = Some (ptr_cells (ps @ qs)); list_all2 (str_at h) qs ss; distinct (a # qs)\<rbrakk> \<Longrightarrow>
    \<exists>h'. free_strings [length ps..<length ps + length qs] (Some a) h = Some h'
      \<and> blk h' a = Some (ptr_cells (ps @ qs)) \<and> frame h (set qs) h' {} \<and> quota h' = quota h"
proof (induction qs arbitrary: ps ss h)
  case Nil
  then show ?case
    by (auto intro!: frame_refl)
next
  case (Cons q qs)
  then obtain s ss' where s: "ss = s # ss'" "str_at h q s" "list_all2 (str_at h) qs ss'"
    by (auto simp: list_all2_Cons1)
  obtain h1 where 1: "c_free (Some q) h = Some h1" "frame h {q} h1 {}" "quota h1 = quota h"
    using free_ok [OF Cons.prems(1) str_at_live [OF s(2)]] by auto
  have "list_all2 (str_at h1) qs ss'"
    using str_list_frame [OF Cons.prems(1) 1(2) s(3)] Cons.prems(4) by auto
  moreover have "blk h1 a = Some (ptr_cells ((ps @ [q]) @ qs))"
    using frame_blk [OF 1(2), of a] heap_ok_less [OF Cons.prems(1), of a] Cons.prems(2,4) by auto
  ultimately obtain h' where 2: "free_strings [length (ps @ [q])..<length (ps @ [q]) + length qs] (Some a) h1 = Some h'"
    "blk h' a = Some (ptr_cells ((ps @ [q]) @ qs))" "frame h1 (set qs) h' {}" "quota h' = quota h1"
    using Cons.IH [OF frame_heap_ok [OF 1(2)], of "ps @ [q]" ss'] Cons.prems(4) by auto
  have "frame h (set (q # qs)) h1 (set qs)"
    using frame_extend [OF 1(2), of "set qs"] Cons.prems(4) str_list_live [OF s(3)] heap_ok_less [OF Cons.prems(1)]
    by auto
  then have "frame h (set (q # qs)) h' {}"
    by (rule frame_trans [OF Cons.prems(1) _ 2(3)])
  then show ?case
    unfolding upt_next using 1 2 load_ok [OF Cons.prems(2), of "length ps"] by (simp add: nth_append del: upt_Suc)
qed

text \<open>Freeing the strings and then the array releases everything the array owns.\<close>

lemma free_array_ok:
  assumes "heap_ok h" "strs_at h a ps ss"
  shows "\<exists>h1 h2. free_strings [0..<length ss] (Some a) h = Some h1 \<and> c_free (Some a) h1 = Some h2
    \<and> frame h (set ps) h1 {} \<and> frame h (insert a (set ps)) h2 {} \<and> quota h2 = quota h \<and> quota h1 = quota h"
proof -
  have "length ps = length ss"
    using assms(2) list_all2_lengthD by (auto simp: strs_at_def)
  then obtain h1 where 1: "free_strings [0..<length ss] (Some a) h = Some h1" "blk h1 a = Some (ptr_cells ps)"
    "frame h (set ps) h1 {}" "quota h1 = quota h"
    using free_strings_from [OF assms(1), of a "[]" ps ss] assms(2) by (auto simp: strs_at_def)
  obtain h2 where 2: "c_free (Some a) h1 = Some h2" "frame h1 {a} h2 {}" "quota h2 = quota h1"
    using free_ok [OF frame_heap_ok [OF 1(3)], of a] 1(2) by auto
  have "frame h (insert a (set ps)) h1 {a}"
    using frame_extend [OF 1(3), of "{a}"] assms(2) strs_at_less [OF assms] by (auto simp: strs_at_def)
  then have "frame h (insert a (set ps)) h2 {}"
    by (rule frame_trans [OF assms(1) _ 2(2)])
  then show ?thesis
    using 1 2 by auto
qed

end
