(* ===== verification/CVectorProgs.thy ===== *)
theory CVectorProgs
  imports CText
begin

text \<open>
  The programs of \<^verbatim>\<open>vector/\<close>: \<^verbatim>\<open>PrintReducedVectorString\<close> of \<^verbatim>\<open>interface.c\<close>, and the arrays of
  \<^verbatim>\<open>inefficient.c\<close> that copy every string on each insertion.
\<close>

section \<open>interface.c\<close>

text \<open>Rows printed by a \<^verbatim>\<open>for\<close> loop over the array in a variable, and the clean-up of that array.\<close>

definition dump_vector :: "nat \<Rightarrow> cell \<Rightarrow> cheap \<Rightarrow> string list option" where
  "dump_vector n v h = (if n = 0 then Some [] else do { p \<leftarrow> as_ptr v; dump_strings [0..<n] p h })"

definition free_vector_strings :: "nat \<Rightarrow> cell \<Rightarrow> cheap \<Rightarrow> cheap option" where
  "free_vector_strings n v h = (if n = 0 then Some h else do { p \<leftarrow> as_ptr v; free_strings [0..<n] p h })"

text \<open>The tables printed, the exit status (0 for a return) and the heap.\<close>

definition PrintReducedVectorString :: "string \<Rightarrow> cheap \<Rightarrow> (string list list \<times> int \<times> cheap) option" where
  "PrintReducedVectorString source h =
     do {
       (st, n, v, h) \<leftarrow> push_lines VECTOR_PushBackString (-1) 0 CUndef (sep_all newline source) h;
       if st < 0 then Some ([], st, h)
       else do {
         d1 \<leftarrow> dump_vector n v h;
         (st, v, h) \<leftarrow> VECTOR_EraseString (int n) v 17 h;
         if st < 0 then Some ([d1], -2, h)
         else do {
           d2 \<leftarrow> dump_vector (n - 1) v h;
           (st, v, h) \<leftarrow> VECTOR_EraseString (int (n - 1)) v 19 h;
           if st < 0 then Some ([d1, d2], -2, h)
           else do {
             d3 \<leftarrow> dump_vector (n - 2) v h;
             h \<leftarrow> free_vector_strings (n - 2) v h;
             p \<leftarrow> as_ptr v;
             h \<leftarrow> c_free p h;
             Some ([d1, d2, d3], 0, h)
           }
         }
       }
     }"

definition without :: "nat \<Rightarrow> 'a list \<Rightarrow> 'a list" where
  "without i xs = take i xs @ drop (Suc i) xs"

lemma length_without [simp]: "i < length xs \<Longrightarrow> length (without i xs) = length xs - 1"
  by (simp add: without_def)

lemma dump_vector_ok: "strs_rep h v ss F \<Longrightarrow> dump_vector (length ss) v h = Some ss"
  by (auto simp: dump_vector_def strs_rep_def dump_strings_ok)

lemma strs_repE:
  assumes "strs_rep h v ss F" "ss \<noteq> []"
  obtains a ps where "v = CPtr (Some a)" "strs_at h a ps ss" "F = insert a (set ps)"
  using assms by (auto simp: strs_rep_def)

lemma free_vector_ok:
  assumes "heap_ok h" "strs_rep h v ss F" "ss \<noteq> []"
  shows "\<exists>h1 p h2. free_vector_strings (length ss) v h = Some h1 \<and> as_ptr v = Some p \<and> c_free p h1 = Some h2
    \<and> frame h F h2 {} \<and> quota h2 = quota h"
proof -
  obtain a ps where a: "v = CPtr (Some a)" "strs_at h a ps ss" "F = insert a (set ps)"
    using assms(2,3) by (rule strs_repE)
  then show ?thesis
    using free_array_ok [OF assms(1) a(2)] assms(3) by (auto simp: free_vector_strings_def)
qed

lemma EraseString_within:
  assumes "heap_ok h" "strs_rep h v ss F" "i < length ss" "1 < length ss" "2 \<le> quota h"
  shows "\<exists>v' h' F'. VECTOR_EraseString (int (length ss)) v (int i) h = Some (0, v', h')
    \<and> strs_rep h' v' (without i ss) F' \<and> frame h F h' F' \<and> quota h \<le> quota h' + 2"
  using str_vector.erase_law [OF assms(1-3,5)] assms(4) by (simp add: without_def)

lemma EraseString_beyond:
  "n \<le> i \<Longrightarrow> \<exists>st. st < 0 \<and> VECTOR_EraseString (int n) v (int i) h = Some (st, v, h)"
  using str_vector.erase_range [of "int i" n v h] by auto

text \<open>What the program prints and its exit status, as a function of the lines of the text.\<close>

definition reduced_tables :: "string list \<Rightarrow> string list list \<times> int" where
  "reduced_tables ls =
     (if length ls \<le> 17 then ([ls], -2)
      else if length ls \<le> 20 then ([ls, without 17 ls], -2)
      else ([ls, without 17 ls, without 19 (without 17 ls)], 0))"

lemma PrintReduced_refines:
  assumes "heap_ok h" "NUL \<notin> set source" "2 * length (sep_all newline source) + 4 \<le> quota h"
  shows "\<exists>h' F'. PrintReducedVectorString source h
      = Some (fst (reduced_tables (sep_all newline source)), snd (reduced_tables (sep_all newline source)), h')
    \<and> frame h {} h' F' \<and> (20 < length (sep_all newline source) \<longrightarrow> F' = {})"
proof -
  let ?ls = "sep_all newline source"
  obtain v1 h1 F1 where 1: "push_lines VECTOR_PushBackString (-1) 0 CUndef ?ls h = Some (0, length ?ls, v1, h1)"
    "strs_rep h1 v1 ?ls F1" "frame h {} h1 F1" "quota h \<le> quota h1 + 2 * length ?ls"
    using str_vector.push_lines_ok [OF assms(1) str_vector.rep_empty sep_all_NUL [OF assms(2)], of newline "-1" CUndef] assms(3) by auto
  note d1 = dump_vector_ok [OF 1(2)] and ok1 = frame_heap_ok [OF 1(3)]
  show ?thesis
  proof (cases "length ?ls \<le> 17")
    case True
    obtain st where "st < 0" "VECTOR_EraseString (int (length ?ls)) v1 17 h1 = Some (st, v1, h1)"
      using EraseString_beyond [OF True, of v1 h1] by auto
    then show ?thesis
      using 1 d1 True by (auto simp: PrintReducedVectorString_def reduced_tables_def)
  next
    case False
    then obtain v2 h2 F2 where 2: "VECTOR_EraseString (int (length ?ls)) v1 17 h1 = Some (0, v2, h2)"
      "strs_rep h2 v2 (without 17 ?ls) F2" "frame h1 F1 h2 F2" "quota h1 \<le> quota h2 + 2"
      using EraseString_within [OF ok1 1(2), of 17] 1(4) assms(3) by auto
    note d2 = dump_vector_ok [OF 2(2)] and ok2 = frame_heap_ok [OF 2(3)] and f2 = frame_trans [OF assms(1) 1(3) 2(3)]
    have n2: "length (without 17 ?ls) = length ?ls - 1"
      using False by simp
    show ?thesis
    proof (cases "length ?ls \<le> 20")
      case True
      then obtain st where "st < 0" "VECTOR_EraseString (int (length ?ls - 1)) v2 19 h2 = Some (st, v2, h2)"
        using EraseString_beyond [of "length ?ls - 1" 19 v2 h2] by force
      then show ?thesis
        using 1(1) 2(1) d1 d2 False True f2 n2 by (auto simp: PrintReducedVectorString_def reduced_tables_def)
    next
      case False2: False
      then obtain v3 h3 F3 where 3: "VECTOR_EraseString (int (length ?ls - 1)) v2 19 h2 = Some (0, v3, h3)"
        "strs_rep h3 v3 (without 19 (without 17 ?ls)) F3" "frame h2 F2 h3 F3"
        using EraseString_within [OF ok2 2(2), of 19] 1(4) 2(4) assms(3) n2 by force
      have n3: "length (without 19 (without 17 ?ls)) = length ?ls - 2"
        using False2 n2 length_without [of 19 "without 17 ?ls"] by simp
      then have ne: "without 19 (without 17 ?ls) \<noteq> []"
        using False2 by (metis diff_is_0_eq le_trans list.size(3) numeral_le_iff semiring_norm(68) semiring_norm(71) zero_le)
      obtain h4 p h5 where 4: "free_vector_strings (length ?ls - 2) v3 h3 = Some h4" "as_ptr v3 = Some p" "c_free p h4 = Some h5"
        "frame h3 F3 h5 {}"
        using free_vector_ok [OF frame_heap_ok [OF 3(3)] 3(2) ne] n3 by auto
      have "frame h {} h5 {}"
        by (rule frame_trans [OF assms(1) frame_trans [OF assms(1) f2 3(3)] 4(4)])
      then show ?thesis
        using 1(1) 2(1) 3(1) 4 d1 d2 dump_vector_ok [OF 3(2)] False False2 n2 n3
        by (auto simp: PrintReducedVectorString_def reduced_tables_def)
    qed
  qed
qed

section \<open>Sequences of operations\<close>

text \<open>
  A client keeps the number of elements beside the array, as the callers in \<^verbatim>\<open>interface.c\<close> and
  \<^verbatim>\<open>grep.c\<close> do: one more after a push, one less after an erase whose status is not an error.
\<close>

datatype 'a vop = Push 'a | Erase int

fun run_ops ::
  "(int \<Rightarrow> cell \<Rightarrow> 'a \<Rightarrow> cheap \<Rightarrow> (int \<times> cell \<times> cheap) option)
    \<Rightarrow> (int \<Rightarrow> cell \<Rightarrow> int \<Rightarrow> cheap \<Rightarrow> (int \<times> cell \<times> cheap) option)
    \<Rightarrow> 'a vop list \<Rightarrow> nat \<Rightarrow> cell \<Rightarrow> cheap \<Rightarrow> (int list \<times> nat \<times> cell \<times> cheap) option" where
  "run_ops push erase [] n v h = Some ([], n, v, h)"
| "run_ops push erase (Push x # ops) n v h =
     do {
       (st, v, h) \<leftarrow> push (int n) v x h;
       (sts, r) \<leftarrow> run_ops push erase ops (n + 1) v h;
       Some (st # sts, r)
     }"
| "run_ops push erase (Erase i # ops) n v h =
     do {
       (st, v, h) \<leftarrow> erase (int n) v i h;
       (sts, r) \<leftarrow> run_ops push erase ops (if st < 0 then n else n - 1) v h;
       Some (st # sts, r)
     }"

text \<open>The same sequence on a list.\<close>

fun list_op :: "'a vop \<Rightarrow> 'a list \<Rightarrow> int \<times> 'a list" where
  "list_op (Push x) xs = (0, xs @ [x])"
| "list_op (Erase i) xs =
     (if xs = [] then (-1, xs)
      else if i < 0 \<or> int (length xs) \<le> i then (-2, xs)
      else (if length xs = 1 then 1 else 0, without (nat i) xs))"

fun list_ops :: "'a vop list \<Rightarrow> 'a list \<Rightarrow> int list \<times> 'a list" where
  "list_ops [] xs = ([], xs)"
| "list_ops (op # ops) xs =
     (case list_op op xs of (st, ys) \<Rightarrow> case list_ops ops ys of (sts, zs) \<Rightarrow> (st # sts, zs))"

fun pushed :: "'a vop \<Rightarrow> 'a set" where
  "pushed (Push x) = {x}"
| "pushed (Erase i) = {}"

context c_vector
begin

lemma run_ops_refines:
  assumes "heap_ok h" "rep h v xs F" "\<forall>x \<in> \<Union> (pushed ` set ops). elem_ok x" "2 * length ops \<le> quota h"
  shows "\<exists>v' h' F'. run_ops push erase ops (length xs) v h
      = Some (fst (list_ops ops xs), length (snd (list_ops ops xs)), v', h')
    \<and> rep h' v' (snd (list_ops ops xs)) F' \<and> frame h F h' F'"
  using assms
proof (induction ops arbitrary: h v xs F)
  case Nil
  then show ?case
    using rep_live by (auto intro!: exI [of _ F])
next
  case (Cons op ops)
  obtain st v1 h1 F1 where 1: "run_ops push erase (op # ops) (length xs) v h
      = do { (sts, r) \<leftarrow> run_ops push erase ops (length (snd (list_op op xs))) v1 h1; Some (st # sts, r) }"
    "st = fst (list_op op xs)" "rep h1 v1 (snd (list_op op xs)) F1" "frame h F h1 F1" "quota h \<le> quota h1 + 2"
  proof (cases op)
    case (Push x)
    then show ?thesis
      using push_law [OF Cons.prems(1,2), of x] Cons.prems(3,4) that by fastforce
  next
    case (Erase k)
    show ?thesis
    proof (cases "k < 0 \<or> int (length xs) \<le> k")
      case True
      have "frame h F h F"
        using Cons.prems(1,2) rep_live by auto
      then show ?thesis
        using erase_range [OF True, of v h] Erase True Cons.prems(2) by (intro that [of v h _ F]) auto
    next
      case False
      then have k: "int (nat k) = k" "nat k < length xs"
        by auto
      obtain v1 h1 F1 where "erase (int (length xs)) v k h = Some (if length xs = 1 then 1 else 0, v1, h1)"
        "rep h1 v1 (without (nat k) xs) F1" "frame h F h1 F1" "quota h \<le> quota h1 + 2"
        using erase_law [OF Cons.prems(1,2) k(2)] Cons.prems(4) k(1) by (auto simp: without_def)
      then show ?thesis
        using Erase False k(2) by (intro that [of v1 h1 _ F1]) auto
    qed
  qed
  obtain v' h' F' where 2: "run_ops push erase ops (length (snd (list_op op xs))) v1 h1
      = Some (fst (list_ops ops (snd (list_op op xs))), length (snd (list_ops ops (snd (list_op op xs)))), v', h')"
    "rep h' v' (snd (list_ops ops (snd (list_op op xs)))) F'" "frame h1 F1 h' F'"
    using Cons.IH [OF frame_heap_ok [OF 1(4)] 1(3)] Cons.prems(3,4) 1(5) by auto
  have "list_ops (op # ops) xs = (st # fst (list_ops ops (snd (list_op op xs))), snd (list_ops ops (snd (list_op op xs))))"
    using 1(2) by (simp split: prod.splits)
  then show ?case
    using 1(1) 2 frame_trans [OF Cons.prems(1) 1(4) 2(3)] by auto
qed

end

section \<open>Properties\<close>

text \<open>
  C25: every sequence of pushes and erases on an array of strings returns the status codes and leaves
  the elements that the same sequence gives on a list, on erases outside the array (-2) and of an
  empty one (-1) as well; it never faults, the blocks it allocates and does not free are those of
  the final array, and no other block changes.
\<close>

theorem string_vector_refines:
  assumes "heap_ok h" "strs_rep h v ss F" "\<forall>s \<in> \<Union> (pushed ` set ops). NUL \<notin> set s" "2 * length ops \<le> quota h"
  shows "\<exists>v' h' F'. run_ops VECTOR_PushBackString VECTOR_EraseString ops (length ss) v h
      = Some (fst (list_ops ops ss), length (snd (list_ops ops ss)), v', h')
    \<and> strs_rep h' v' (snd (list_ops ops ss)) F' \<and> frame h F h' F'"
  using assms by (rule str_vector.run_ops_refines)

theorem string_vector_refines_witness:
  "\<exists>v' h' F'. run_ops VECTOR_PushBackString VECTOR_EraseString
      [Erase 0, Push ''ab'', Push [], Push ''c'', Erase 0, Erase 2] 0 CUndef (empty_heap 12)
      = Some ([-1, 0, 0, 0, 0, -2], 2, v', h')
    \<and> strs_rep h' v' [[], ''c''] F' \<and> frame (empty_heap 12) {} h' F'"
  using string_vector_refines [of "empty_heap 12" CUndef "[]" "{}"
      "[Erase 0, Push ''ab'', Push [], Push ''c'', Erase 0, Erase 2]"]
  by (simp add: str_vector.rep_empty without_def numeral_2_eq_2 del: run_ops.simps)

text \<open>
  The same for the arrays of integers; emptying the array gives status 1 and frees its block.
\<close>

theorem int_vector_refines:
  assumes "heap_ok h" "ints_rep h v xs F" "2 * length ops \<le> quota h"
  shows "\<exists>v' h' F'. run_ops VECTOR_PushBackInt VECTOR_EraseInt ops (length xs) v h
      = Some (fst (list_ops ops xs), length (snd (list_ops ops xs)), v', h')
    \<and> ints_rep h' v' (snd (list_ops ops xs)) F' \<and> frame h F h' F'"
  using int_vector.run_ops_refines [OF assms(1,2) _ assms(3)] by simp

theorem int_vector_refines_witness:
  "\<exists>v' h' F'. run_ops VECTOR_PushBackInt VECTOR_EraseInt
      [Push 4, Push 5, Push 6, Erase 1, Erase 0, Erase 0, Erase 0] 0 CUndef (empty_heap 14)
      = Some ([0, 0, 0, 0, 0, 1, -1], 0, v', h')
    \<and> ints_rep h' v' [] F' \<and> frame (empty_heap 14) {} h' F'"
  using int_vector_refines [of "empty_heap 14" CUndef "[]" "{}"
      "[Push 4, Push 5, Push 6, Erase 1, Erase 0, Erase 0, Erase 0]"]
  by (simp add: int_vector.rep_empty without_def del: run_ops.simps)

text \<open>
  \<^verbatim>\<open>PrintReducedVectorString\<close> prints the lines of its text, the lines without number 17, and those
  without number 19 of the rest, and then has freed every block it allocated.  A text that is too
  short makes it exit with -2 after the table it could print.  The lines are the pieces between
  line feeds: joining them gives the text back.
\<close>

theorem print_reduced:
  assumes "heap_ok h" "NUL \<notin> set source" "2 * length (sep_all newline source) + 4 \<le> quota h"
  shows "\<exists>h' F'. PrintReducedVectorString source h
      = Some (fst (reduced_tables (sep_all newline source)), snd (reduced_tables (sep_all newline source)), h')
    \<and> frame h {} h' F' \<and> (20 < length (sep_all newline source) \<longrightarrow> F' = {} \<and> (\<forall>a. blk h' a = blk h a))
    \<and> join newline (sep_all newline source) = source"
proof -
  obtain h' F' where "PrintReducedVectorString source h
      = Some (fst (reduced_tables (sep_all newline source)), snd (reduced_tables (sep_all newline source)), h')"
    and f: "frame h {} h' F'" "20 < length (sep_all newline source) \<longrightarrow> F' = {}"
    using PrintReduced_refines [OF assms] by blast
  moreover have "20 < length (sep_all newline source) \<longrightarrow> (\<forall>a. blk h' a = blk h a)"
    using f by (simp add: frame_def)
  ultimately show ?thesis
    using sep_all_join by blast
qed

theorem print_reduced_witness:
  "\<exists>h' F'. PrintReducedVectorString (replicate 20 newline) (empty_heap 50)
      = Some ([replicate 21 [], replicate 20 [], replicate 19 []], 0, h')
    \<and> frame (empty_heap 50) {} h' F' \<and> F' = {} \<and> (\<forall>a. blk h' a = None)"
proof -
  have ls: "sep_all newline (replicate 20 newline) = replicate 21 []"
    by code_simp
  have "NUL \<notin> set (replicate 20 newline)"
    by simp
  moreover have "reduced_tables (replicate 21 []) = ([replicate 21 [], replicate 20 [], replicate 19 []], 0)"
    by code_simp
  ultimately show ?thesis
    using print_reduced [of "empty_heap 50" "replicate 20 newline"] by (auto simp: ls)
qed

end
