(* ===== verification/CVectorCopy.thy ===== *)
theory CVectorCopy
  imports CVectorProgs
begin

text \<open>
  The arrays of \<^verbatim>\<open>vector/inefficient.c\<close>: each insertion allocates a new array and copies every
  string into it.  A \<^verbatim>\<open>struct VectorString\<close> is a block of two cells, \<^verbatim>\<open>size\<close> and \<^verbatim>\<open>vector\<close>.
\<close>

section \<open>inefficient.c\<close>

fun copy_strings :: "nat list \<Rightarrow> nat option \<Rightarrow> nat option \<Rightarrow> cheap \<Rightarrow> cheap option" where
  "copy_strings [] src dst h = Some h"
| "copy_strings (i # is) src dst h =
     do {
       c \<leftarrow> c_load src i h;
       q \<leftarrow> as_ptr c;
       s \<leftarrow> str_of q h;
       (r, h) \<leftarrow> dup_string s h;
       h \<leftarrow> c_store dst i (CPtr r) h;
       h \<leftarrow> c_free q h;
       copy_strings is src dst h
     }"

definition vs_size :: "nat option \<Rightarrow> cheap \<Rightarrow> int option" where
  "vs_size sv h = do { c \<leftarrow> c_load sv 0 h; as_int c }"

definition vs_vector :: "nat option \<Rightarrow> cheap \<Rightarrow> nat option option" where
  "vs_vector sv h = do { c \<leftarrow> c_load sv 1 h; as_ptr c }"

definition PushBackString :: "nat option \<Rightarrow> string \<Rightarrow> cheap \<Rightarrow> (nat option \<times> cheap) option" where
  "PushBackString sv new_str h =
     do {
       org_vec_size \<leftarrow> vs_size sv h;
       (new_vec, h) \<leftarrow> Some (c_malloc 2 h);
       (vec, h) \<leftarrow> Some (c_malloc (nat (org_vec_size + 1)) h);
       h \<leftarrow> c_store new_vec 1 (CPtr vec) h;
       h \<leftarrow> (if org_vec_size \<le> 0 then Some h
             else do { p \<leftarrow> vs_vector sv h; copy_strings [0..<nat org_vec_size] p vec h });
       h \<leftarrow> (if org_vec_size > 0 then do { p \<leftarrow> vs_vector sv h; c_free p h } else Some h);
       h \<leftarrow> c_free sv h;
       (r, h) \<leftarrow> dup_string new_str h;
       h \<leftarrow> c_store vec (nat org_vec_size) (CPtr r) h;
       h \<leftarrow> c_store new_vec 0 (CInt (org_vec_size + 1)) h;
       Some (new_vec, h)
     }"

definition VS_new :: "cheap \<Rightarrow> (nat option \<times> cheap) option" where
  "VS_new h =
     do {
       (new_vec, h) \<leftarrow> Some (c_malloc 2 h);
       h \<leftarrow> c_store new_vec 0 (CInt 0) h;
       Some (new_vec, h)
     }"

definition VS_append :: "nat option \<Rightarrow> string \<Rightarrow> cheap \<Rightarrow> cheap option" where
  "VS_append sv new_str h =
     do {
       org_vec_size \<leftarrow> vs_size sv h;
       (new_vec, h) \<leftarrow> Some (c_malloc (nat (org_vec_size + 1)) h);
       h \<leftarrow> (if org_vec_size \<le> 0 then Some h
             else do { p \<leftarrow> vs_vector sv h; copy_strings [0..<nat org_vec_size] p new_vec h });
       p \<leftarrow> vs_vector sv h;
       h \<leftarrow> c_free p h;
       (r, h) \<leftarrow> dup_string new_str h;
       h \<leftarrow> c_store new_vec (nat org_vec_size) (CPtr r) h;
       h \<leftarrow> c_store sv 1 (CPtr new_vec) h;
       c_store sv 0 (CInt (org_vec_size + 1)) h
     }"

definition VS_delete :: "nat option \<Rightarrow> cheap \<Rightarrow> cheap option" where
  "VS_delete sv h =
     do {
       v_size \<leftarrow> vs_size sv h;
       h \<leftarrow> (if v_size \<le> 0 then Some h
             else do { p \<leftarrow> vs_vector sv h; free_strings [0..<nat v_size] p h });
       c_free sv h
     }"

text \<open>\<^verbatim>\<open>PushBackString2\<close> works through a pointer to the caller's variable; the result is its new value.\<close>

definition PushBackString2 :: "nat option \<Rightarrow> string \<Rightarrow> cheap \<Rightarrow> (nat option \<times> cheap) option" where
  "PushBackString2 sv new_str h =
     do {
       org_vec_size \<leftarrow> vs_size sv h;
       (new_vec, h) \<leftarrow> Some (c_malloc 2 h);
       (vec, h) \<leftarrow> Some (c_malloc (nat (org_vec_size + 1)) h);
       h \<leftarrow> c_store new_vec 1 (CPtr vec) h;
       h \<leftarrow> (if org_vec_size \<le> 0 then Some h
             else do { p \<leftarrow> vs_vector sv h; copy_strings [0..<nat org_vec_size] p vec h });
       h \<leftarrow> (if org_vec_size > 0 then do { p \<leftarrow> vs_vector sv h; c_free p h } else Some h);
       h \<leftarrow> c_free sv h;
       (r, h) \<leftarrow> dup_string new_str h;
       h \<leftarrow> c_store vec (nat org_vec_size) (CPtr r) h;
       h \<leftarrow> c_store new_vec 0 (CInt (org_vec_size + 1)) h;
       Some (new_vec, h)
     }"

fun push_all :: "(nat option \<Rightarrow> string \<Rightarrow> cheap \<Rightarrow> (nat option \<times> cheap) option) \<Rightarrow> nat option \<Rightarrow> string list \<Rightarrow> cheap
    \<Rightarrow> (nat option \<times> cheap) option" where
  "push_all push sv [] h = Some (sv, h)"
| "push_all push sv (s # ss) h = do { (sv, h) \<leftarrow> push sv s h; push_all push sv ss h }"

fun append_all :: "nat option \<Rightarrow> string list \<Rightarrow> cheap \<Rightarrow> cheap option" where
  "append_all sv [] h = Some h"
| "append_all sv (s # ss) h = do { h \<leftarrow> VS_append sv s h; append_all sv ss h }"

definition vs_rows :: "nat option \<Rightarrow> cheap \<Rightarrow> string list option" where
  "vs_rows sv h =
     do {
       n \<leftarrow> vs_size sv h;
       if n \<le> 0 then Some [] else do { p \<leftarrow> vs_vector sv h; dump_strings [0..<nat n] p h }
     }"

text \<open>The size of the stack buffers the text is copied into.\<close>

definition MAX_STREAM_LEN :: nat where
  "MAX_STREAM_LEN = 1024 * 1024"

definition PrintPushBackStringStruct :: "string \<Rightarrow> cheap \<Rightarrow> (string list list \<times> cheap) option" where
  "PrintPushBackStringStruct source h =
     (if MAX_STREAM_LEN \<le> length source then None
      else do {
        (sv, h) \<leftarrow> Some (c_malloc 2 h);
        h \<leftarrow> c_store sv 0 (CInt 0) h;
        (sv, h) \<leftarrow> push_all PushBackString sv (tok_all newline source) h;
        row \<leftarrow> vs_size sv h;
        d1 \<leftarrow> vs_rows sv h;
        h \<leftarrow> (if row \<le> 0 then Some h else do { p \<leftarrow> vs_vector sv h; free_strings [0..<nat row] p h });
        p \<leftarrow> vs_vector sv h;
        h \<leftarrow> c_free p h;
        h \<leftarrow> c_free sv h;
        (sv2, h) \<leftarrow> VS_new h;
        h \<leftarrow> append_all sv2 (tok_all newline source) h;
        d2 \<leftarrow> vs_rows sv2 h;
        h \<leftarrow> VS_delete sv2 h;
        (sv3, h) \<leftarrow> VS_new h;
        (sv3, h) \<leftarrow> push_all PushBackString2 sv3 (tok_all newline source) h;
        d3 \<leftarrow> vs_rows sv3 h;
        h \<leftarrow> VS_delete sv3 h;
        Some ([d1, d2, d3], h)
      })"

section \<open>Copying an array\<close>

lemma copy_strings_from:
  "\<lbrakk>heap_ok h; blk h a = Some (ptr_cells (os @ ps)); length rs = length os; length cs = length ps + k;
    blk h b = Some (ptr_cells rs @ cs); list_all2 (str_at h) rs ts; list_all2 (str_at h) ps ss;
    distinct (a # b # rs @ ps); length ps \<le> quota h\<rbrakk> \<Longrightarrow>
    \<exists>h' rs'. copy_strings [length os..<length os + length ps] (Some a) (Some b) h = Some h'
      \<and> blk h' b = Some (ptr_cells (rs @ rs') @ drop (length ps) cs) \<and> list_all2 (str_at h') (rs @ rs') (ts @ ss)
      \<and> distinct (a # b # rs @ rs')
      \<and> frame h (insert a (insert b (set (rs @ ps)))) h' (insert a (insert b (set (rs @ rs'))))
      \<and> quota h' = quota h - length ps \<and> blk h' a \<noteq> None"
proof (induction ps arbitrary: os rs cs ts ss h)
  case Nil
  then show ?case
    using str_list_live [OF Nil.prems(6)] by (intro exI [of _ h] exI [of _ "[]"]) (auto intro!: frame_refl)
next
  case (Cons p ps)
  let ?r = "nxt_addr h" and ?F = "insert a (insert b (set (rs @ p # ps)))"
  obtain s ss' where s: "ss = s # ss'" "str_at h p s" "list_all2 (str_at h) ps ss'"
    using Cons.prems(7) by (auto simp: list_all2_Cons1)
  obtain c cs' where c: "cs = c # cs'"
    using Cons.prems(4) by (cases cs) auto
  have le: "?F \<subseteq> {..<nxt_addr h}"
    using Cons.prems(2,5) str_list_live [OF Cons.prems(6)] str_list_live [OF Cons.prems(7)] heap_ok_less [OF Cons.prems(1)]
    by auto
  obtain h1 where 1: "dup_string s h = Some (Some ?r, h1)" "str_at h1 ?r s" "frame h {} h1 {?r}" "quota h1 = quota h - 1"
    "nxt_addr h1 = ?r + 1"
    using dup_string_ok [OF Cons.prems(1), of s] Cons.prems(9) s(2) by (auto simp: str_at_def)
  note ok1 = frame_heap_ok [OF 1(3)]
  have b1: "blk h1 b = Some (ptr_cells rs @ c # cs')"
    using frame_blk [OF 1(3), of b] le Cons.prems(5) c by auto
  obtain h2 where 2: "c_store (Some b) (length rs) (CPtr (Some ?r)) h1 = Some h2"
    "blk h2 b = Some (ptr_cells (rs @ [?r]) @ cs')" "frame h1 {b} h2 {b}" "quota h2 = quota h1" "nxt_addr h2 = nxt_addr h1"
    using store_ok [OF ok1 b1, of "length rs" "CPtr (Some ?r)"] by (auto simp: list_update_append)
  note ok2 = frame_heap_ok [OF 2(3)]
  have p2: "str_at h2 p s"
    using str_at_frame [OF 2(3) str_at_frame [OF 1(3) s(2) _ Cons.prems(1)] _ ok1] Cons.prems(8) by auto
  obtain h3 where 3: "c_free (Some p) h2 = Some h3" "frame h2 {p} h3 {}" "quota h3 = quota h2" "nxt_addr h3 = nxt_addr h2"
    using free_ok [OF ok2 str_at_live [OF p2]] by auto
  note ok3 = frame_heap_ok [OF 3(2)]
  have keep: "blk h3 x = blk h x" if "x \<in> ?F" "x \<noteq> b" "x \<noteq> p" for x
    using frame_blk [OF 3(2), of x] frame_blk [OF 2(3), of x] frame_blk [OF 1(3), of x] that le 1(5) 2(5) by force
  have a3: "blk h3 a = Some (ptr_cells ((os @ [p]) @ ps))" "blk h3 b = Some (ptr_cells (rs @ [?r]) @ cs')"
    using keep [of a] frame_blk [OF 3(2), of b] Cons.prems(2,8) 2 1(5) le by auto
  have l3: "list_all2 (str_at h3) (rs @ [?r]) (ts @ [s])" "list_all2 (str_at h3) ps ss'"
  proof -
    have "blk h3 x = blk h x" if "x \<in> set (rs @ ps)" for x
      using keep [of x] that Cons.prems(8) by auto
    then have "list_all2 (str_at h3) (rs @ ps) (ts @ ss')"
      using list_all2_appendI [OF Cons.prems(6) s(3)] by (elim list.rel_mono_strong) (simp add: str_at_def)
    moreover have "str_at h3 ?r s"
      using str_at_frame [OF 3(2) str_at_frame [OF 2(3) 1(2) _ ok1] _ ok2] le by auto
    ultimately show "list_all2 (str_at h3) (rs @ [?r]) (ts @ [s])" "list_all2 (str_at h3) ps ss'"
      using list_all2_lengthD [OF Cons.prems(6)] by (simp_all add: list_all2_append)
  qed
  have d3: "distinct (a # b # (rs @ [?r]) @ ps)"
    using Cons.prems(8) le by auto
  have n3: "length (rs @ [?r]) = length (os @ [p])" "length cs' = length ps + k" "length ps \<le> quota h3"
    using Cons.prems(3,4,9) c 1(4) 2(4) 3(3) by auto
  obtain h' rs' where 4: "copy_strings [length (os @ [p])..<length (os @ [p]) + length ps] (Some a) (Some b) h3 = Some h'"
    "blk h' b = Some (ptr_cells ((rs @ [?r]) @ rs') @ drop (length ps) cs')"
    "list_all2 (str_at h') ((rs @ [?r]) @ rs') ((ts @ [s]) @ ss')" "distinct (a # b # (rs @ [?r]) @ rs')"
    "frame h3 (insert a (insert b (set ((rs @ [?r]) @ ps)))) h' (insert a (insert b (set ((rs @ [?r]) @ rs'))))"
    "quota h' = quota h3 - length ps" "blk h' a \<noteq> None"
    using Cons.IH [OF ok3 a3(1) n3(1,2) a3(2) l3 d3 n3(3)] by blast
  have "frame h ?F h ?F"
    using Cons.prems(1,2,5) str_list_live [OF Cons.prems(6)] str_list_live [OF Cons.prems(7)] by (intro frame_refl) auto
  then have "frame h ?F h1 (insert ?r ?F)"
    by (rule frame_step [OF Cons.prems(1) _ 1(3)]) (use le in auto)
  then have "frame h ?F h2 (insert ?r ?F)"
    by (rule frame_step [OF Cons.prems(1) _ 2(3)]) (use le 1(5) in auto)
  then have "frame h ?F h3 (insert a (insert b (set ((rs @ [?r]) @ ps))))"
    by (rule frame_step [OF Cons.prems(1) _ 3(2)]) (use le 1(5) 2(5) Cons.prems(8) in auto)
  note f = frame_trans [OF Cons.prems(1) this 4(5)]
  show ?case
    unfolding upt_next using 1(1,4) 2(1,4) 3(1,3) 4 f s(1) c load_ok [OF Cons.prems(2), of "length os"] str_at_str_of [OF s(2)] Cons.prems(3)
    by (intro exI [of _ h'] exI [of _ "?r # rs'"]) (auto simp: nth_append simp del: upt_Suc)
qed

text \<open>
  Moving the strings of an array into a longer one at \<^term>\<open>b\<close>, and releasing the old array; this is
  how \<^verbatim>\<open>PushBackString\<close>, \<^verbatim>\<open>PushBackString2\<close> and \<^verbatim>\<open>VS_append\<close> start.
\<close>

definition vs_rep :: "cheap \<Rightarrow> nat option \<Rightarrow> string list \<Rightarrow> nat set \<Rightarrow> bool" where
  "vs_rep h sv ss F \<longleftrightarrow>
     (\<exists>a v G. sv = Some a \<and> blk h a = Some [CInt (int (length ss)), v] \<and> strs_rep h v ss G \<and> a \<notin> G \<and> F = insert a G)"

lemma vs_fields: "blk h a = Some [CInt n, v] \<Longrightarrow> vs_size (Some a) h = Some n \<and> vs_vector (Some a) h = as_ptr v"
  by (simp add: vs_size_def vs_vector_def c_load_def)

lemma relocate_ok:
  assumes "heap_ok h" "blk h a = Some [CInt (int (length ss)), v]" "strs_rep h v ss G"
    "blk h b = Some (replicate (Suc (length ss)) CUndef)" "b \<notin> G" "a \<notin> insert b G" "length ss \<le> quota h"
  shows "\<exists>h1 h2 rs. (if int (length ss) \<le> 0 then Some h
        else do { p \<leftarrow> vs_vector (Some a) h; copy_strings [0..<length ss] p (Some b) h }) = Some h1
    \<and> (if int (length ss) > 0 then do { p \<leftarrow> vs_vector (Some a) h1; c_free p h1 } else Some h1) = Some h2
    \<and> blk h2 b = Some (ptr_cells rs @ [CUndef]) \<and> list_all2 (str_at h2) rs ss \<and> distinct (b # rs)
    \<and> frame h (insert b G) h2 (insert b (set rs)) \<and> quota h2 = quota h - length ss"
proof (cases "ss = []")
  case True
  then show ?thesis
    using assms by (intro exI [of _ h] exI [of _ "[]"]) (auto simp: strs_rep_def intro!: frame_refl)
next
  case False
  let ?n = "length ss"
  obtain c ps where c: "v = CPtr (Some c)" "strs_at h c ps ss" "G = insert c (set ps)"
    using assms(3) False by (rule strs_repE)
  then have ps: "blk h c = Some (ptr_cells ps)" "list_all2 (str_at h) ps ss" "distinct (c # ps)" "length ps = ?n"
    using list_all2_lengthD by (auto simp: strs_at_def)
  have last: "drop ?n (CUndef # replicate ?n CUndef) = [CUndef]"
    using drop_replicate [of ?n "Suc ?n" CUndef] by simp
  obtain h1 rs where 1: "copy_strings [0..<?n] (Some c) (Some b) h = Some h1"
    "blk h1 b = Some (ptr_cells rs @ [CUndef])" "list_all2 (str_at h1) rs ss" "distinct (c # b # rs)"
    "frame h (insert c (insert b (set ps))) h1 (insert c (insert b (set rs)))" "quota h1 = quota h - ?n" "blk h1 c \<noteq> None"
    using copy_strings_from [of h c "[]" ps "[]" "replicate (Suc ?n) CUndef" 1 b "[]" ss] assms ps c(3) last by auto
  note ok1 = frame_heap_ok [OF 1(5)]
  have "blk h1 a = blk h a"
    using frame_blk [OF 1(5), of a] assms(2,6) c(3) heap_ok_less [OF assms(1), of a] by auto
  then have v1: "vs_vector (Some a) h1 = Some (Some c)" "vs_vector (Some a) h = Some (Some c)"
    using vs_fields [of h1 a] vs_fields [OF assms(2)] assms(2) c(1) by auto
  obtain h2 where 2: "c_free (Some c) h1 = Some h2" "frame h1 {c} h2 {}" "quota h2 = quota h1"
    using free_ok [OF ok1 1(7)] by auto
  have le: "insert c (insert b (set rs)) \<subseteq> {..<nxt_addr h1}"
    using heap_ok_less [OF ok1] 1(2,7) str_list_live [OF 1(3)] by auto
  have "blk h2 b = blk h1 b" "list_all2 (str_at h2) rs ss"
    using frame_blk [OF 2(2), of b] le 1(4) str_list_frame [OF ok1 2(2) 1(3)] by auto
  moreover have "frame h (insert b G) h2 (insert b (set rs))"
    using 1(5) c(3) by (intro frame_step [OF assms(1) _ 2(2) _ le]) (use 1(4) in \<open>auto simp: insert_commute\<close>)
  ultimately show ?thesis
    using 1 2 v1 False by (intro exI [of _ h1] exI [of _ h2] exI [of _ rs]) auto
qed

text \<open>The new string goes into the last cell of the longer array.\<close>

lemma put_last_ok:
  assumes "heap_ok h" "blk h b = Some (ptr_cells rs @ [CUndef])" "list_all2 (str_at h) rs ss" "distinct (b # rs)"
    "NUL \<notin> set s" "0 < quota h"
  shows "\<exists>r h1 h2. dup_string s h = Some (Some r, h1) \<and> c_store (Some b) (length ss) (CPtr (Some r)) h1 = Some h2
    \<and> strs_at h2 b (rs @ [r]) (ss @ [s]) \<and> frame h (insert b (set rs)) h2 (insert b (set (rs @ [r])))
    \<and> quota h2 = quota h - 1 \<and> nxt_addr h \<le> r"
proof -
  let ?r = "nxt_addr h"
  have le: "insert b (set rs) \<subseteq> {..<?r}"
    using heap_ok_less [OF assms(1)] assms(2) str_list_live [OF assms(3)] by auto
  obtain h1 where 1: "dup_string s h = Some (Some ?r, h1)" "str_at h1 ?r s" "frame h {} h1 {?r}" "quota h1 = quota h - 1"
    "nxt_addr h1 = ?r + 1"
    using dup_string_ok [OF assms(1,6,5)] by auto
  note ok1 = frame_heap_ok [OF 1(3)]
  have b1: "blk h1 b = Some (ptr_cells rs @ [CUndef])"
    using frame_blk [OF 1(3), of b] le assms(2) by auto
  have n: "length rs = length ss"
    using list_all2_lengthD [OF assms(3)] .
  obtain h2 where 2: "c_store (Some b) (length ss) (CPtr (Some ?r)) h1 = Some h2" "blk h2 b = Some (ptr_cells (rs @ [?r]))"
    "frame h1 {b} h2 {b}" "quota h2 = quota h1"
    using store_ok [OF ok1 b1, of "length ss" "CPtr (Some ?r)"] n by (auto simp: list_update_append)
  have "list_all2 (str_at h2) (rs @ [?r]) (ss @ [s])"
    using assms(4) le str_list_frame [OF assms(1) 1(3) assms(3)] str_at_frame [OF 2(3) 1(2) _ ok1]
    by (intro list_all2_appendI [OF str_list_frame [OF ok1 2(3)]]) auto
  then have "strs_at h2 b (rs @ [?r]) (ss @ [s])"
    using 2(2) assms(4) le by (auto simp: strs_at_def)
  moreover have "frame h (insert b (set rs)) h1 (insert ?r (insert b (set rs)))"
    using frame_extend [OF 1(3) _ le] by (simp add: insert_commute)
  then have "frame h (insert b (set rs)) h2 (insert b (set (rs @ [?r])))"
    by (rule frame_step [OF assms(1) _ 2(3)]) (use le 1(5) in auto)
  ultimately show ?thesis
    using 1 2 by auto
qed

section \<open>The operations\<close>

lemma PushBackString2_eq: "PushBackString2 = PushBackString"
  by (simp add: fun_eq_iff PushBackString2_def PushBackString_def)

lemma strs_rep_less: "\<lbrakk>heap_ok h; strs_rep h v ss G\<rbrakk> \<Longrightarrow> G \<subseteq> {..<nxt_addr h}"
  using str_vector.rep_live heap_ok_less by blast

text \<open>A new structure with a new array, as \<^verbatim>\<open>PushBackString\<close> allocates them.\<close>

lemma fresh_vector_ok:
  assumes "heap_ok h" "2 \<le> quota h"
  shows "\<exists>h1 h2 h3. c_malloc 2 h = (Some (nxt_addr h), h1) \<and> c_malloc n h1 = (Some (nxt_addr h + 1), h2)
    \<and> c_store (Some (nxt_addr h)) 1 (CPtr (Some (nxt_addr h + 1))) h2 = Some h3
    \<and> blk h3 (nxt_addr h) = Some [CUndef, CPtr (Some (nxt_addr h + 1))]
    \<and> blk h3 (nxt_addr h + 1) = Some (replicate n CUndef) \<and> frame h {} h3 {nxt_addr h, nxt_addr h + 1}
    \<and> quota h3 = quota h - 2 \<and> nxt_addr h3 = nxt_addr h + 2"
proof -
  let ?w = "nxt_addr h" and ?b = "nxt_addr h + 1"
  obtain h1 where 1: "c_malloc 2 h = (Some ?w, h1)" "blk h1 ?w = Some (replicate 2 CUndef)" "frame h {} h1 {?w}"
    "quota h1 = quota h - 1" "nxt_addr h1 = ?b"
    using malloc_ok [OF assms(1), of 2] assms(2) by auto
  obtain h2 where 2: "c_malloc n h1 = (Some ?b, h2)" "blk h2 ?b = Some (replicate n CUndef)" "frame h1 {} h2 {?b}"
    "quota h2 = quota h1 - 1" "nxt_addr h2 = ?b + 1"
    using malloc_ok [OF frame_heap_ok [OF 1(3)], of n] 1(4,5) assms(2) by auto
  have "blk h2 ?w = Some [CUndef, CUndef]"
    using frame_blk [OF 2(3), of ?w] 1(2,5) by (simp add: numeral_2_eq_2)
  then obtain h3 where 3: "c_store (Some ?w) 1 (CPtr (Some ?b)) h2 = Some h3" "blk h3 ?w = Some [CUndef, CPtr (Some ?b)]"
    "frame h2 {?w} h3 {?w}" "quota h3 = quota h2" "nxt_addr h3 = nxt_addr h2"
    using store_ok [OF frame_heap_ok [OF 2(3)], of ?w _ 1 "CPtr (Some ?b)"] by fastforce
  have "frame h {} h2 {?w, ?b}"
    by (rule frame_step [OF assms(1) 1(3) 2(3)]) (use 1(5) in auto)
  then have "frame h {} h3 {?w, ?b}"
    by (rule frame_step [OF assms(1) _ 3(3)]) (use 2(5) in auto)
  moreover have "blk h3 ?b = Some (replicate n CUndef)"
    using frame_blk [OF 3(3), of ?b] 2(2,5) by simp
  ultimately show ?thesis
    using 1 2 3 by auto
qed

lemma PushBackString_copy_ok:
  assumes "heap_ok h" "vs_rep h sv ss F" "NUL \<notin> set s" "length ss + 3 \<le> quota h"
  shows "\<exists>sv' h' F'. PushBackString sv s h = Some (sv', h') \<and> vs_rep h' sv' (ss @ [s]) F' \<and> frame h F h' F'
    \<and> quota h' = quota h - (length ss + 3)"
proof -
  let ?n = "length ss" and ?w = "nxt_addr h" and ?b = "nxt_addr h + 1"
  obtain a v G where a: "sv = Some a" "blk h a = Some [CInt (int ?n), v]" "strs_rep h v ss G" "a \<notin> G" "F = insert a G"
    using assms(2) by (auto simp: vs_rep_def)
  have le: "F \<subseteq> {..<?w}"
    using strs_rep_less [OF assms(1) a(3)] heap_ok_less [OF assms(1), of a] a(2,5) by auto
  obtain h1 h2 h3 where 3: "c_malloc 2 h = (Some ?w, h1)" "c_malloc (Suc ?n) h1 = (Some ?b, h2)"
    "c_store (Some ?w) 1 (CPtr (Some ?b)) h2 = Some h3" "blk h3 ?w = Some [CUndef, CPtr (Some ?b)]"
    "blk h3 ?b = Some (replicate (Suc ?n) CUndef)" "frame h {} h3 {?w, ?b}" "quota h3 = quota h - 2" "nxt_addr h3 = ?w + 2"
    using fresh_vector_ok [OF assms(1), of "Suc ?n"] assms(4) by auto
  have a3: "blk h3 a = Some [CInt (int ?n), v]" "strs_rep h3 v ss G"
    using frame_blk [OF 3(6), of a] a(2,5) le str_vector.rep_frame [OF assms(1) a(3) 3(6)] by auto
  have b: "?b \<notin> G" "a \<notin> insert ?b G" "?n \<le> quota h3"
    using le a(4,5) 3(7) assms(4) by auto
  obtain h4 h5 rs where 5: "(if int ?n \<le> 0 then Some h3 else do { p \<leftarrow> vs_vector (Some a) h3; copy_strings [0..<?n] p (Some ?b) h3 }) = Some h4"
    "(if int ?n > 0 then do { p \<leftarrow> vs_vector (Some a) h4; c_free p h4 } else Some h4) = Some h5"
    "blk h5 ?b = Some (ptr_cells rs @ [CUndef])" "list_all2 (str_at h5) rs ss" "distinct (?b # rs)"
    "frame h3 (insert ?b G) h5 (insert ?b (set rs))" "quota h5 = quota h3 - ?n"
    using relocate_ok [OF frame_heap_ok [OF 3(6)] a3(1,2) 3(5) b] by blast
  note ok5 = frame_heap_ok [OF 5(6)]
  have w5: "blk h5 ?w = Some [CUndef, CPtr (Some ?b)]" "blk h5 a = Some [CInt (int ?n), v]"
    using frame_blk [OF 5(6), of ?w] frame_blk [OF 5(6), of a] 3(4,8) a3(1) a(4,5) le by auto
  obtain h6 where 6: "c_free (Some a) h5 = Some h6" "frame h5 {a} h6 {}" "quota h6 = quota h5" "nxt_addr h6 = nxt_addr h5"
    using free_ok [OF ok5, of a] w5(2) by auto
  note ok6 = frame_heap_ok [OF 6(2)]
  have rs: "set rs \<subseteq> {..<nxt_addr h5}" "?b < nxt_addr h5" "?w < nxt_addr h5" "a < nxt_addr h5"
    using str_list_live [OF 5(4)] heap_ok_less [OF ok5] 5(3) w5 by auto
  have "set rs \<inter> {..<nxt_addr h3} \<subseteq> insert ?b G"
    using 5(6) by (auto simp: frame_def)
  then have d: "a \<notin> set rs" "?w \<notin> set rs"
    using a(4,5) le 3(8) b by auto
  have b6: "blk h6 ?b = Some (ptr_cells rs @ [CUndef])" "list_all2 (str_at h6) rs ss" "blk h6 ?w = Some [CUndef, CPtr (Some ?b)]"
    using frame_blk [OF 6(2), of ?b] frame_blk [OF 6(2), of ?w] rs 5(3) w5 str_list_frame [OF ok5 6(2) 5(4)] d le a(5) by auto
  obtain r h7 h8 where 8: "dup_string s h6 = Some (Some r, h7)" "c_store (Some ?b) ?n (CPtr (Some r)) h7 = Some h8"
    "strs_at h8 ?b (rs @ [r]) (ss @ [s])" "frame h6 (insert ?b (set rs)) h8 (insert ?b (set (rs @ [r])))"
    "quota h8 = quota h6 - 1" "nxt_addr h6 \<le> r"
    using put_last_ok [OF ok6 b6(1,2) 5(5) assms(3)] 5(7) 6(3) 3(7) assms(4) by auto
  note ok8 = frame_heap_ok [OF 8(4)]
  have w8: "?w \<notin> insert ?b (set (rs @ [r]))" "blk h8 ?w = Some [CUndef, CPtr (Some ?b)]"
    using d 8(6) 6(4) rs frame_blk [OF 8(4), of ?w] b6(3) by auto
  obtain h9 where 9: "c_store (Some ?w) 0 (CInt (int ?n + 1)) h8 = Some h9" "blk h9 ?w = Some [CInt (int ?n + 1), CPtr (Some ?b)]"
    "frame h8 {?w} h9 {?w}" "quota h9 = quota h8"
    using store_ok [OF ok8 w8(2), of 0 "CInt (int ?n + 1)"] by auto
  have "strs_at h9 ?b (rs @ [r]) (ss @ [s])"
    using strs_at_frame [OF ok8 8(3) 9(3)] w8(1) by auto
  then have rep: "vs_rep h9 (Some ?w) (ss @ [s]) (insert ?w (insert ?b (set (rs @ [r]))))"
    using strs_repI [of h9 ?b "rs @ [r]" "ss @ [s]"] 9(2) w8(1) by (auto simp: vs_rep_def)
  have "frame h F h3 (insert ?b (insert ?w F))"
    using frame_extend [OF 3(6) _ le] by (simp add: insert_commute)
  then have "frame h F h5 (insert a (insert ?w (insert ?b (set rs))))"
    by (rule frame_step [OF assms(1) _ 5(6)]) (use le 3(8) a(4,5) in auto)
  then have "frame h F h6 (insert ?w (insert ?b (set rs)))"
    by (rule frame_step [OF assms(1) _ 6(2)]) (use le rs d a(5) in auto)
  then have "frame h F h8 (insert ?w (insert ?b (set (rs @ [r]))))"
    by (rule frame_step [OF assms(1) _ 8(4)]) (use rs 6(4) d in auto)
  then have fr: "frame h F h9 (insert ?w (insert ?b (set (rs @ [r]))))"
    by (rule frame_step [OF assms(1) _ 9(3)]) (use strs_at_less [OF ok8 8(3)] w8 heap_ok_less [OF ok8, of ?w] in auto)
  have n: "nat (int ?n + 1) = Suc ?n" "nat (int ?n) = ?n"
    by auto
  have "PushBackString sv s h = Some (Some ?w, h9)"
    unfolding PushBackString_def a(1)
    by (simp only: vs_fields [OF a(2)] n 3(1-3) 5(1,2) 6(1) 8(1,2) 9(1) bind.bind_lunit prod.case)
  then show ?thesis
    using rep fr 9(4) 8(5) 6(3) 5(7) 3(7) by (intro exI [of _ "Some ?w"] exI [of _ h9] exI conjI) auto
qed

lemma VS_append_ok:
  assumes "heap_ok h" "vs_rep h sv ss F" "ss \<noteq> []" "NUL \<notin> set s" "length ss + 2 \<le> quota h"
  shows "\<exists>h' F'. VS_append sv s h = Some h' \<and> vs_rep h' sv (ss @ [s]) F' \<and> frame h F h' F'"
proof -
  let ?n = "length ss" and ?b = "nxt_addr h"
  obtain a v G where a: "sv = Some a" "blk h a = Some [CInt (int ?n), v]" "strs_rep h v ss G" "a \<notin> G" "F = insert a G"
    using assms(2) by (auto simp: vs_rep_def)
  have le: "F \<subseteq> {..<?b}"
    using strs_rep_less [OF assms(1) a(3)] heap_ok_less [OF assms(1), of a] a(2,5) by auto
  obtain h1 where 1: "c_malloc (Suc ?n) h = (Some ?b, h1)" "blk h1 ?b = Some (replicate (Suc ?n) CUndef)" "frame h {} h1 {?b}"
    "quota h1 = quota h - 1" "nxt_addr h1 = ?b + 1"
    using malloc_ok [OF assms(1), of "Suc ?n"] assms(5) by auto
  have a1: "blk h1 a = Some [CInt (int ?n), v]" "strs_rep h1 v ss G"
    using frame_blk [OF 1(3), of a] a(2,5) le str_vector.rep_frame [OF assms(1) a(3) 1(3)] by auto
  have b: "?b \<notin> G" "a \<notin> insert ?b G" "?n \<le> quota h1" "\<not> int ?n \<le> 0" "0 < int ?n"
    using le a(4,5) 1(4) assms(3,5) by auto
  obtain h2 h3 rs where 3: "do { p \<leftarrow> vs_vector (Some a) h1; copy_strings [0..<?n] p (Some ?b) h1 } = Some h2"
    "do { p \<leftarrow> vs_vector (Some a) h2; c_free p h2 } = Some h3"
    "blk h3 ?b = Some (ptr_cells rs @ [CUndef])" "list_all2 (str_at h3) rs ss" "distinct (?b # rs)"
    "frame h1 (insert ?b G) h3 (insert ?b (set rs))" "quota h3 = quota h1 - ?n"
    using relocate_ok [OF frame_heap_ok [OF 1(3)] a1 1(2) b(1-3)] unfolding if_not_P [OF b(4)] if_P [OF b(5)] by blast
  note ok3 = frame_heap_ok [OF 3(6)]
  have a3: "blk h3 a = Some [CInt (int ?n), v]"
    using frame_blk [OF 3(6), of a] a1(1) a(4,5) le 1(5) b by auto
  have "set rs \<inter> {..<nxt_addr h1} \<subseteq> insert ?b G"
    using 3(6) by (auto simp: frame_def)
  then have d: "a \<notin> insert ?b (set rs)"
    using a(4,5) le 1(5) b by auto
  obtain r h4 h5 where 5: "dup_string s h3 = Some (Some r, h4)" "c_store (Some ?b) ?n (CPtr (Some r)) h4 = Some h5"
    "strs_at h5 ?b (rs @ [r]) (ss @ [s])" "frame h3 (insert ?b (set rs)) h5 (insert ?b (set (rs @ [r])))"
    "quota h5 = quota h3 - 1" "nxt_addr h3 \<le> r"
    using put_last_ok [OF ok3 3(3-5) assms(4)] 3(7) 1(4) assms(5) by auto
  note ok5 = frame_heap_ok [OF 5(4)]
  have a5: "a \<notin> insert ?b (set (rs @ [r]))" "blk h5 a = Some [CInt (int ?n), v]"
    using d 5(6) heap_ok_less [OF ok3, of a] frame_blk [OF 5(4), of a] a3 by auto
  obtain h6 where 6: "c_store (Some a) 1 (CPtr (Some ?b)) h5 = Some h6" "blk h6 a = Some [CInt (int ?n), CPtr (Some ?b)]"
    "frame h5 {a} h6 {a}"
    using store_ok [OF ok5 a5(2), of 1 "CPtr (Some ?b)"] by auto
  obtain h7 where 7: "c_store (Some a) 0 (CInt (int ?n + 1)) h6 = Some h7" "blk h7 a = Some [CInt (int ?n + 1), CPtr (Some ?b)]"
    "frame h6 {a} h7 {a}"
    using store_ok [OF frame_heap_ok [OF 6(3)] 6(2), of 0 "CInt (int ?n + 1)"] by auto
  note f57 = frame_trans [OF ok5 6(3) 7(3)]
  have "strs_at h7 ?b (rs @ [r]) (ss @ [s])"
    using strs_at_frame [OF ok5 5(3) f57] a5(1) by auto
  then have rep: "vs_rep h7 sv (ss @ [s]) (insert a (insert ?b (set (rs @ [r]))))"
    using strs_repI [of h7 ?b "rs @ [r]" "ss @ [s]"] 7(2) a5(1) a(1) by (auto simp: vs_rep_def)
  have "frame h F h1 (insert ?b F)"
    using frame_extend [OF 1(3) _ le] by simp
  then have "frame h F h3 (insert a (insert ?b (set rs)))"
    by (rule frame_step [OF assms(1) _ 3(6)]) (use le 1(5) a(4,5) in auto)
  then have "frame h F h5 (insert a (insert ?b (set (rs @ [r]))))"
    by (rule frame_step [OF assms(1) _ 5(4)])
      (use heap_ok_less [OF ok3] a3 3(3) str_list_live [OF 3(4)] d in auto)
  then have fr: "frame h F h7 (insert a (insert ?b (set (rs @ [r]))))"
    by (rule frame_step [OF assms(1) _ f57]) (use strs_at_less [OF ok5 5(3)] a5 heap_ok_less [OF ok5, of a] in auto)
  have n: "nat (int ?n + 1) = Suc ?n" "nat (int ?n) = ?n"
    by auto
  have free: "(vs_vector (Some a) h2 \<bind> (\<lambda>p. c_free p h2 \<bind> k)) = k h3" for k :: "cheap \<Rightarrow> cheap option"
    using 3(2) by (auto split: bind_splits)
  have "VS_append sv s h = Some h7"
    unfolding VS_append_def a(1)
    by (simp only: vs_fields [OF a(2)] n 1(1) 3(1) free if_not_P [OF b(4)] 5(1,2) 6(1) 7(1) bind.bind_lunit prod.case)
  then show ?thesis
    using rep fr by blast
qed

text \<open>A structure from \<^verbatim>\<open>VS_new\<close> has no array yet, and \<^verbatim>\<open>VS_append\<close> frees the uninitialised pointer.\<close>

lemma VS_append_fresh: "VS_new h = Some (sv, h') \<Longrightarrow> VS_append sv s h' = None"
  by (auto simp: VS_new_def VS_append_def vs_size_def vs_vector_def c_malloc_def c_store_def c_load_def
      numeral_2_eq_2 split: if_splits)

lemma VS_delete_leaks:
  assumes "heap_ok h" "vs_rep h sv ss F" "ss \<noteq> []"
  shows "\<exists>h' b. VS_delete sv h = Some h' \<and> vs_vector sv h = Some (Some b) \<and> b \<in> F \<and> frame h F h' {b} \<and> blk h' b = blk h b"
proof -
  obtain a v G where a: "sv = Some a" "blk h a = Some [CInt (int (length ss)), v]" "strs_rep h v ss G" "a \<notin> G" "F = insert a G"
    using assms(2) by (auto simp: vs_rep_def)
  obtain b ps where b: "v = CPtr (Some b)" "strs_at h b ps ss" "G = insert b (set ps)"
    using a(3) assms(3) by (rule strs_repE)
  have le: "F \<subseteq> {..<nxt_addr h}"
    using strs_rep_less [OF assms(1) a(3)] heap_ok_less [OF assms(1), of a] a(2,5) by auto
  obtain h1 where 1: "free_strings [0..<length ss] (Some b) h = Some h1" "frame h (set ps) h1 {}"
    using free_array_ok [OF assms(1) b(2)] by auto
  have k: "blk h1 a = blk h a" "blk h1 b = blk h b"
    using frame_blk [OF 1(2)] le a(4,5) b(2,3) by (auto simp: strs_at_def)
  obtain h2 where 2: "c_free (Some a) h1 = Some h2" "frame h1 {a} h2 {}"
    using free_ok [OF frame_heap_ok [OF 1(2)], of a] k(1) a(2) by auto
  have "frame h F h1 {a, b}"
    using frame_extend [OF 1(2), of "{a, b}"] le a(4,5) b(2,3) by (auto simp: strs_at_def insert_commute)
  then have "frame h F h2 {b}"
    by (rule frame_step [OF assms(1) _ 2(2)]) (use le 1(2) a(4,5) b(3) in \<open>auto simp: frame_def\<close>)
  moreover have "blk h2 b = blk h b"
    using frame_blk [OF 2(2), of b] k(2) le a(4,5) b(3) 1(2) by (auto simp: frame_def)
  moreover have "VS_delete sv h = Some h2" "vs_vector sv h = Some (Some b)" "b \<in> F"
    unfolding VS_delete_def a(1) using vs_fields [OF a(2)] 1(1) 2(1) b(1,3) a(5) assms(3) by auto
  ultimately show ?thesis
    by blast
qed

text \<open>
  The demonstration in \<^verbatim>\<open>PrintPushBackStringStruct\<close> never gets through: with a token it appends to a
  new structure, without one it frees the array pointer of the structure it has just allocated.
\<close>

lemma PrintPushBackStringStruct_faults: "PrintPushBackStringStruct source h = None"
proof (cases "tok_all newline source")
  case Nil
  then show ?thesis
    by (auto simp: PrintPushBackStringStruct_def c_malloc_def c_store_def vs_size_def vs_rows_def vs_vector_def c_load_def
        numeral_2_eq_2 split: bind_splits)
next
  case (Cons t ts)
  then have "append_all sv2 (tok_all newline source) h' = None" if "VS_new h0 = Some (sv2, h')" for h0 sv2 h'
    using VS_append_fresh [OF that] by simp
  then show ?thesis
    by (auto simp: PrintPushBackStringStruct_def split: bind_splits prod.splits)
qed

section \<open>Filling an array\<close>

lemma push_all_ok:
  assumes "heap_ok h" "vs_rep h sv ss F" "list_all (\<lambda>s. NUL \<notin> set s) ts" "length ts * (length ss + length ts + 3) \<le> quota h"
  shows "\<exists>sv' h' F'. push_all PushBackString sv ts h = Some (sv', h') \<and> vs_rep h' sv' (ss @ ts) F' \<and> frame h F h' F'"
  using assms
proof (induction ts arbitrary: h sv ss F)
  case Nil
  then have "frame h F h F"
    using str_vector.rep_live by (auto simp: vs_rep_def intro!: frame_refl)
  then show ?case
    using Nil by auto
next
  case (Cons t ts)
  have q: "length ss + 3 + length ts * (length (ss @ [t]) + length ts + 3) \<le> quota h"
    using Cons.prems(4) by (simp add: algebra_simps)
  then obtain sv1 h1 F1 where 1: "PushBackString sv t h = Some (sv1, h1)" "vs_rep h1 sv1 (ss @ [t]) F1" "frame h F h1 F1"
    "quota h1 = quota h - (length ss + 3)"
    using PushBackString_copy_ok [OF Cons.prems(1,2), of t] Cons.prems(3) by auto
  then obtain sv' h' F' where "push_all PushBackString sv1 ts h1 = Some (sv', h')" "vs_rep h' sv' ((ss @ [t]) @ ts) F'"
    "frame h1 F1 h' F'"
    using Cons.IH [OF frame_heap_ok [OF 1(3)] 1(2)] Cons.prems(3) q by force
  then show ?case
    using 1 frame_trans [OF Cons.prems(1) 1(3)] by auto
qed

lemma VS_new_ok:
  assumes "heap_ok h" "0 < quota h"
  shows "\<exists>sv h' F. VS_new h = Some (sv, h') \<and> vs_rep h' sv [] F \<and> frame h {} h' F \<and> quota h' = quota h - 1"
proof -
  obtain h1 where 1: "c_malloc 2 h = (Some (nxt_addr h), h1)" "blk h1 (nxt_addr h) = Some (replicate 2 CUndef)"
    "frame h {} h1 {nxt_addr h}" "quota h1 = quota h - 1"
    using malloc_ok [OF assms] by blast
  obtain h2 where "c_store (Some (nxt_addr h)) 0 (CInt 0) h1 = Some h2" "blk h2 (nxt_addr h) = Some [CInt 0, CUndef]"
    "frame h1 {nxt_addr h} h2 {nxt_addr h}" "quota h2 = quota h1"
    using store_ok [OF frame_heap_ok [OF 1(3)] 1(2), of 0 "CInt 0"] by (auto simp: numeral_2_eq_2)
  then show ?thesis
    using 1 frame_trans [OF assms(1) 1(3)] str_vector.rep_empty [of h2 CUndef]
    by (auto simp: VS_new_def vs_rep_def)
qed

lemma vs_rows_ok: "vs_rep h sv ss F \<Longrightarrow> vs_rows sv h = Some ss"
  by (auto simp: vs_rep_def vs_rows_def vs_fields strs_rep_def dump_strings_ok)

section \<open>Properties\<close>

text \<open>
  C28: the array that copies everything on each insertion holds the same strings as the one that
  grows in place: filled from a new structure by \<^verbatim>\<open>PushBackString\<close>, or by \<^verbatim>\<open>PushBackString2\<close>, and filled
  by \<^verbatim>\<open>VECTOR_PushBackString\<close>, both give back the strings in order, without a fault.
\<close>

theorem copying_equals_growing:
  assumes "heap_ok h" "list_all (\<lambda>s. NUL \<notin> set s) ss" "1 + length ss * (length ss + 3) \<le> quota h"
  shows "\<exists>sv h1 sv' h2 v h3. VS_new h = Some (sv, h1) \<and> push_all PushBackString sv ss h1 = Some (sv', h2)
    \<and> push_all PushBackString2 sv ss h1 = Some (sv', h2)
    \<and> push_lines VECTOR_PushBackString (-1) 0 CUndef ss h = Some (0, length ss, v, h3)
    \<and> vs_rows sv' h2 = Some ss \<and> dump_vector (length ss) v h3 = Some ss"
proof -
  obtain sv h1 F where 1: "VS_new h = Some (sv, h1)" "vs_rep h1 sv [] F" "frame h {} h1 F" "quota h1 = quota h - 1"
    using VS_new_ok [OF assms(1)] assms(3) by auto
  obtain sv' h2 F' where 2: "push_all PushBackString sv ss h1 = Some (sv', h2)" "vs_rep h2 sv' ss F'"
    using push_all_ok [OF frame_heap_ok [OF 1(3)] 1(2) assms(2)] 1(4) assms(3) by force
  have "2 * length ss \<le> quota h"
    using assms(3) by (simp add: algebra_simps)
  then obtain v h3 F3 where "push_lines VECTOR_PushBackString (-1) 0 CUndef ss h = Some (0, length ss, v, h3)"
    "strs_rep h3 v ss F3"
    using str_vector.push_lines_ok [OF assms(1) str_vector.rep_empty assms(2), of "-1" CUndef] by auto
  then show ?thesis
    using 1(1) 2 vs_rows_ok [OF 2(2)] dump_vector_ok by (auto simp: PushBackString2_eq)
qed

theorem copying_equals_growing_witness:
  "\<exists>sv h1 sv' h2 v h3. VS_new (empty_heap 11) = Some (sv, h1) \<and> push_all PushBackString sv [''x'', ''yz''] h1 = Some (sv', h2)
    \<and> push_all PushBackString2 sv [''x'', ''yz''] h1 = Some (sv', h2)
    \<and> push_lines VECTOR_PushBackString (-1) 0 CUndef [''x'', ''yz''] (empty_heap 11) = Some (0, 2, v, h3)
    \<and> vs_rows sv' h2 = Some [''x'', ''yz''] \<and> dump_vector 2 v h3 = Some [''x'', ''yz'']"
  using copying_equals_growing [of "empty_heap 11" "[''x'', ''yz'']"]
  by (simp add: numeral_2_eq_2 del: push_all.simps push_lines.simps)

text \<open>
  \<^verbatim>\<open>VS_append\<close> appends to an array that holds a string already; on a structure fresh from
  \<^verbatim>\<open>VS_new\<close> it frees an uninitialised pointer.
\<close>

theorem vs_append_cases:
  assumes "heap_ok h" "NUL \<notin> set s"
  shows "(VS_new h = Some (sv, h1) \<longrightarrow> VS_append sv s h1 = None)
    \<and> (vs_rep h sw ss F \<and> ss \<noteq> [] \<and> length ss + 2 \<le> quota h \<longrightarrow>
        (\<exists>h' F'. VS_append sw s h = Some h' \<and> vs_rep h' sw (ss @ [s]) F' \<and> frame h F h' F'))"
  using VS_append_fresh VS_append_ok [OF assms(1)] assms(2) by blast

theorem vs_append_cases_witness:
  "\<exists>sv h1 sw h2 h3 F3. VS_new (empty_heap 9) = Some (sv, h1) \<and> VS_append sv ''b'' h1 = None
    \<and> PushBackString sv ''a'' h1 = Some (sw, h2) \<and> VS_append sw ''b'' h2 = Some h3 \<and> vs_rep h3 sw [''a'', ''b''] F3"
proof -
  obtain sv h1 F where 1: "VS_new (empty_heap 9) = Some (sv, h1)" "vs_rep h1 sv [] F" "frame (empty_heap 9) {} h1 F" "quota h1 = 8"
    using VS_new_ok [of "empty_heap 9"] by auto
  obtain sw h2 F2 where 2: "PushBackString sv ''a'' h1 = Some (sw, h2)" "vs_rep h2 sw [''a''] F2" "frame h1 F h2 F2" "quota h2 = 5"
    using PushBackString_copy_ok [OF frame_heap_ok [OF 1(3)] 1(2), of "''a''"] 1(4) by auto
  show ?thesis
    using 1 2 vs_append_cases [of "empty_heap 9" "''b''" sv h1 None "[]" "{}"]
      vs_append_cases [OF frame_heap_ok [OF 2(3)], of "''b''" sv h1 sw "[''a'']" F2] by auto
qed

text \<open>
  \<^verbatim>\<open>VS_delete\<close> frees the structure and all its strings, but not the array of pointers: that block
  stays allocated with its contents, and \<^verbatim>\<open>PrintPushBackStringStruct\<close>, the only caller, does not reach
  it, since it faults on every text.
\<close>

theorem vs_delete_leaks_array:
  assumes "heap_ok h" "vs_rep h sv ss F" "ss \<noteq> []"
  shows "(\<exists>h' b. VS_delete sv h = Some h' \<and> vs_vector sv h = Some (Some b) \<and> b \<in> F \<and> frame h F h' {b} \<and> blk h' b = blk h b)
    \<and> PrintPushBackStringStruct source h0 = None"
  using VS_delete_leaks [OF assms] PrintPushBackStringStruct_faults by blast

theorem vs_delete_leaks_array_witness:
  "\<exists>sv h1 sw h2 F2 h3 b. VS_new (empty_heap 9) = Some (sv, h1) \<and> PushBackString sv ''a'' h1 = Some (sw, h2)
    \<and> VS_delete sw h2 = Some h3 \<and> frame h2 F2 h3 {b} \<and> PrintPushBackStringStruct ''a'' (empty_heap 9) = None"
proof -
  obtain sv h1 F where 1: "VS_new (empty_heap 9) = Some (sv, h1)" "vs_rep h1 sv [] F" "frame (empty_heap 9) {} h1 F" "quota h1 = 8"
    using VS_new_ok [of "empty_heap 9"] by auto
  obtain sw h2 F2 where 2: "PushBackString sv ''a'' h1 = Some (sw, h2)" "vs_rep h2 sw [''a''] F2" "frame h1 F h2 F2"
    using PushBackString_copy_ok [OF frame_heap_ok [OF 1(3)] 1(2), of "''a''"] 1(4) by auto
  show ?thesis
    using 1 2 vs_delete_leaks_array [OF frame_heap_ok [OF 2(3)] 2(2), of "''a''" "empty_heap 9"] by auto
qed

end
