(* ===== verification/CGrep.thy ===== *)
theory CGrep
  imports CVectorProgs
begin

text \<open>
  The program \<^verbatim>\<open>grep/\<close>: reading the standard input into an array of lines, collecting the lines that
  contain the argument, printing them and releasing the memory.  The standard input is a string and
  a flag telling whether reading it ended in an error.
\<close>

section \<open>Data\<close>

datatype BITGREP_FLAG = FIND | EARG

record BITGREP_TARGET =
  target_string :: cell

record BITGREP_INPUT2D =
  row_count :: nat
  buff_2d :: cell

record BITGREP_FOUND =
  found_count :: nat
  found_index :: cell
  buff_found :: cell

definition MAX_STDINPUT_WIDTH :: nat where
  "MAX_STDINPUT_WIDTH = 1024 * 1024"

section \<open>Reading\<close>

definition BITGREP_FlagParser :: "BITGREP_TARGET \<Rightarrow> string list \<Rightarrow> cheap \<Rightarrow> (BITGREP_FLAG \<times> BITGREP_TARGET \<times> cheap) option" where
  "BITGREP_FlagParser bg_t argv h =
     (if length argv \<noteq> 2 then Some (EARG, bg_t, h)
      else do {
        (p, h) \<leftarrow> dup_string (argv ! 1) h;
        Some (FIND, bg_t\<lparr>target_string := CPtr p\<rparr>, h)
      })"

text \<open>What \<^verbatim>\<open>fgets\<close> takes from the input: at most \<^term>\<open>n\<close> characters, up to a line feed.\<close>

fun take_line :: "nat \<Rightarrow> string \<Rightarrow> string" where
  "take_line 0 s = []"
| "take_line (Suc n) [] = []"
| "take_line (Suc n) (c # cs) = c # (if c = newline then [] else take_line n cs)"

definition c_strcat :: "nat option \<Rightarrow> string \<Rightarrow> cheap \<Rightarrow> cheap option" where
  "c_strcat p s h =
     do {
       a \<leftarrow> p;
       cs \<leftarrow> blk h a;
       t \<leftarrow> cstr cs;
       if length t + length s < length cs
       then Some (h\<lparr>blk := (blk h)(a \<mapsto> take (length t) cs @ map CChar (s @ [NUL]) @ drop (length t + length s + 1) cs)\<rparr>)
       else None
     }"

lemma take_line_not_Nil: "0 < n \<Longrightarrow> s \<noteq> [] \<Longrightarrow> take_line n s \<noteq> []"
  by (cases n; cases s) auto

lemma take_line_shorter: "0 < n \<Longrightarrow> s \<noteq> [] \<Longrightarrow> length s - length (take_line n s) < length s"
  by (cases n; cases s) auto

text \<open>The loop over \<^verbatim>\<open>fgets\<close>; \<^verbatim>\<open>strlen\<close> of what it read stops at a zero byte.  \<^term>\<open>Inl\<close> is the failure of \<^verbatim>\<open>realloc\<close>.\<close>

function read_loop :: "string \<Rightarrow> nat \<Rightarrow> nat option \<Rightarrow> cheap \<Rightarrow> (cheap + nat option \<times> cheap) option" where
  "read_loop inp total_input_size buff_input h =
     (if inp = [] then Some (Inr (buff_input, h))
      else
        let get_buffer = take_line (MAX_STDINPUT_WIDTH - 1) inp;
            s = takeWhile (\<lambda>c. c \<noteq> NUL) get_buffer
        in do {
          (new, h) \<leftarrow> c_realloc buff_input (total_input_size + length s) h;
          if new = None then do { h \<leftarrow> c_free buff_input h; Some (Inl h) }
          else do {
            h \<leftarrow> c_strcat new s h;
            read_loop (drop (length get_buffer) inp) (total_input_size + length s) new h
          }
        })"
  by pat_completeness auto
termination
  by (relation "measure (\<lambda>(inp, _). length inp)")
    (auto simp: MAX_STDINPUT_WIDTH_def intro!: take_line_shorter)

declare read_loop.simps [simp del]

text \<open>The tokens of the \<^verbatim>\<open>strsep\<close> loop over a buffer, which leaves zero bytes for the line feeds.\<close>

definition strsep_buffer :: "nat option \<Rightarrow> cheap \<Rightarrow> (string list \<times> cheap) option" where
  "strsep_buffer p h =
     do {
       a \<leftarrow> p;
       cs \<leftarrow> blk h a;
       s \<leftarrow> cstr cs;
       Some (sep_all newline s,
         h\<lparr>blk := (blk h)(a \<mapsto> map (\<lambda>c. CChar (if c = newline then NUL else c)) s @ drop (length s) cs)\<rparr>)
     }"

text \<open>The array functions of \<^verbatim>\<open>grep.c\<close> are, statement for statement, those of \<^verbatim>\<open>vector/\<close>.\<close>

definition BITGREP_PushBackInt :: "int \<Rightarrow> cell \<Rightarrow> int \<Rightarrow> cheap \<Rightarrow> (int \<times> cell \<times> cheap) option" where
  "BITGREP_PushBackInt = VECTOR_PushBackInt"

definition BITGREP_EraseInt :: "int \<Rightarrow> cell \<Rightarrow> int \<Rightarrow> cheap \<Rightarrow> (int \<times> cell \<times> cheap) option" where
  "BITGREP_EraseInt = VECTOR_EraseInt"

definition BITGREP_PushBackString :: "int \<Rightarrow> cell \<Rightarrow> string \<Rightarrow> cheap \<Rightarrow> (int \<times> cell \<times> cheap) option" where
  "BITGREP_PushBackString = VECTOR_PushBackString"

definition BITGREP_EraseString :: "int \<Rightarrow> cell \<Rightarrow> int \<Rightarrow> cheap \<Rightarrow> (int \<times> cell \<times> cheap) option" where
  "BITGREP_EraseString = VECTOR_EraseString"

definition BITGREP_MapStdinTo2d ::
  "string \<Rightarrow> bool \<Rightarrow> BITGREP_INPUT2D \<Rightarrow> cheap \<Rightarrow> (int \<times> BITGREP_INPUT2D \<times> cheap) option" where
  "BITGREP_MapStdinTo2d inp ferror bg_in2d h =
     do {
       (buff_input, h) \<leftarrow> Some (c_malloc MAX_STDINPUT_WIDTH h);
       h \<leftarrow> c_memset0 buff_input MAX_STDINPUT_WIDTH h;
       r \<leftarrow> read_loop inp 1 buff_input h;
       case r of
         Inl h \<Rightarrow> Some (-1, bg_in2d, h)
       | Inr (buff_input, h) \<Rightarrow>
           if ferror then do { h \<leftarrow> c_free buff_input h; Some (-2, bg_in2d, h) }
           else do {
             (lines, h) \<leftarrow> strsep_buffer buff_input h;
             (st, n, v, h) \<leftarrow> push_lines BITGREP_PushBackString (-3) (row_count bg_in2d) (buff_2d bg_in2d) lines h;
             h \<leftarrow> c_free None h;
             Some (st, bg_in2d\<lparr>row_count := n, buff_2d := v\<rparr>, h)
           }
     }"

section \<open>Searching, printing and clearing\<close>

fun populate :: "nat list \<Rightarrow> nat option \<Rightarrow> BITGREP_INPUT2D \<Rightarrow> BITGREP_FOUND \<Rightarrow> cheap \<Rightarrow> (int \<times> BITGREP_FOUND \<times> cheap) option" where
  "populate [] target bg_in2d bg_found h = Some (0, bg_found, h)"
| "populate (i # is) target bg_in2d bg_found h =
     do {
       rows \<leftarrow> as_ptr (buff_2d bg_in2d);
       c \<leftarrow> c_load rows i h;
       row \<leftarrow> as_ptr c;
       s \<leftarrow> str_of row h;
       t \<leftarrow> str_of target h;
       case strstr s t of
         None \<Rightarrow> populate is target bg_in2d bg_found h
       | Some target_found \<Rightarrow>
           do {
             (status, v, h) \<leftarrow> BITGREP_PushBackInt (int (found_count bg_found)) (found_index bg_found) (int i) h;
             let bg_found = bg_found\<lparr>found_index := v\<rparr>;
             if status < 0 then Some (-1, bg_found, h)
             else do {
               (status, w, h) \<leftarrow> BITGREP_PushBackString (int (found_count bg_found)) (buff_found bg_found) target_found h;
               let bg_found = bg_found\<lparr>buff_found := w\<rparr>;
               if status < 0 then Some (-2, bg_found, h)
               else populate is target bg_in2d (bg_found\<lparr>found_count := found_count bg_found + 1\<rparr>) h
             }
           }
     }"

definition BITGREP_PopulateSearchResult ::
  "nat option \<Rightarrow> BITGREP_INPUT2D \<Rightarrow> BITGREP_FOUND \<Rightarrow> cheap \<Rightarrow> (int \<times> BITGREP_FOUND \<times> cheap) option" where
  "BITGREP_PopulateSearchResult target bg_in2d bg_found h = populate [0..<row_count bg_in2d] target bg_in2d bg_found h"

fun print_found :: "nat list \<Rightarrow> BITGREP_FOUND \<Rightarrow> cheap \<Rightarrow> (int \<times> string) list option" where
  "print_found [] bg_found h = Some []"
| "print_found (i # is) bg_found h =
     do {
       p \<leftarrow> as_ptr (found_index bg_found);
       c \<leftarrow> c_load p i h;
       n \<leftarrow> as_int c;
       q \<leftarrow> as_ptr (buff_found bg_found);
       d \<leftarrow> c_load q i h;
       r \<leftarrow> as_ptr d;
       s \<leftarrow> str_of r h;
       rest \<leftarrow> print_found is bg_found h;
       Some ((n, s) # rest)
     }"

definition BITGREP_PrintFound :: "BITGREP_FOUND \<Rightarrow> cheap \<Rightarrow> (int \<times> string) list option" where
  "BITGREP_PrintFound bg_found h = print_found [0..<found_count bg_found] bg_found h"

definition BITGREP_Clear :: "BITGREP_TARGET \<Rightarrow> BITGREP_INPUT2D \<Rightarrow> BITGREP_FOUND \<Rightarrow> cheap \<Rightarrow> cheap option" where
  "BITGREP_Clear bg_t bg_in2d bg_found h =
     do {
       p \<leftarrow> as_ptr (target_string bg_t);
       h \<leftarrow> c_free p h;
       h \<leftarrow> free_vector_strings (row_count bg_in2d) (buff_2d bg_in2d) h;
       p \<leftarrow> as_ptr (buff_2d bg_in2d);
       h \<leftarrow> c_free p h;
       h \<leftarrow> free_vector_strings (found_count bg_found) (buff_found bg_found) h;
       p \<leftarrow> as_ptr (found_index bg_found);
       h \<leftarrow> c_free p h;
       p \<leftarrow> as_ptr (buff_found bg_found);
       c_free p h
     }"

text \<open>The exit status, the rows printed and the heap.\<close>

definition bitgrep_main :: "string list \<Rightarrow> string \<Rightarrow> bool \<Rightarrow> cheap \<Rightarrow> (int \<times> (int \<times> string) list \<times> cheap) option" where
  "bitgrep_main argv inp ferror h =
     do {
       (flag, bg_t, h) \<leftarrow> BITGREP_FlagParser \<lparr>target_string = CUndef\<rparr> argv h;
       case flag of
         EARG \<Rightarrow> Some (-1, [], h)
       | FIND \<Rightarrow>
           do {
             (status, bg_in2d, h) \<leftarrow> BITGREP_MapStdinTo2d inp ferror \<lparr>row_count = 0, buff_2d = CUndef\<rparr> h;
             if status < 0 then Some (-2, [], h)
             else do {
               target \<leftarrow> as_ptr (target_string bg_t);
               (status, bg_found, h) \<leftarrow> BITGREP_PopulateSearchResult target bg_in2d
                 \<lparr>found_count = 0, found_index = CUndef, buff_found = CUndef\<rparr> h;
               if status < 0 then Some (-3, [], h)
               else do {
                 out \<leftarrow> BITGREP_PrintFound bg_found h;
                 h \<leftarrow> BITGREP_Clear bg_t bg_in2d bg_found h;
                 Some (0, out, h)
               }
             }
           }
     }"

section \<open>Reading the input\<close>

lemma take_line_prefix: "take_line n s = take (length (take_line n s)) s"
  by (induction n s rule: take_line.induct) auto

lemma memset_ok:
  assumes "heap_ok h" "blk h a = Some (replicate n c)"
  shows "\<exists>h'. c_memset0 (Some a) n h = Some h' \<and> blk h' a = Some (replicate n (CChar NUL)) \<and> frame h {a} h' {a} \<and> quota h' = quota h"
  using assms by (auto simp: c_memset0_def frame_def heap_ok_def)

lemma strcat_ok:
  assumes "heap_ok h" "blk h a = Some (map CChar (acc @ [NUL]) @ cs)" "NUL \<notin> set acc" "NUL \<notin> set s" "length s \<le> length cs"
  shows "\<exists>h'. c_strcat (Some a) s h = Some h' \<and> blk h' a = Some (map CChar (acc @ s @ [NUL]) @ drop (length s) cs)
    \<and> frame h {a} h' {a} \<and> quota h' = quota h"
proof -
  have "cstr (map CChar (acc @ [NUL]) @ cs) = Some acc"
    using assms(3) by (induction acc) auto
  then show ?thesis
    using assms by (auto simp: c_strcat_def frame_def heap_ok_def)
qed

lemma read_loop_ok:
  "\<lbrakk>heap_ok h; blk h a = Some (map CChar (acc @ [NUL]) @ cs); NUL \<notin> set acc; NUL \<notin> set inp; total_input_size = length acc + 1;
    length inp \<le> quota h\<rbrakk> \<Longrightarrow>
    \<exists>h' a' cs'. read_loop inp total_input_size (Some a) h = Some (Inr (Some a', h')) \<and> blk h' a' = Some (map CChar (acc @ inp @ [NUL]) @ cs')
      \<and> frame h {a} h' {a'} \<and> quota h \<le> quota h' + length inp"
proof (induction "length inp" arbitrary: inp total_input_size a acc cs h rule: less_induct)
  case less
  show ?case
  proof (cases "inp = []")
    case True
    then show ?thesis
      using less.prems by (auto simp: read_loop.simps intro!: frame_refl)
  next
    case False
    let ?l = "take_line (MAX_STDINPUT_WIDTH - 1) inp" and ?b = "nxt_addr h"
    have ne: "?l \<noteq> []"
      using False by (simp add: take_line_not_Nil MAX_STDINPUT_WIDTH_def)
    then have pos: "0 < length ?l"
      by simp
    have split: "inp = ?l @ drop (length ?l) inp"
      using take_line_prefix by (metis append_take_drop_id)
    then have nul: "NUL \<notin> set ?l" "NUL \<notin> set (drop (length ?l) inp)"
      using less.prems(4) by (metis UnCI set_append)+
    then have tw: "takeWhile (\<lambda>c. c \<noteq> NUL) ?l = ?l"
      by (auto simp: takeWhile_eq_all_conv)
    have len: "length inp = length ?l + length (drop (length ?l) inp)"
      using split by (metis length_append)
    have q: "0 < quota h"
      using less.prems(6) False by (cases inp) auto
    let ?n = "total_input_size + length ?l" and ?cs = "map CChar (acc @ [NUL]) @ cs"
    obtain h1 where 1: "c_realloc (Some a) ?n h = Some (Some ?b, h1)"
      "blk h1 ?b = Some (take ?n ?cs @ replicate (?n - length ?cs) CUndef)" "frame h {a} h1 {?b}" "quota h1 = quota h - 1"
      using realloc_ok [OF less.prems(1) q less.prems(2), of ?n] by auto
    let ?rs = "take (length ?l) cs @ replicate (length ?l - length cs) CUndef"
    have b1: "blk h1 ?b = Some (map CChar (acc @ [NUL]) @ ?rs)"
      using 1(2) less.prems(5) by simp
    have rs: "length ?l \<le> length ?rs"
      by (simp add: min_def)
    obtain h2 where 2: "c_strcat (Some ?b) ?l h1 = Some h2" "blk h2 ?b = Some (map CChar (acc @ ?l @ [NUL]) @ drop (length ?l) ?rs)"
      "frame h1 {?b} h2 {?b}" "quota h2 = quota h1"
      using strcat_ok [OF frame_heap_ok [OF 1(3)] b1 less.prems(3) nul(1) rs] by blast
    have "length (drop (length ?l) inp) < length inp" "length (drop (length ?l) inp) \<le> quota h2"
      using pos len less.prems(6) 1(4) 2(4) by linarith+
    moreover have b2: "blk h2 ?b = Some (map CChar ((acc @ ?l) @ [NUL]) @ drop (length ?l) ?rs)"
      and acc: "NUL \<notin> set (acc @ ?l)" and n: "?n = length (acc @ ?l) + 1"
      using 2(2) nul(1) less.prems(3,5) by simp_all
    ultimately obtain h' a' cs' where 3: "read_loop (drop (length ?l) inp) ?n (Some ?b) h2 = Some (Inr (Some a', h'))"
      "blk h' a' = Some (map CChar ((acc @ ?l) @ drop (length ?l) inp @ [NUL]) @ cs')" "frame h2 {?b} h' {a'}"
      "quota h2 \<le> quota h' + length (drop (length ?l) inp)"
      using less.hyps [OF _ frame_heap_ok [OF 2(3)] b2 acc nul(2) n] by blast
    have "read_loop inp total_input_size (Some a) h = Some (Inr (Some a', h'))"
      using False 1(1) 2(1) 3(1) by (subst read_loop.simps, unfold Let_def tw) simp
    moreover have "frame h {a} h' {a'}"
      using frame_trans [OF less.prems(1) frame_trans [OF less.prems(1) 1(3) 2(3)] 3(3)] .
    moreover have "(acc @ ?l) @ drop (length ?l) inp @ [NUL] = acc @ inp @ [NUL]"
      using split by (metis append.assoc)
    then have "blk h' a' = Some (map CChar (acc @ inp @ [NUL]) @ cs')"
      using 3(2) by (simp only:)
    moreover have "quota h \<le> quota h' + length inp"
      using 3(4) 1(4) 2(4) pos len by linarith
    ultimately show ?thesis
      by blast
  qed
qed

lemma strsep_buffer_ok:
  assumes "heap_ok h" "blk h a = Some (map CChar (s @ [NUL]) @ cs)" "NUL \<notin> set s"
  shows "\<exists>h'. strsep_buffer (Some a) h = Some (sep_all newline s, h') \<and> frame h {a} h' {a} \<and> blk h' a \<noteq> None \<and> quota h' = quota h"
proof -
  have "cstr (map CChar (s @ [NUL]) @ cs) = Some s"
    using assms(3) by (induction s) auto
  then show ?thesis
    using assms by (auto simp: strsep_buffer_def frame_def heap_ok_def)
qed

lemma sep_all_length_le: "length (sep_all d s) \<le> Suc (length s)"
  using sep_all_length [of d s] by simp

lemma MapStdinTo2d_start:
  assumes "heap_ok h" "0 < quota h"
  shows "\<exists>a h1 h2 cs. c_malloc MAX_STDINPUT_WIDTH h = (Some a, h1) \<and> c_memset0 (Some a) MAX_STDINPUT_WIDTH h1 = Some h2
    \<and> blk h2 a = Some (map CChar ([] @ [NUL]) @ cs) \<and> frame h {} h2 {a} \<and> quota h2 = quota h - 1"
proof -
  let ?W = MAX_STDINPUT_WIDTH and ?a = "nxt_addr h"
  obtain h1 where 1: "c_malloc ?W h = (Some ?a, h1)" "blk h1 ?a = Some (replicate ?W CUndef)" "frame h {} h1 {?a}" "quota h1 = quota h - 1"
    using malloc_ok [OF assms, of ?W] by auto
  obtain h2 where 2: "c_memset0 (Some ?a) ?W h1 = Some h2" "blk h2 ?a = Some (replicate ?W (CChar NUL))" "frame h1 {?a} h2 {?a}"
    "quota h2 = quota h1"
    using memset_ok [OF frame_heap_ok [OF 1(3)] 1(2)] by auto
  obtain w where w: "?W = Suc w"
    by (simp add: MAX_STDINPUT_WIDTH_def)
  have "replicate ?W (CChar NUL) = map CChar ([] @ [NUL]) @ replicate w (CChar NUL)"
    unfolding w by simp
  then show ?thesis
    using 1 2 frame_trans [OF assms(1) 1(3) 2(3)] by auto
qed

text \<open>The buffer the lines are cut from is never freed: \<^verbatim>\<open>strsep\<close> has set its pointer to null.\<close>

lemma MapStdinTo2d_ok:
  assumes "heap_ok h" "NUL \<notin> set inp" "3 * length inp + 3 \<le> quota h"
  shows "\<exists>v h' F b. BITGREP_MapStdinTo2d inp False \<lparr>row_count = 0, buff_2d = CUndef\<rparr> h
      = Some (0, \<lparr>row_count = length (sep_all newline inp), buff_2d = v\<rparr>, h')
    \<and> strs_rep h' v (sep_all newline inp) F \<and> frame h {} h' (insert b F) \<and> b \<notin> F \<and> blk h' b \<noteq> None
    \<and> quota h \<le> quota h' + (3 * length inp + 3)"
proof -
  let ?ls = "sep_all newline inp"
  obtain a h1 h2 cs where 1: "c_malloc MAX_STDINPUT_WIDTH h = (Some a, h1)" "c_memset0 (Some a) MAX_STDINPUT_WIDTH h1 = Some h2"
    "blk h2 a = Some (map CChar ([] @ [NUL]) @ cs)" "frame h {} h2 {a}" "quota h2 = quota h - 1"
    using MapStdinTo2d_start [OF assms(1)] assms(3) by auto
  have q: "length inp \<le> quota h2"
    using 1(5) assms(3) by linarith
  obtain h3 b cs' where 3: "read_loop inp 1 (Some a) h2 = Some (Inr (Some b, h3))" "blk h3 b = Some (map CChar (inp @ [NUL]) @ cs')"
    "frame h2 {a} h3 {b}" "quota h2 \<le> quota h3 + length inp"
    using read_loop_ok [OF frame_heap_ok [OF 1(4)] 1(3) _ assms(2) _ q, of 1] by auto
  obtain h4 where 4: "strsep_buffer (Some b) h3 = Some (?ls, h4)" "frame h3 {b} h4 {b}" "blk h4 b \<noteq> None" "quota h4 = quota h3"
    using strsep_buffer_ok [OF frame_heap_ok [OF 3(3)] 3(2) assms(2)] by auto
  note ok4 = frame_heap_ok [OF 4(2)]
  have "2 * length ?ls \<le> quota h4"
    using sep_all_length_le [of newline inp] 1(5) 3(4) 4(4) assms(3) by linarith
  then obtain v h5 F where 5: "push_lines BITGREP_PushBackString (-3) 0 CUndef ?ls h4 = Some (0, length ?ls, v, h5)"
    "strs_rep h5 v ?ls F" "frame h4 {} h5 F" "quota h4 \<le> quota h5 + 2 * length ?ls"
    using str_vector.push_lines_ok [OF ok4 str_vector.rep_empty sep_all_NUL [OF assms(2)], of newline "-3" CUndef]
    by (auto simp: BITGREP_PushBackString_def)
  have b: "b < nxt_addr h4" "b \<notin> F"
    using heap_ok_less [OF ok4 4(3)] 5(3) by (auto simp: frame_def)
  have f4: "frame h {} h4 {b}"
    using frame_trans [OF assms(1) frame_trans [OF assms(1) 1(4) 3(3)] 4(2)] .
  have "frame h {} h5 (insert b F)"
    by (rule frame_step [OF assms(1) f4 5(3)]) (use b in auto)
  moreover have "blk h5 b \<noteq> None"
    using frame_blk [OF 5(3), of b] b 4(3) by simp
  moreover have "quota h \<le> quota h5 + (3 * length inp + 3)"
    using sep_all_length_le [of newline inp] 1(5) 3(4) 4(4) 5(4) assms(3) by linarith
  moreover have "BITGREP_MapStdinTo2d inp False \<lparr>row_count = 0, buff_2d = CUndef\<rparr> h
      = Some (0, \<lparr>row_count = length ?ls, buff_2d = v\<rparr>, h5)"
    using 1(1,2) 3(1) 4(1) 5(1) by (simp add: BITGREP_MapStdinTo2d_def c_free_def)
  ultimately show ?thesis
    using 5(2) b(2) by blast
qed

section \<open>Searching\<close>

text \<open>The rows that contain the target, each from its first occurrence on.\<close>

fun found_rows :: "nat \<Rightarrow> string \<Rightarrow> string list \<Rightarrow> (int \<times> string) list" where
  "found_rows i t [] = []"
| "found_rows i t (s # ss) =
     (case strstr s t of None \<Rightarrow> found_rows (Suc i) t ss | Some r \<Rightarrow> (int i, r) # found_rows (Suc i) t ss)"

definition found_rep :: "cheap \<Rightarrow> BITGREP_FOUND \<Rightarrow> (int \<times> string) list \<Rightarrow> nat set \<Rightarrow> nat set \<Rightarrow> bool" where
  "found_rep h f xs I S \<longleftrightarrow> found_count f = length xs \<and> ints_rep h (found_index f) (map fst xs) I
    \<and> strs_rep h (buff_found f) (map snd xs) S \<and> I \<inter> S = {}"

lemma frame_disjoint: "\<lbrakk>frame h F h' F'; F \<inter> G = {}; G \<subseteq> {..<nxt_addr h}\<rbrakk> \<Longrightarrow> F' \<inter> G = {}"
  by (fastforce simp: frame_def)

lemma found_push:
  assumes "heap_ok h" "found_rep h f xs I S" "NUL \<notin> set r" "4 \<le> quota h"
  shows "\<exists>v h1 w h2 I' S'. BITGREP_PushBackInt (int (found_count f)) (found_index f) (int i) h = Some (0, v, h1)
    \<and> BITGREP_PushBackString (int (found_count f)) (buff_found f) r h1 = Some (0, w, h2)
    \<and> found_rep h2 (f\<lparr>found_index := v, buff_found := w, found_count := found_count f + 1\<rparr>) (xs @ [(int i, r)]) I' S'
    \<and> frame h (I \<union> S) h2 (I' \<union> S') \<and> quota h \<le> quota h2 + 4"
proof -
  have f: "found_count f = length xs" "ints_rep h (found_index f) (map fst xs) I" "strs_rep h (buff_found f) (map snd xs) S" "I \<inter> S = {}"
    using assms(2) by (auto simp: found_rep_def)
  have S: "S \<subseteq> {..<nxt_addr h}"
    using str_vector.rep_live [OF f(3)] heap_ok_less [OF assms(1)] by blast
  obtain v h1 I' where 1: "VECTOR_PushBackInt (int (length xs)) (found_index f) (int i) h = Some (0, v, h1)"
    "ints_rep h1 v (map fst xs @ [int i]) I'" "frame h I h1 I'" "quota h \<le> quota h1 + 2"
    using int_vector.push_law [OF assms(1) f(2), of "int i"] assms(4) by auto
  note ok1 = frame_heap_ok [OF 1(3)]
  have s1: "strs_rep h1 (buff_found f) (map snd xs) S"
    using str_vector.rep_frame [OF assms(1) f(3) 1(3)] f(4) by blast
  obtain w h2 S' where 2: "VECTOR_PushBackString (int (length xs)) (buff_found f) r h1 = Some (0, w, h2)"
    "strs_rep h2 w (map snd xs @ [r]) S'" "frame h1 S h2 S'" "quota h1 \<le> quota h2 + 2"
    using str_vector.push_law [OF ok1 s1 assms(3)] 1(4) assms(4) by auto
  have I': "I' \<subseteq> {..<nxt_addr h1}" "I' \<inter> S = {}"
    using int_vector.rep_live [OF 1(2)] heap_ok_less [OF ok1] frame_disjoint [OF 1(3) f(4) S] by auto
  have "ints_rep h2 v (map fst xs @ [int i]) I'"
    using int_vector.rep_frame [OF ok1 1(2) 2(3)] I' by blast
  moreover have "S' \<inter> I' = {}"
    using frame_disjoint [OF 2(3)] I' by blast
  moreover have "frame h (I \<union> S) h1 (I' \<union> S)"
    using frame_extend [OF 1(3) f(4) S] .
  then have "frame h (I \<union> S) h2 (I' \<union> S')"
    by (rule frame_step [OF assms(1) _ 2(3)]) (use I' S 1(3) in \<open>auto simp: frame_def\<close>)
  ultimately show ?thesis
    using 1 2 f(1) by (fastforce simp: found_rep_def BITGREP_PushBackInt_def BITGREP_PushBackString_def)
qed

lemma found_rep_frame:
  assumes "heap_ok h" "found_rep h f xs I S" "frame h G h' G'" "(I \<union> S) \<inter> G = {}"
  shows "found_rep h' f xs I S"
  using assms int_vector.rep_frame [OF assms(1) _ assms(3)] str_vector.rep_frame [OF assms(1) _ assms(3)]
  unfolding found_rep_def by blast

lemma found_rep_live: "\<lbrakk>found_rep h f xs I S; a \<in> I \<union> S\<rbrakk> \<Longrightarrow> blk h a \<noteq> None"
  using int_vector.rep_live str_vector.rep_live unfolding found_rep_def by blast

lemma populate_from:
  assumes "heap_ok h" "strs_at h a ps ss" "buff_2d b = CPtr (Some a)" "str_at h ta t" "found_rep h f xs I S"
    "insert ta (insert a (set ps)) \<inter> (I \<union> S) = {}" "k \<le> length ss" "4 * (length ss - k) \<le> quota h"
  shows "\<exists>f' h' I' S'. populate [k..<length ss] (Some ta) b f h = Some (0, f', h')
    \<and> found_rep h' f' (xs @ found_rows k t (drop k ss)) I' S' \<and> frame h (I \<union> S) h' (I' \<union> S')
    \<and> quota h \<le> quota h' + 4 * (length ss - k)"
  using assms
proof (induction "length ss - k" arbitrary: k h f xs I S)
  case 0
  have "frame h (I \<union> S) h (I \<union> S)"
    using found_rep_live [OF 0(6)] by (intro frame_refl 0(2)) simp
  then show ?case
    using 0 by auto
next
  case (Suc d)
  let ?P = "insert ta (insert a (set ps))" and ?s = "ss ! k"
  have k: "k < length ss" "d = length ss - Suc k"
    using Suc.hyps(2) by auto
  have ps: "length ps = length ss" "str_at h (ps ! k) ?s" "blk h a = Some (ptr_cells ps)"
    using Suc.prems(2) k list_all2_lengthD [of "str_at h" ps ss] list_all2_nthD2 [of "str_at h" ps ss k]
    by (auto simp: strs_at_def)
  have row: "c_load (Some a) k h = Some (CPtr (Some (ps ! k)))"
    using load_ok [OF ps(3), of k] ps(1) k by simp
  have u: "[k..<length ss] = k # [Suc k..<length ss]" "drop k ss = ?s # drop (Suc k) ss"
    using k by (simp_all add: upt_conv_Cons Cons_nth_drop_Suc)
  note start = row ps(2) [THEN str_at_str_of] Suc.prems(4) [THEN str_at_str_of]
  show ?case
  proof (cases "strstr ?s t")
    case None
    have q: "Suc k \<le> length ss" "4 * (length ss - Suc k) \<le> quota h"
      using k Suc.prems(8) by auto
    obtain f' h' I' S' where 1: "populate [Suc k..<length ss] (Some ta) b f h = Some (0, f', h')"
      "found_rep h' f' (xs @ found_rows (Suc k) t (drop (Suc k) ss)) I' S'" "frame h (I \<union> S) h' (I' \<union> S')"
      "quota h \<le> quota h' + 4 * (length ss - Suc k)"
      using Suc.hyps(1) [OF k(2) Suc.prems(1-6) q] by blast
    have "populate [k..<length ss] (Some ta) b f h = Some (0, f', h')"
      "found_rows k t (drop k ss) = found_rows (Suc k) t (drop (Suc k) ss)"
      using 1(1) None Suc.prems(3) start u by simp_all
    then show ?thesis
      using 1(2,3,4) k by (intro exI [of _ f'] exI [of _ h'] exI [of _ I'] exI [of _ S']) simp
  next
    case (Some r)
    have r: "NUL \<notin> set r" and q4: "4 \<le> quota h"
      using strstr_set [OF Some] ps(2) Suc.prems(8) k by (auto simp: str_at_def)
    obtain v h1 w h2 I1 S1 where 1: "BITGREP_PushBackInt (int (found_count f)) (found_index f) (int k) h = Some (0, v, h1)"
      "BITGREP_PushBackString (int (found_count f)) (buff_found f) r h1 = Some (0, w, h2)"
      "found_rep h2 (f\<lparr>found_index := v, buff_found := w, found_count := found_count f + 1\<rparr>) (xs @ [(int k, r)]) I1 S1"
      "frame h (I \<union> S) h2 (I1 \<union> S1)" "quota h \<le> quota h2 + 4"
      using found_push [OF Suc.prems(1,5) r q4] by blast
    have P: "?P \<subseteq> {..<nxt_addr h}"
      using strs_at_less [OF Suc.prems(1,2)] str_at_less [OF Suc.prems(4,1)] by auto
    have 2: "strs_at h2 a ps ss" "str_at h2 ta t" "?P \<inter> (I1 \<union> S1) = {}"
      using strs_at_frame [OF Suc.prems(1,2) 1(4)] str_at_frame [OF 1(4) Suc.prems(4) _ Suc.prems(1)] Suc.prems(6)
        frame_disjoint [OF 1(4) _ P] by blast+
    have q: "Suc k \<le> length ss" "4 * (length ss - Suc k) \<le> quota h2"
      using k Suc.prems(8) 1(5) by auto
    obtain f' h' I' S' where 3: "populate [Suc k..<length ss] (Some ta) b
        (f\<lparr>found_index := v, buff_found := w, found_count := found_count f + 1\<rparr>) h2 = Some (0, f', h')"
      "found_rep h' f' ((xs @ [(int k, r)]) @ found_rows (Suc k) t (drop (Suc k) ss)) I' S'" "frame h2 (I1 \<union> S1) h' (I' \<union> S')"
      "quota h2 \<le> quota h' + 4 * (length ss - Suc k)"
      using Suc.hyps(1) [OF k(2) frame_heap_ok [OF 1(4)] 2(1) Suc.prems(3) 2(2) 1(3) 2(3) q] by blast
    have "populate [k..<length ss] (Some ta) b f h = Some (0, f', h')"
      using 1(1,2) 3(1) Some Suc.prems(3) start u(1) by (simp add: Let_def)
    then show ?thesis
      using 3 1(5) u(2) k Some frame_trans [OF Suc.prems(1) 1(4) 3(3)] by (intro exI conjI) auto
  qed
qed

text \<open>A search that finds nothing leaves the structure as it was.\<close>

lemma populate_count:
  "populate is target b f h = Some (0, f', h') \<Longrightarrow> found_count f \<le> found_count f' \<and> (found_count f' = found_count f \<longrightarrow> f' = f)"
proof (induction "is" arbitrary: f h)
  case (Cons i "is")
  show ?case
    using Cons.prems by (auto simp: Let_def split: bind_splits option.splits if_splits dest!: Cons.IH)
qed simp

lemma print_found_from:
  assumes "found_rep h f (ys @ xs) I S"
  shows "print_found [length ys..<length ys + length xs] f h = Some xs"
  using assms
proof (induction xs arbitrary: ys)
  case (Cons x xs)
  have ne: "map fst (ys @ x # xs) \<noteq> []" "map snd (ys @ x # xs) \<noteq> []"
    by auto
  obtain a where a: "found_index f = CPtr (Some a)" "blk h a = Some (map CInt (map fst (ys @ x # xs)))"
    using Cons.prems ne by (auto simp: found_rep_def ints_rep_def)
  have "strs_rep h (buff_found f) (map snd (ys @ x # xs)) S"
    using Cons.prems by (simp add: found_rep_def)
  then obtain b ps where b: "buff_found f = CPtr (Some b)" "strs_at h b ps (map snd (ys @ x # xs))" "S = insert b (set ps)"
    using ne(2) by (rule strs_repE)
  have l: "length ps = length (ys @ x # xs)"
    using b(2) list_all2_lengthD [of "str_at h" ps "map snd (ys @ x # xs)"] by (simp add: strs_at_def)
  then have "str_at h (ps ! length ys) (snd x)" "blk h b = Some (ptr_cells ps)"
    using b(2) list_all2_nthD [of "str_at h" ps "map snd (ys @ x # xs)" "length ys"] by (auto simp: strs_at_def nth_append)
  then have "c_load (Some b) (length ys) h = Some (CPtr (Some (ps ! length ys)))" "str_of (Some (ps ! length ys)) h = Some (snd x)"
    using load_ok [of h b "ptr_cells ps" "length ys"] l str_at_str_of by auto
  moreover have "c_load (Some a) (length ys) h = Some (CInt (fst x))"
    using load_ok [OF a(2), of "length ys"] by (simp add: nth_append)
  moreover have "print_found [length (ys @ [x])..<length (ys @ [x]) + length xs] f h = Some xs"
    using Cons.IH [of "ys @ [x]"] Cons.prems by simp
  ultimately show ?case
    unfolding upt_next using a(1) b(1) by (simp del: upt_Suc)
qed simp

section \<open>Clearing\<close>

text \<open>The target, the lines and the results are released; the pointers must have been initialised.\<close>

lemma clear_found_ok:
  assumes "heap_ok h" "found_rep h f xs I S" "xs \<noteq> []"
  shows "\<exists>h1 p h2 q h3. free_vector_strings (found_count f) (buff_found f) h = Some h1 \<and> as_ptr (found_index f) = Some p
    \<and> c_free p h1 = Some h2 \<and> as_ptr (buff_found f) = Some q \<and> c_free q h2 = Some h3 \<and> frame h (I \<union> S) h3 {}"
proof -
  have f: "found_count f = length xs" "ints_rep h (found_index f) (map fst xs) I" "strs_rep h (buff_found f) (map snd xs) S" "I \<inter> S = {}"
    using assms(2) by (auto simp: found_rep_def)
  obtain a where a: "found_index f = CPtr (Some a)" "blk h a \<noteq> None" "I = {a}"
    using f(2) assms(3) by (auto simp: ints_rep_def)
  obtain b ps where b: "buff_found f = CPtr (Some b)" "strs_at h b ps (map snd xs)" "S = insert b (set ps)"
    using strs_repE [OF f(3)] assms(3) by blast
  have le: "insert a S \<subseteq> {..<nxt_addr h}" "b \<notin> set ps" "blk h b \<noteq> None"
    using strs_at_less [OF assms(1) b(2)] heap_ok_less [OF assms(1) a(2)] b(2,3) by (auto simp: strs_at_def)
  obtain h1 where 1: "free_strings [0..<length xs] (Some b) h = Some h1" "frame h (set ps) h1 {}"
    using free_array_ok [OF assms(1) b(2)] by auto
  have n1: "nxt_addr h \<le> nxt_addr h1"
    using 1(2) by (simp add: frame_def)
  have "blk h1 a \<noteq> None" "blk h1 b \<noteq> None"
    using frame_blk [OF 1(2), of a] frame_blk [OF 1(2), of b] le a b(3) f(4) by auto
  then obtain h2 where 2: "c_free (Some a) h1 = Some h2" "frame h1 {a} h2 {}" "nxt_addr h2 = nxt_addr h1" "blk h2 b \<noteq> None"
    using free_ok [OF frame_heap_ok [OF 1(2)], of a] frame_blk [of h1 "{a}" _ "{}" b] le n1 a(3) b(3) f(4) by fastforce
  obtain h3 where 3: "c_free (Some b) h2 = Some h3" "frame h2 {b} h3 {}"
    using free_ok [OF frame_heap_ok [OF 2(2)] 2(4)] by blast
  have "frame h (set ps \<union> {a, b}) h1 ({} \<union> {a, b})"
    by (rule frame_extend [OF 1(2)]) (use le a(3) b(3) f(4) in auto)
  then have "frame h (I \<union> S) h1 {a, b}"
    using a(3) b(3) by (simp add: insert_commute)
  then have "frame h (I \<union> S) h2 {b}"
    by (rule frame_step [OF assms(1) _ 2(2)]) (use le n1 a(3) b(3) f(4) in auto)
  then have "frame h (I \<union> S) h3 {}"
    by (rule frame_step [OF assms(1) _ 3(2)]) (use le n1 2(3) b(3) in auto)
  then show ?thesis
    using 1(1) 2(1) 3(1) a(1) b(1) f(1) assms(3) by (auto simp: free_vector_strings_def)
qed

lemma Clear_ok:
  assumes "heap_ok h" "str_at h ta t" "strs_rep h v ss F" "ss \<noteq> []" "found_rep h f xs I S" "xs \<noteq> []"
    "ta \<notin> F" "insert ta F \<inter> (I \<union> S) = {}"
  shows "\<exists>h'. BITGREP_Clear \<lparr>target_string = CPtr (Some ta)\<rparr> \<lparr>row_count = length ss, buff_2d = v\<rparr> f h = Some h'
    \<and> frame h (insert ta F \<union> (I \<union> S)) h' {}"
proof -
  have le: "insert ta F \<union> (I \<union> S) \<subseteq> {..<nxt_addr h}"
    using str_at_live [OF assms(2)] str_vector.rep_live [OF assms(3)] found_rep_live [OF assms(5)] heap_ok_less [OF assms(1)]
    by blast
  obtain h1 where 1: "c_free (Some ta) h = Some h1" "frame h {ta} h1 {}" "nxt_addr h1 = nxt_addr h"
    using free_ok [OF assms(1) str_at_live [OF assms(2)]] by blast
  note ok1 = frame_heap_ok [OF 1(2)]
  obtain h2 p h3 where 3: "free_vector_strings (length ss) v h1 = Some h2" "as_ptr v = Some p" "c_free p h2 = Some h3" "frame h1 F h3 {}"
    using free_vector_ok [OF ok1 str_vector.rep_frame [OF assms(1,3) 1(2)] assms(4)] assms(7) by blast
  have f1: "frame h {ta} h1 {}"
    by (rule 1(2))
  have "frame h (insert ta F) h3 {}"
  proof -
    have "frame h ({ta} \<union> F) h1 ({} \<union> F)"
      by (rule frame_extend [OF 1(2)]) (use assms(7) le in auto)
    then show ?thesis
      using frame_trans [OF assms(1) _ 3(4), of "insert ta F"] by simp
  qed
  note f3 = this
  have "found_rep h3 f xs I S"
    using found_rep_frame [OF assms(1,5) f3] assms(8) by blast
  then obtain h4 q h5 r h6 where 6: "free_vector_strings (found_count f) (buff_found f) h3 = Some h4" "as_ptr (found_index f) = Some q"
    "c_free q h4 = Some h5" "as_ptr (buff_found f) = Some r" "c_free r h5 = Some h6" "frame h3 (I \<union> S) h6 {}"
    using clear_found_ok [OF frame_heap_ok [OF f3] _ assms(6)] by blast
  have "frame h (insert ta F \<union> (I \<union> S)) h3 ({} \<union> (I \<union> S))"
    by (rule frame_extend [OF f3 assms(8)]) (use le in auto)
  then have "frame h (insert ta F \<union> (I \<union> S)) h6 {}"
    using frame_trans [OF assms(1) _ 6(6)] by simp
  then show ?thesis
    using 1(1) 3(1-3) 6(1-5) by (simp add: BITGREP_Clear_def)
qed

lemma Clear_undef: "found_index f = CUndef \<Longrightarrow> BITGREP_Clear bg_t b f h = None"
  by (auto simp: BITGREP_Clear_def split: bind_splits)

section \<open>The whole program\<close>

lemma bitgrep_search:
  assumes "heap_ok h" "NUL \<notin> set t" "NUL \<notin> set inp" "7 * length inp + 8 \<le> quota h"
  shows "\<exists>ta h1 v h2 F b f h3 I S. BITGREP_FlagParser \<lparr>target_string = CUndef\<rparr> [prog, t] h = Some (FIND, \<lparr>target_string = CPtr (Some ta)\<rparr>, h1)
    \<and> BITGREP_MapStdinTo2d inp False \<lparr>row_count = 0, buff_2d = CUndef\<rparr> h1
        = Some (0, \<lparr>row_count = length (sep_all newline inp), buff_2d = v\<rparr>, h2)
    \<and> BITGREP_PopulateSearchResult (Some ta) \<lparr>row_count = length (sep_all newline inp), buff_2d = v\<rparr>
        \<lparr>found_count = 0, found_index = CUndef, buff_found = CUndef\<rparr> h2 = Some (0, f, h3)
    \<and> str_at h3 ta t \<and> strs_rep h3 v (sep_all newline inp) F \<and> found_rep h3 f (found_rows 0 t (sep_all newline inp)) I S
    \<and> ta \<notin> F \<and> insert ta F \<inter> (I \<union> S) = {} \<and> b \<notin> insert ta F \<union> (I \<union> S) \<and> blk h3 b \<noteq> None
    \<and> frame h {} h3 (insert b (insert ta F \<union> (I \<union> S)))"
proof -
  let ?ls = "sep_all newline inp" and ?ta = "nxt_addr h"
  let ?f0 = "\<lparr>found_count = 0, found_index = CUndef, buff_found = CUndef\<rparr>"
  obtain h1 where 1: "dup_string t h = Some (Some ?ta, h1)" "str_at h1 ?ta t" "frame h {} h1 {?ta}" "quota h1 = quota h - 1" "nxt_addr h1 = ?ta + 1"
    using dup_string_ok [OF assms(1) _ assms(2)] assms(4) by auto
  note ok1 = frame_heap_ok [OF 1(3)]
  have q1: "3 * length inp + 3 \<le> quota h1"
    using 1(4) assms(4) by linarith
  obtain v h2 F b where 2: "BITGREP_MapStdinTo2d inp False \<lparr>row_count = 0, buff_2d = CUndef\<rparr> h1
      = Some (0, \<lparr>row_count = length ?ls, buff_2d = v\<rparr>, h2)"
    "strs_rep h2 v ?ls F" "frame h1 {} h2 (insert b F)" "b \<notin> F" "blk h2 b \<noteq> None" "quota h1 \<le> quota h2 + (3 * length inp + 3)"
    using MapStdinTo2d_ok [OF ok1 assms(3) q1] by blast
  note ok2 = frame_heap_ok [OF 2(3)]
  have ta: "str_at h2 ?ta t" "?ta \<notin> insert b F"
    using str_at_frame [OF 2(3) 1(2) _ ok1] 2(3) 1(5) by (auto simp: frame_def)
  obtain a ps where a: "v = CPtr (Some a)" "strs_at h2 a ps ?ls" "F = insert a (set ps)"
    using strs_repE [OF 2(2) sep_all_not_Nil] .
  have f0: "found_rep h2 ?f0 [] {} {}"
    by (simp add: found_rep_def int_vector.rep_empty str_vector.rep_empty)
  have in2d: "buff_2d \<lparr>row_count = length ?ls, buff_2d = v\<rparr> = CPtr (Some a)" and le0: "0 \<le> length ?ls"
    using a(1) by simp_all
  have q2: "4 * (length ?ls - 0) \<le> quota h2"
    using sep_all_length_le [of newline inp] 1(4) 2(6) assms(4) by linarith
  obtain f h3 I S where 3: "populate [0..<length ?ls] (Some ?ta) \<lparr>row_count = length ?ls, buff_2d = v\<rparr> ?f0 h2 = Some (0, f, h3)"
    "found_rep h3 f ([] @ found_rows 0 t (drop 0 ?ls)) I S" "frame h2 ({} \<union> {}) h3 (I \<union> S)"
    using populate_from [OF ok2 a(2) in2d ta(1) f0 _ le0 q2] by blast
  have f3: "frame h2 {} h3 (I \<union> S)"
    using 3(3) by simp
  have le2: "insert b (insert ?ta F) \<subseteq> {..<nxt_addr h2}"
    using str_vector.rep_live [OF 2(2)] heap_ok_less [OF ok2] 2(5) str_at_live [OF ta(1)] by blast
  have d3: "(I \<union> S) \<inter> insert b (insert ?ta F) = {}"
    using frame_disjoint [OF f3 _ le2] by blast
  have "frame h {} h2 (insert b (insert ?ta F))"
    by (rule frame_step [OF assms(1) 1(3) 2(3)]) (use 1(5) ta(2) in auto)
  then have "frame h {} h3 (insert b (insert ?ta F \<union> (I \<union> S)))"
    by (rule frame_step [OF assms(1) _ f3]) (use le2 in auto)
  moreover have "str_at h3 ?ta t" "strs_rep h3 v ?ls F" "blk h3 b \<noteq> None"
    using str_at_frame [OF f3 ta(1) _ ok2] str_vector.rep_frame [OF ok2 2(2) f3] frame_blk [OF f3, of b] le2 2(5) by auto
  moreover have "BITGREP_FlagParser \<lparr>target_string = CUndef\<rparr> [prog, t] h = Some (FIND, \<lparr>target_string = CPtr (Some ?ta)\<rparr>, h1)"
    using 1(1) by (simp add: BITGREP_FlagParser_def)
  moreover have "BITGREP_PopulateSearchResult (Some ?ta) \<lparr>row_count = length ?ls, buff_2d = v\<rparr> ?f0 h2 = Some (0, f, h3)"
    using 3(1) by (simp add: BITGREP_PopulateSearchResult_def)
  moreover have "found_rep h3 f (found_rows 0 t ?ls) I S"
    using 3(2) by simp
  moreover have "?ta \<notin> F" "insert ?ta F \<inter> (I \<union> S) = {}" "b \<notin> insert ?ta F \<union> (I \<union> S)"
    using ta(2) d3 2(4) by auto
  ultimately show ?thesis
    using 2(1) by blast
qed

lemma found_rows_iff:
  "(n, r) \<in> set (found_rows i t ss) \<longleftrightarrow> (\<exists>k<length ss. n = int (i + k) \<and> strstr (ss ! k) t = Some r)"
proof (induction i t ss rule: found_rows.induct)
  case (2 i t s ss)
  have split: "(\<exists>k<length (s # ss). n = int (i + k) \<and> strstr ((s # ss) ! k) t = Some r) \<longleftrightarrow>
      n = int i \<and> strstr s t = Some r \<or> (\<exists>k<length ss. n = int (Suc i + k) \<and> strstr (ss ! k) t = Some r)"
    by (auto simp: less_Suc_eq_0_disj)
  show ?case
    unfolding split using 2 by (cases "strstr s t") auto
qed simp

lemma found_rows_sorted: "sorted_wrt (<) (map fst (found_rows i t ss))"
proof (induction i t ss rule: found_rows.induct)
  case (2 i t s ss)
  have "int i < n" if "(n, r) \<in> set (found_rows (Suc i) t ss)" for n r
    using that by (auto simp: found_rows_iff)
  then show ?case
    using 2 by (cases "strstr s t") auto
qed simp

text \<open>
  C31: when some line of the input contains the argument, the program ends normally and prints, in
  the order of the input, the number of each such line with its text from the first occurrence on.
  It never faults, and every block it allocated has been freed, except one: the buffer the input was
  read into.
\<close>

theorem bitgrep_prints_matches:
  assumes "heap_ok h" "NUL \<notin> set t" "NUL \<notin> set inp" "7 * length inp + 8 \<le> quota h"
    "found_rows 0 t (sep_all newline inp) \<noteq> []"
  shows "\<exists>out h' b. bitgrep_main [prog, t] inp False h = Some (0, out, h') \<and> frame h {} h' {b} \<and> blk h' b \<noteq> None
    \<and> sorted_wrt (<) (map fst out)
    \<and> (\<forall>n r. (n, r) \<in> set out \<longleftrightarrow>
        (\<exists>k<length (sep_all newline inp). n = int k \<and> strstr (sep_all newline inp ! k) t = Some r))"
proof -
  let ?ls = "sep_all newline inp"
  obtain ta h1 v h2 F b f h3 I S where 1:
    "BITGREP_FlagParser \<lparr>target_string = CUndef\<rparr> [prog, t] h = Some (FIND, \<lparr>target_string = CPtr (Some ta)\<rparr>, h1)"
    "BITGREP_MapStdinTo2d inp False \<lparr>row_count = 0, buff_2d = CUndef\<rparr> h1 = Some (0, \<lparr>row_count = length ?ls, buff_2d = v\<rparr>, h2)"
    "BITGREP_PopulateSearchResult (Some ta) \<lparr>row_count = length ?ls, buff_2d = v\<rparr>
        \<lparr>found_count = 0, found_index = CUndef, buff_found = CUndef\<rparr> h2 = Some (0, f, h3)"
    and 2: "str_at h3 ta t" "strs_rep h3 v ?ls F" "found_rep h3 f (found_rows 0 t ?ls) I S" "ta \<notin> F" "insert ta F \<inter> (I \<union> S) = {}"
    and b: "b \<notin> insert ta F \<union> (I \<union> S)" "blk h3 b \<noteq> None"
    and fr: "frame h {} h3 (insert b (insert ta F \<union> (I \<union> S)))"
    using bitgrep_search [OF assms(1-4), of prog] by (elim exE conjE) (rule that; assumption)
  note ok3 = frame_heap_ok [OF fr]
  obtain h4 where 4: "BITGREP_Clear \<lparr>target_string = CPtr (Some ta)\<rparr> \<lparr>row_count = length ?ls, buff_2d = v\<rparr> f h3 = Some h4"
    "frame h3 (insert ta F \<union> (I \<union> S)) h4 {}"
    using Clear_ok [OF ok3 2(1,2) sep_all_not_Nil 2(3) assms(5) 2(4,5)] by blast
  have print: "BITGREP_PrintFound f h3 = Some (found_rows 0 t ?ls)"
    using print_found_from [of h3 f "[]" "found_rows 0 t ?ls" I S] 2(3) by (simp add: BITGREP_PrintFound_def found_rep_def)
  have main: "bitgrep_main [prog, t] inp False h = Some (0, found_rows 0 t ?ls, h4)"
    by (simp add: bitgrep_main_def 1 print 4(1))
  have le: "insert b (insert ta F \<union> (I \<union> S)) \<subseteq> {..<nxt_addr h3}"
    using str_at_live [OF 2(1)] str_vector.rep_live [OF 2(2)] found_rep_live [OF 2(3)] b(2) heap_ok_less [OF ok3]
    by (intro subsetI) (metis UnE insertE lessThan_iff)
  have "frame h {} h4 {b}"
    by (rule frame_step [OF assms(1) fr 4(2) _ le]) (use b(1) in auto)
  moreover have "blk h4 b \<noteq> None"
    using frame_blk [OF 4(2) b(1)] le b(2) by auto
  moreover have "\<forall>n r. (n, r) \<in> set (found_rows 0 t ?ls) \<longleftrightarrow> (\<exists>k<length ?ls. n = int k \<and> strstr (?ls ! k) t = Some r)"
    by (simp add: found_rows_iff)
  ultimately show ?thesis
    using main found_rows_sorted [of 0 t ?ls] by blast
qed

theorem bitgrep_prints_matches_witness:
  "\<exists>out h' b. bitgrep_main [''grep'', ''b''] [CHR ''a'', CHR ''b'', CHR ''c'', newline, CHR ''x''] False (empty_heap 50) = Some (0, out, h')
    \<and> frame (empty_heap 50) {} h' {b} \<and> (0, ''bc'') \<in> set out"
proof -
  let ?i = "[CHR ''a'', CHR ''b'', CHR ''c'', newline, CHR ''x'']"
  have ls: "sep_all newline ?i = [''abc'', ''x'']"
    by code_simp
  have "found_rows 0 ''b'' [''abc'', ''x''] \<noteq> []" "strstr ''abc'' ''b'' = Some ''bc''"
    by code_simp+
  then show ?thesis
    using bitgrep_prints_matches [of "empty_heap 50" "''b''" ?i "''grep''"] by (auto simp: ls)
qed

text \<open>
  C32: when no line of the input contains the argument, the program prints nothing and then faults:
  clearing frees the two result pointers, which nothing has initialised.
\<close>

theorem bitgrep_no_match_faults:
  assumes "heap_ok h" "NUL \<notin> set t" "NUL \<notin> set inp" "7 * length inp + 8 \<le> quota h"
    "\<forall>l \<in> set (sep_all newline inp). \<nexists>u w. l = u @ t @ w"
  shows "bitgrep_main [prog, t] inp False h = None"
proof -
  let ?ls = "sep_all newline inp" and ?f0 = "\<lparr>found_count = 0, found_index = CUndef, buff_found = CUndef\<rparr>"
  have none: "\<forall>l \<in> set ?ls. strstr l t = None"
    using assms(5) strstr_None by blast
  obtain ta h1 v h2 F b f h3 I S where 1:
    "BITGREP_FlagParser \<lparr>target_string = CUndef\<rparr> [prog, t] h = Some (FIND, \<lparr>target_string = CPtr (Some ta)\<rparr>, h1)"
    "BITGREP_MapStdinTo2d inp False \<lparr>row_count = 0, buff_2d = CUndef\<rparr> h1 = Some (0, \<lparr>row_count = length ?ls, buff_2d = v\<rparr>, h2)"
    "BITGREP_PopulateSearchResult (Some ta) \<lparr>row_count = length ?ls, buff_2d = v\<rparr> ?f0 h2 = Some (0, f, h3)"
    "found_rep h3 f (found_rows 0 t ?ls) I S"
    using bitgrep_search [OF assms(1-4), of prog] by (elim exE conjE) (rule that; assumption)
  have "found_rows 0 t ?ls = []"
    using none found_rows_iff [of _ _ 0 t ?ls] by (metis last_in_set nth_mem option.discI surj_pair)
  then have "found_count f = 0"
    using 1(4) by (simp add: found_rep_def)
  then have "found_index f = CUndef"
    using populate_count [OF 1(3) [unfolded BITGREP_PopulateSearchResult_def]] by auto
  then show ?thesis
    using 1 Clear_undef by (auto simp: bitgrep_main_def split: bind_splits)
qed

theorem bitgrep_no_match_faults_witness:
  "bitgrep_main [''grep'', ''q''] ''abc'' False (empty_heap 30) = None"
proof -
  have ls: "sep_all newline ''abc'' = [''abc'']"
    by code_simp
  have "\<nexists>u w. ''abc'' = u @ ''q'' @ w"
    unfolding strstr_None [symmetric] by code_simp
  then show ?thesis
    using bitgrep_no_match_faults [of "empty_heap 30" "''q''" "''abc''" "''grep''"] by (simp add: ls)
qed

section \<open>Errors\<close>

lemma MapStdinTo2d_read_error:
  assumes "heap_ok h" "NUL \<notin> set inp" "length inp < quota h"
  shows "\<exists>h'. BITGREP_MapStdinTo2d inp True b h = Some (-2, b, h') \<and> frame h {} h' {}"
proof -
  obtain a h1 h2 cs where 1: "c_malloc MAX_STDINPUT_WIDTH h = (Some a, h1)" "c_memset0 (Some a) MAX_STDINPUT_WIDTH h1 = Some h2"
    "blk h2 a = Some (map CChar ([] @ [NUL]) @ cs)" "frame h {} h2 {a}" "quota h2 = quota h - 1"
    using MapStdinTo2d_start [OF assms(1)] assms(3) by auto
  have q: "length inp \<le> quota h2"
    using 1(5) assms(3) by linarith
  obtain h3 a' cs' where 2: "read_loop inp 1 (Some a) h2 = Some (Inr (Some a', h3))"
    "blk h3 a' = Some (map CChar ([] @ inp @ [NUL]) @ cs')" "frame h2 {a} h3 {a'}"
    using read_loop_ok [OF frame_heap_ok [OF 1(4)] 1(3) _ assms(2) _ q, of 1] by auto
  obtain h4 where 3: "c_free (Some a') h3 = Some h4" "frame h3 {a'} h4 {}"
    using free_ok [OF frame_heap_ok [OF 2(3)], of a'] 2(2) by auto
  show ?thesis
    using frame_trans [OF assms(1) frame_trans [OF assms(1) 1(4) 2(3)] 3(2)]
    by (simp add: BITGREP_MapStdinTo2d_def 1(1,2) 2(1) [simplified] 3(1))
qed

lemma MapStdinTo2d_no_memory:
  assumes "heap_ok h" "inp \<noteq> []" "quota h = 1"
  shows "\<exists>h'. BITGREP_MapStdinTo2d inp ferror b h = Some (-1, b, h') \<and> frame h {} h' {}"
proof -
  obtain a h1 h2 cs where 1: "c_malloc MAX_STDINPUT_WIDTH h = (Some a, h1)" "c_memset0 (Some a) MAX_STDINPUT_WIDTH h1 = Some h2"
    "blk h2 a = Some (map CChar ([] @ [NUL]) @ cs)" "frame h {} h2 {a}" "quota h2 = 0"
    using MapStdinTo2d_start [OF assms(1)] assms(3) by auto
  obtain h3 where 2: "c_free (Some a) h2 = Some h3" "frame h2 {a} h3 {}"
    using free_ok [OF frame_heap_ok [OF 1(4)], of a] 1(3) by auto
  have "read_loop inp 1 (Some a) h2 = Some (Inl h3)"
    using assms(2) 1(3,5) 2(1) by (subst read_loop.simps) (simp add: Let_def c_realloc_def)
  then show ?thesis
    using frame_trans [OF assms(1) 1(4) 2(2)] by (simp add: BITGREP_MapStdinTo2d_def 1(1,2))
qed



end
