(* ===== verification/AlgoWindows.thy ===== *)
theory AlgoWindows
  imports HackPrelude
begin

text \<open>
  The two-pointer and sliding-window solutions of \<^verbatim>\<open>0xetc/0xcc\<close>:
  \<^verbatim>\<open>two-pointers/container-with-most-water\<close>, \<^verbatim>\<open>sliding-window/minimum-size-subarray-sum\<close> and
  \<^verbatim>\<open>sliding-window/longest-substring-without-repeating-characters\<close>.

  A C \<^verbatim>\<open>int\<close> is an \<^typ>\<open>int\<close>; an arithmetic result outside the 32-bit range, an index outside a
  vector and erasing from an empty vector are \<^term>\<open>None\<close>.
\<close>

section \<open>Checked operations\<close>

definition c_int :: "int \<Rightarrow> int option" where
  "c_int n = (if - (2 ^ 31) \<le> n \<and> n < 2 ^ 31 then Some n else None)"

definition vget :: "'a list \<Rightarrow> int \<Rightarrow> 'a option" where
  "vget xs i = (if 0 \<le> i \<and> i < int (length xs) then Some (xs ! nat i) else None)"

lemma c_int_ok [simp]: "\<lbrakk>- (2 ^ 31) \<le> n; n < 2 ^ 31\<rbrakk> \<Longrightarrow> c_int n = Some n"
  by (simp add: c_int_def)

lemma vget_ok [simp]: "\<lbrakk>0 \<le> i; i < int (length xs)\<rbrakk> \<Longrightarrow> vget xs i = Some (xs ! nat i)"
  by (simp add: vget_def)

lemma vgetD: "vget xs i = Some x \<Longrightarrow> 0 \<le> i \<and> i < int (length xs) \<and> x = xs ! nat i"
  by (auto simp: vget_def split: if_splits)

section \<open>Container with most water\<close>

function maxArea_loop :: "int list \<Rightarrow> int \<Rightarrow> int \<Rightarrow> int \<Rightarrow> int option" where
  "maxArea_loop height front rear best =
     (if front = rear then Some best
      else do {
        h_front \<leftarrow> vget height front;
        h_rear \<leftarrow> vget height rear;
        let distance = rear - front;
        if h_front > h_rear then do {
          this_result \<leftarrow> c_int (h_rear * distance);
          maxArea_loop height front (rear - 1) (if this_result > best then this_result else best)
        }
        else do {
          this_result \<leftarrow> c_int (h_front * distance);
          maxArea_loop height (front + 1) rear (if this_result > best then this_result else best)
        }
      })"
  by pat_completeness auto
termination
  by (relation "measure (\<lambda>(height, front, rear, best). nat (rear + 1) + nat (int (length height) - front))")
    (auto dest!: vgetD)

declare maxArea_loop.simps [simp del]

definition maxArea :: "int list \<Rightarrow> int option" where
  "maxArea height = maxArea_loop height 0 (int (length height) - 1) 0"

definition area :: "int list \<Rightarrow> int \<Rightarrow> int \<Rightarrow> int" where
  "area height i j = min (height ! nat i) (height ! nat j) * (j - i)"

definition heights_ok :: "int list \<Rightarrow> bool" where
  "heights_ok height \<longleftrightarrow> (\<forall>h\<in>set height. 0 \<le> h \<and> h * int (length height) < 2 ^ 31)"

lemma heights_okD:
  assumes "heights_ok height" "0 \<le> i" "i < int (length height)" "0 \<le> d" "d \<le> int (length height)"
  shows "0 \<le> height ! nat i" "c_int (height ! nat i * d) = Some (height ! nat i * d)"
proof -
  let ?h = "height ! nat i"
  have h: "0 \<le> ?h" "?h * int (length height) < 2 ^ 31"
    using assms(1-3) by (auto simp: heights_ok_def)
  then show "0 \<le> ?h"
    by simp
  have "?h * d \<le> ?h * int (length height)" "0 \<le> ?h * d"
    using h(1) assms(4,5) by (simp_all add: mult_left_mono)
  then show "c_int (?h * d) = Some (?h * d)"
    using h(2) by (intro c_int_ok) auto
qed

text \<open>
  The shorter side with the far side is the best area the shorter side can give within the
  interval, so leaving that side behind loses nothing.
\<close>

lemma area_front_best:
  assumes "height ! nat i \<le> height ! nat k" "0 \<le> height ! nat i" "i < j" "j \<le> k"
  shows "area height i j \<le> height ! nat i * (k - i)"
proof -
  have "area height i j \<le> height ! nat i * (j - i)"
    using assms(3) unfolding area_def by (intro mult_right_mono) auto
  also have "\<dots> \<le> height ! nat i * (k - i)"
    using assms(2,4) by (intro mult_left_mono) auto
  finally show ?thesis .
qed

lemma area_rear_best:
  assumes "height ! nat k < height ! nat i" "0 \<le> height ! nat k" "i \<le> j" "j < k"
  shows "area height j k \<le> height ! nat k * (k - i)"
proof -
  have "area height j k \<le> height ! nat k * (k - j)"
    using assms(4) unfolding area_def by (intro mult_right_mono) auto
  also have "\<dots> \<le> height ! nat k * (k - i)"
    using assms(2,3) by (intro mult_left_mono) auto
  finally show ?thesis .
qed

lemma maxArea_loop_ok:
  assumes "heights_ok height" "0 \<le> front" "front \<le> rear" "rear < int (length height)" "0 \<le> best"
  shows "\<exists>r. maxArea_loop height front rear best = Some r \<and> best \<le> r
    \<and> (\<forall>i j. front \<le> i \<and> i < j \<and> j \<le> rear \<longrightarrow> area height i j \<le> r)
    \<and> (r = best \<or> (\<exists>i j. front \<le> i \<and> i < j \<and> j \<le> rear \<and> r = area height i j))"
  using assms(2-5)
proof (induction "nat (rear - front)" arbitrary: front rear best)
  case 0
  then show ?case
    by (auto simp: maxArea_loop.simps)
next
  case (Suc d)
  let ?hf = "height ! nat front" and ?hr = "height ! nat rear"
  have lt: "front < rear"
    using Suc.hyps(2) by simp
  have nn: "0 \<le> ?hf" "0 \<le> ?hr"
    using heights_okD(1) [OF assms(1), of front 0] heights_okD(1) [OF assms(1), of rear 0] Suc.prems lt by auto
  have ck: "c_int (?hf * (rear - front)) = Some (?hf * (rear - front))" "c_int (?hr * (rear - front)) = Some (?hr * (rear - front))"
    using heights_okD(2) [OF assms(1), of front "rear - front"] heights_okD(2) [OF assms(1), of rear "rear - front"] Suc.prems lt by auto
  show ?case
  proof (cases "?hf > ?hr")
    case True
    define t where "t = max (?hr * (rear - front)) best"
    have ar: "area height front rear = ?hr * (rear - front)"
      using True by (simp add: area_def)
    have d: "d = nat (rear - 1 - front)" "0 \<le> t"
      using Suc.hyps(2) Suc.prems(4) by (auto simp: t_def)
    obtain r where r: "maxArea_loop height front (rear - 1) t = Some r" "t \<le> r"
      "\<forall>i j. front \<le> i \<and> i < j \<and> j \<le> rear - 1 \<longrightarrow> area height i j \<le> r"
      "r = t \<or> (\<exists>i j. front \<le> i \<and> i < j \<and> j \<le> rear - 1 \<and> r = area height i j)"
      using Suc.hyps(1) [OF d(1) _ _ _ d(2)] Suc.prems lt by auto
    have "area height i j \<le> r" if "front \<le> i" "i < j" "j \<le> rear" for i j
      using r(2,3) area_rear_best [OF True nn(2), of i] that by (cases "j = rear") (auto simp: t_def)
    moreover have "maxArea_loop height front rear best = Some r"
      using r(1) lt Suc.prems True ck by (subst maxArea_loop.simps) (auto simp: t_def max_def split: if_splits)
    moreover have "r = best \<or> (\<exists>i j. front \<le> i \<and> i < j \<and> j \<le> rear \<and> r = area height i j)"
      using r(4)
    proof
      assume "r = t"
      then have "r = best \<or> r = area height front rear"
        by (auto simp: t_def ar max_def)
      then show ?thesis
        using lt by auto
    next
      assume "\<exists>i j. front \<le> i \<and> i < j \<and> j \<le> rear - 1 \<and> r = area height i j"
      then obtain i j where "front \<le> i" "i < j" "j \<le> rear - 1" "r = area height i j"
        by blast
      then show ?thesis
        by (intro disjI2 exI [of _ i] exI [of _ j]) simp
    qed
    ultimately show ?thesis
      using r(2) by (auto simp: t_def)
  next
    case False
    define t where "t = max (?hf * (rear - front)) best"
    have ar: "area height front rear = ?hf * (rear - front)"
      using False by (simp add: area_def)
    have d: "d = nat (rear - (front + 1))" "0 \<le> t"
      using Suc.hyps(2) Suc.prems(4) by (auto simp: t_def)
    obtain r where r: "maxArea_loop height (front + 1) rear t = Some r" "t \<le> r"
      "\<forall>i j. front + 1 \<le> i \<and> i < j \<and> j \<le> rear \<longrightarrow> area height i j \<le> r"
      "r = t \<or> (\<exists>i j. front + 1 \<le> i \<and> i < j \<and> j \<le> rear \<and> r = area height i j)"
      using Suc.hyps(1) [OF d(1) _ _ _ d(2)] Suc.prems lt by auto
    have "area height i j \<le> r" if "front \<le> i" "i < j" "j \<le> rear" for i j
      using r(2,3) area_front_best [of height front rear j] False nn that by (cases "i = front") (auto simp: t_def)
    moreover have "maxArea_loop height front rear best = Some r"
      using r(1) lt Suc.prems False ck by (subst maxArea_loop.simps) (auto simp: t_def max_def split: if_splits)
    moreover have "r = best \<or> (\<exists>i j. front \<le> i \<and> i < j \<and> j \<le> rear \<and> r = area height i j)"
      using r(4)
    proof
      assume "r = t"
      then have "r = best \<or> r = area height front rear"
        by (auto simp: t_def ar max_def)
      then show ?thesis
        using lt by auto
    next
      assume "\<exists>i j. front + 1 \<le> i \<and> i < j \<and> j \<le> rear \<and> r = area height i j"
      then obtain i j where "front + 1 \<le> i" "i < j" "j \<le> rear" "r = area height i j"
        by blast
      then show ?thesis
        by (intro disjI2 exI [of _ i] exI [of _ j]) simp
    qed
    ultimately show ?thesis
      using r(2) by (auto simp: t_def)
  qed
qed

section \<open>Minimum size subarray sum\<close>

definition INT_MAX :: int where
  "INT_MAX = 2 ^ 31 - 1"

text \<open>The inner loop returns the new \<^verbatim>\<open>rear\<close>, \<^verbatim>\<open>sum\<close>, \<^verbatim>\<open>min_len\<close> and \<^verbatim>\<open>hit\<close>.\<close>

function shrink_sum :: "int list \<Rightarrow> int \<Rightarrow> nat \<Rightarrow> nat \<Rightarrow> int \<Rightarrow> int \<Rightarrow> bool \<Rightarrow> (nat \<times> int \<times> int \<times> bool) option" where
  "shrink_sum nums target front rear s min_len hit =
     (if s \<ge> target then
        do {
          n \<leftarrow> vget nums (int rear);
          s \<leftarrow> c_int (s - n);
          if rear + 1 > front then Some (rear + 1, s, min min_len (int front - int rear + 1), True)
          else shrink_sum nums target front (rear + 1) s (min min_len (int front - int rear + 1)) True
        }
      else Some (rear, s, min_len, hit))"
  by pat_completeness auto
termination
  by (relation "measure (\<lambda>(nums, target, front, rear, s, m, h). front - rear)") auto

declare shrink_sum.simps [simp del]

function min_loop :: "int list \<Rightarrow> int \<Rightarrow> nat \<Rightarrow> nat \<Rightarrow> int \<Rightarrow> int \<Rightarrow> bool \<Rightarrow> (int \<times> bool) option" where
  "min_loop nums target front rear s min_len hit =
     (if front < length nums then
        do {
          s \<leftarrow> c_int (s + nums ! front);
          (rear, s, min_len, hit) \<leftarrow> shrink_sum nums target front rear s min_len hit;
          min_loop nums target (front + 1) rear s min_len hit
        }
      else Some (min_len, hit))"
  by pat_completeness auto
termination
  by (relation "measure (\<lambda>(nums, target, front, r). length nums - front)") auto

declare min_loop.simps [simp del]

definition minSubArrayLen :: "int \<Rightarrow> int list \<Rightarrow> int option" where
  "minSubArrayLen target nums =
     do {
       (min_len, hit) \<leftarrow> min_loop nums target 0 0 0 INT_MAX False;
       Some (if \<not> hit then 0 else min_len)
     }"

declare sum.op_ivl_Suc [simp del]

abbreviation window_sum :: "int list \<Rightarrow> nat \<Rightarrow> nat \<Rightarrow> int" where
  "window_sum nums i j \<equiv> (\<Sum>k=i..<j. nums ! k)"

definition sums_ok :: "int list \<Rightarrow> bool" where
  "sums_ok nums \<longleftrightarrow> (\<forall>n\<in>set nums. 0 \<le> n) \<and> sum_list nums < 2 ^ 31 \<and> int (length nums) < INT_MAX"

lemma window_sum_bounds:
  assumes "sums_ok nums" "j \<le> length nums"
  shows "0 \<le> window_sum nums i j" "window_sum nums i j < 2 ^ 31"
proof -
  have nn: "0 \<le> nums ! k" if "k < length nums" for k
    using assms(1) that by (simp add: sums_ok_def)
  show "0 \<le> window_sum nums i j"
    using nn assms(2) by (intro sum_nonneg) auto
  have "window_sum nums i j \<le> window_sum nums 0 (length nums)"
    using nn assms(2) by (intro sum_mono2) auto
  then show "window_sum nums i j < 2 ^ 31"
    using assms(1) by (simp add: sums_ok_def sum_list_sum_nth)
qed

lemma window_sum_mono:
  assumes "sums_ok nums" "j \<le> length nums" "i \<le> i'"
  shows "window_sum nums i' j \<le> window_sum nums i j"
  using assms by (intro sum_mono2) (auto simp: sums_ok_def)

text \<open>
  The state of the outer loop: every recorded window is one, no window that ends before
  \<^verbatim>\<open>front\<close> is shorter than \<^verbatim>\<open>min_len\<close>, and \<^verbatim>\<open>min_len\<close> accounts for every start that was passed.
\<close>

definition min_inv :: "int list \<Rightarrow> int \<Rightarrow> nat \<Rightarrow> nat \<Rightarrow> int \<Rightarrow> bool \<Rightarrow> bool" where
  "min_inv nums target front rear m hit \<longleftrightarrow>
     (\<forall>i j. i \<le> j \<and> j < front \<and> target \<le> window_sum nums i (Suc j) \<longrightarrow> m \<le> int j - int i + 1)
   \<and> (\<forall>i<rear. m \<le> int front - int i)
   \<and> (if hit then (\<exists>i j. i \<le> j \<and> j < front \<and> target \<le> window_sum nums i (Suc j) \<and> m = int j - int i + 1)
      else rear = 0 \<and> m = INT_MAX)"

text \<open>The inner loop works on the window that ends at \<^verbatim>\<open>front\<close> inclusively.\<close>

definition best_window :: "int list \<Rightarrow> int \<Rightarrow> nat \<Rightarrow> nat \<Rightarrow> int \<Rightarrow> bool \<Rightarrow> bool" where
  "best_window nums target front rear m hit \<longleftrightarrow>
     (\<forall>i<rear. m \<le> int front + 1 - int i)
   \<and> (if hit then (\<exists>i j. i \<le> j \<and> j \<le> front \<and> target \<le> window_sum nums i (Suc j) \<and> m = int j - int i + 1)
      else rear = 0 \<and> m = INT_MAX)"

lemma best_window_record:
  assumes "sums_ok nums" "best_window nums target front rear m hit" "rear \<le> front" "front < length nums"
    "target \<le> window_sum nums rear (Suc front)"
  shows "best_window nums target front (Suc rear) (min m (int front - int rear + 1)) True"
proof -
  let ?m = "min m (int front - int rear + 1)"
  have "?m \<le> int front + 1 - int i" if "i < Suc rear" for i
    using that assms(2) by (cases "i = rear") (auto simp: best_window_def min_le_iff_disj)
  moreover have "\<exists>i j. i \<le> j \<and> j \<le> front \<and> target \<le> window_sum nums i (Suc j) \<and> ?m = int j - int i + 1"
  proof (cases "hit \<and> m \<le> int front - int rear + 1")
    case True
    then show ?thesis
      using assms(2) by (auto simp: best_window_def min_def)
  next
    case False
    then have "?m = int front - int rear + 1"
      using assms(1,2,4) by (auto simp: best_window_def sums_ok_def split: if_splits)
    then show ?thesis
      using assms(3,5) by blast
  qed
  ultimately show ?thesis
    by (simp add: best_window_def)
qed

lemma shrink_sum_ok:
  assumes "sums_ok nums" "0 < target" "front < length nums" "rear \<le> front" "best_window nums target front rear m hit"
  shows "\<exists>rear' m' hit'. shrink_sum nums target front rear (window_sum nums rear (Suc front)) m hit
      = Some (rear', window_sum nums rear' (Suc front), m', hit')
    \<and> rear' \<le> Suc front \<and> window_sum nums rear' (Suc front) < target \<and> m' \<le> m \<and> best_window nums target front rear' m' hit'"
  using assms(4,5)
proof (induction "front - rear" arbitrary: rear m hit rule: less_induct)
  case less
  let ?s = "window_sum nums rear (Suc front)" and ?s1 = "window_sum nums (Suc rear) (Suc front)" and ?m = "min m (int front - int rear + 1)"
  show ?case
  proof (cases "?s \<ge> target")
    case False
    then show ?thesis
      using less.prems by (auto simp: shrink_sum.simps)
  next
    case True
    have s1: "?s - nums ! rear = ?s1"
      using less.prems(1) by (simp add: sum.atLeast_Suc_lessThan)
    have "c_int (?s - nums ! rear) = Some ?s1"
      using window_sum_bounds [OF assms(1), of "Suc front" "Suc rear"] assms(3) unfolding s1 by simp
    then have step: "shrink_sum nums target front rear ?s m hit =
        (if Suc rear > front then Some (Suc rear, ?s1, ?m, True) else shrink_sum nums target front (Suc rear) ?s1 ?m True)"
      using True less.prems(1) assms(3) by (subst shrink_sum.simps) simp
    have rec: "best_window nums target front (Suc rear) ?m True"
      using best_window_record [OF assms(1) less.prems(2,1) assms(3) True] .
    show ?thesis
    proof (cases "Suc rear > front")
      case True
      then have "Suc rear = Suc front"
        using less.prems(1) by simp
      then show ?thesis
        using rec assms(2) True step by auto
    next
      case False
      then have "front - Suc rear < front - rear" "Suc rear \<le> front"
        by auto
      then obtain rear' m' hit' where "shrink_sum nums target front (Suc rear) ?s1 ?m True = Some (rear', window_sum nums rear' (Suc front), m', hit')"
        "rear' \<le> Suc front" "window_sum nums rear' (Suc front) < target" "m' \<le> ?m" "best_window nums target front rear' m' hit'"
        using less.hyps [OF _ _ rec] by auto
      then show ?thesis
        using False step by auto
    qed
  qed
qed

lemma min_inv_best:
  assumes "min_inv nums target front rear m hit"
  shows "best_window nums target front rear m hit"
proof -
  have "m \<le> int front + 1 - int i" if "i < rear" for i
    using assms that unfolding min_inv_def by force
  then show ?thesis
    using assms unfolding min_inv_def best_window_def by (meson less_imp_le)
qed

lemma min_inv_step:
  assumes "sums_ok nums" "min_inv nums target front rear m hit" "rear' \<le> Suc front" "front < length nums"
    "window_sum nums rear' (Suc front) < target" "m' \<le> m" "best_window nums target front rear' m' hit'"
  shows "min_inv nums target (Suc front) rear' m' hit'"
proof -
  have "m' \<le> int j - int i + 1" if "i \<le> j" "j < Suc front" "target \<le> window_sum nums i (Suc j)" for i j
  proof (cases "j = front")
    case True
    have "i < rear'"
      using window_sum_mono [OF assms(1), of "Suc front" rear' i] assms(4,5) that(3) True by (cases "i < rear'") auto
    then show ?thesis
      using assms(7) True by (auto simp: best_window_def)
  next
    case False
      then have "j < front"
        using that(2) by simp
      then have "m \<le> int j - int i + 1"
        using assms(2) that(1,3) unfolding min_inv_def by blast
      then show ?thesis
        using assms(6) by simp
  qed
  then show ?thesis
    using assms(7) unfolding min_inv_def best_window_def by (auto simp: less_Suc_eq_le split: if_splits)
qed

lemma min_loop_ok:
  assumes "sums_ok nums" "0 < target" "front \<le> length nums" "rear \<le> front" "window_sum nums rear front < target"
    "min_inv nums target front rear m hit"
  shows "\<exists>m' hit' rear'. min_loop nums target front rear (window_sum nums rear front) m hit = Some (m', hit')
    \<and> min_inv nums target (length nums) rear' m' hit'"
  using assms(3-6)
proof (induction "length nums - front" arbitrary: front rear m hit)
  case 0
  then show ?case
    by (auto simp: min_loop.simps)
next
  case (Suc d)
  have f: "front < length nums"
    using Suc.hyps(2) by simp
  have s: "window_sum nums rear front + nums ! front = window_sum nums rear (Suc front)"
    using Suc.prems(2) by (simp add: sum.op_ivl_Suc)
  have c: "c_int (window_sum nums rear front + nums ! front) = Some (window_sum nums rear (Suc front))"
    using window_sum_bounds [OF assms(1), of "Suc front" rear] f unfolding s by simp
  have "best_window nums target front rear m hit"
    using Suc.prems(4) min_inv_best by blast
  then obtain rear' m' hit' where 1: "shrink_sum nums target front rear (window_sum nums rear (Suc front)) m hit
      = Some (rear', window_sum nums rear' (Suc front), m', hit')"
    "rear' \<le> Suc front" "window_sum nums rear' (Suc front) < target" "m' \<le> m" "best_window nums target front rear' m' hit'"
    using shrink_sum_ok [OF assms(1,2) f Suc.prems(2)] by blast
  have d: "d = length nums - Suc front"
    using Suc.hyps(2) by simp
  have "min_inv nums target (Suc front) rear' m' hit'"
    using min_inv_step [OF assms(1) Suc.prems(4) 1(2) f 1(3-5)] .
  moreover have "Suc front \<le> length nums"
    using f by simp
  ultimately obtain m2 hit2 rear2 where "min_loop nums target (Suc front) rear' (window_sum nums rear' (Suc front)) m' hit' = Some (m2, hit2)"
    "min_inv nums target (length nums) rear2 m2 hit2"
    using Suc.hyps(1) [OF d _ 1(2,3)] by blast
  then show ?case
    using f c 1(1) by (subst min_loop.simps) auto
qed

section \<open>Longest substring without repeating characters\<close>

text \<open>The inner loop drops characters from the front of the window until it no longer holds \<^verbatim>\<open>this_c\<close>.\<close>

fun shrink_window :: "char \<Rightarrow> nat \<Rightarrow> nat \<Rightarrow> char list \<Rightarrow> (nat \<times> char list) option" where
  "shrink_window c front rear [] = None"
| "shrink_window c front rear (v # this_vec) =
     (if front + 1 = rear then Some (front + 1, this_vec)
      else if c \<in> set this_vec then shrink_window c (front + 1) rear this_vec
      else Some (front + 1, this_vec))"

function longest_loop :: "string \<Rightarrow> nat \<Rightarrow> nat \<Rightarrow> char list \<Rightarrow> nat \<Rightarrow> nat option" where
  "longest_loop s front rear this_vec toplen =
     do {
       this_c \<leftarrow> vget s (int rear);
       (front, this_vec) \<leftarrow> (if this_c \<in> set this_vec then shrink_window this_c front rear this_vec else Some (front, this_vec));
       let this_vec = this_vec @ [this_c];
       let toplen = (if length this_vec > toplen then length this_vec else toplen);
       if rear + 1 = length s then Some toplen
       else longest_loop s front (rear + 1) this_vec toplen
     }"
  by pat_completeness auto
termination
  by (relation "measure (\<lambda>(s, front, rear, v, t). length s - rear)") (auto dest!: vgetD)

declare longest_loop.simps [simp del]

definition lengthOfLongestSubstring :: "string \<Rightarrow> nat option" where
  "lengthOfLongestSubstring s = (if length s = 0 then Some 0 else longest_loop s 0 0 [] 0)"

text \<open>The part of a string from \<^term>\<open>i\<close> up to \<^term>\<open>j\<close>.\<close>

definition part :: "nat \<Rightarrow> nat \<Rightarrow> 'a list \<Rightarrow> 'a list" where
  "part i j s = take (j - i) (drop i s)"

lemma part_length [simp]: "\<lbrakk>i \<le> j; j \<le> length s\<rbrakk> \<Longrightarrow> length (part i j s) = j - i"
  by (simp add: part_def)

lemma part_snoc: "\<lbrakk>i \<le> j; j < length s\<rbrakk> \<Longrightarrow> part i (Suc j) s = part i j s @ [s ! j]"
  by (simp add: part_def Suc_diff_le take_Suc_conv_app_nth)

lemma part_Cons: "\<lbrakk>i < j; j \<le> length s\<rbrakk> \<Longrightarrow> part i j s = s ! i # part (Suc i) j s"
  unfolding part_def by (metis Cons_nth_drop_Suc Suc_diff_Suc dual_order.strict_trans1 take_Suc_Cons)

lemma part_same [simp]: "part i i s = []"
  by (simp add: part_def)

lemma part_suffix: "\<lbrakk>i \<le> i'; i' \<le> j; j \<le> length s\<rbrakk> \<Longrightarrow> \<exists>u. part i j s = u @ part i' j s"
proof (induction "i' - i" arbitrary: i)
  case (Suc d)
  then obtain u where "part (Suc i) j s = u @ part i' j s"
    by (metis Suc_diff_Suc diff_Suc_1 Suc_leI zero_less_Suc zero_less_diff)
  then show ?case
    using part_Cons [of i j s] Suc by (metis Suc.hyps(2) append_Cons dual_order.strict_trans1 zero_less_Suc zero_less_diff)
qed auto

text \<open>The loop stops at the first window that can take the character.\<close>

lemma shrink_window_ok:
  "\<lbrakk>front < rear; rear \<le> length s; c \<in> set (part front rear s)\<rbrakk> \<Longrightarrow>
    \<exists>front'. shrink_window c front rear (part front rear s) = Some (front', part front' rear s)
      \<and> front < front' \<and> front' \<le> rear \<and> c \<notin> set (part front' rear s)
      \<and> (\<forall>i. front \<le> i \<and> i < front' \<longrightarrow> c \<in> set (part i rear s))"
proof (induction "rear - front" arbitrary: front)
  case (Suc d)
  have e: "part front rear s = s ! front # part (Suc front) rear s"
    using part_Cons Suc.prems(1,2) by blast
  show ?case
  proof (cases "Suc front < rear \<and> c \<in> set (part (Suc front) rear s)")
    case True
    then have "d = rear - Suc front" "Suc front < rear" "c \<in> set (part (Suc front) rear s)"
      using Suc.hyps(2) by auto
    then obtain front' where f: "shrink_window c (Suc front) rear (part (Suc front) rear s) = Some (front', part front' rear s)"
      "Suc front < front'" "front' \<le> rear" "c \<notin> set (part front' rear s)"
      "\<forall>i. Suc front \<le> i \<and> i < front' \<longrightarrow> c \<in> set (part i rear s)"
      using Suc.hyps(1) [of "Suc front"] Suc.prems(2) by blast
    have "c \<in> set (part i rear s)" if "front \<le> i" "i < front'" for i
      using f(5) Suc.prems(3) that by (cases "i = front") auto
    then show ?thesis
      using f True e by (auto intro!: exI [of _ front'])
  next
    case False
    then show ?thesis
      using e Suc.prems by (intro exI [of _ "Suc front"]) (auto simp: le_less_Suc_eq dest: Suc_lessI)
  qed
qed simp

text \<open>
  The state of the outer loop: the window holds the characters from \<^verbatim>\<open>front\<close> up to \<^verbatim>\<open>rear\<close> without
  repetition, no longer such part ends there, and \<^verbatim>\<open>toplen\<close> is the best length seen so far.
\<close>

definition window_inv :: "string \<Rightarrow> nat \<Rightarrow> nat \<Rightarrow> nat \<Rightarrow> bool" where
  "window_inv s front rear toplen \<longleftrightarrow> front \<le> rear \<and> rear \<le> length s \<and> distinct (part front rear s)
   \<and> (\<forall>i<front. \<not> distinct (part i rear s))
   \<and> (\<forall>i j. i \<le> j \<and> j \<le> rear \<and> distinct (part i j s) \<longrightarrow> j - i \<le> toplen)
   \<and> (\<exists>i j. i \<le> j \<and> j \<le> rear \<and> distinct (part i j s) \<and> toplen = j - i)"

lemma part_not_distinct:
  assumes "i \<le> i'" "i' \<le> j" "j \<le> length s" "\<not> distinct (part i' j s)"
  shows "\<not> distinct (part i j s)"
  using part_suffix [OF assms(1-3)] assms(4) by auto

lemma window_step:
  assumes "window_inv s front rear toplen" "rear < length s"
  shows "\<exists>front'. (if s ! rear \<in> set (part front rear s) then shrink_window (s ! rear) front rear (part front rear s)
        else Some (front, part front rear s)) = Some (front', part front' rear s) \<and> front' \<le> rear
      \<and> window_inv s front' (Suc rear) (max toplen (Suc rear - front'))"
proof -
  let ?c = "s ! rear"
  have inv: "front \<le> rear" "distinct (part front rear s)" "\<forall>i<front. \<not> distinct (part i rear s)"
    "\<forall>i j. i \<le> j \<and> j \<le> rear \<and> distinct (part i j s) \<longrightarrow> j - i \<le> toplen"
    "\<exists>i j. i \<le> j \<and> j \<le> rear \<and> distinct (part i j s) \<and> toplen = j - i"
    using assms(1) by (auto simp: window_inv_def)
  obtain front' where f: "(if ?c \<in> set (part front rear s) then shrink_window ?c front rear (part front rear s)
        else Some (front, part front rear s)) = Some (front', part front' rear s)"
    "front \<le> front'" "front' \<le> rear" "?c \<notin> set (part front' rear s)" "\<forall>i. front \<le> i \<and> i < front' \<longrightarrow> ?c \<in> set (part i rear s)"
  proof (cases "?c \<in> set (part front rear s)")
    case True
    then have "front < rear"
      using inv(1) by (cases "front = rear") auto
    then show ?thesis
      using shrink_window_ok [of front rear s ?c] True assms(2) that by auto
  next
    case False
    then show ?thesis
      using inv(1) by (intro that [of front]) auto
  qed
  have snoc: "part i (Suc rear) s = part i rear s @ [?c]" if "i \<le> rear" for i
    using part_snoc that assms(2) by blast
  have "distinct (part front' rear s)"
    using part_suffix [OF f(2,3), of s] assms(2) inv(2) by auto
  then have new: "distinct (part front' (Suc rear) s)"
    using snoc [OF f(3)] f(4) by simp
  have old: "\<not> distinct (part i (Suc rear) s)" if "i < front'" for i
    using that f(3,5) inv(3) snoc [of i] by (cases "i < front") auto
  have best: "j - i \<le> max toplen (Suc rear - front')" if "i \<le> j" "j \<le> Suc rear" "distinct (part i j s)" for i j
  proof (cases "j = Suc rear")
    case True
    then have "front' \<le> i"
      using old [of i] that(3) by (cases "i < front'") auto
    then show ?thesis
      using True by (simp add: le_max_iff_disj diff_le_mono2)
  next
    case False
    then have "j - i \<le> toplen"
      using inv(4) that by auto
    then show ?thesis
      by simp
  qed
  have "\<exists>i j. i \<le> j \<and> j \<le> Suc rear \<and> distinct (part i j s) \<and> max toplen (Suc rear - front') = j - i"
  proof (cases "toplen \<le> Suc rear - front'")
    case True
    then show ?thesis
      using new f(3) by (intro exI [of _ front'] exI [of _ "Suc rear"]) auto
  next
    case False
    then show ?thesis
      using inv(5) by (metis le_SucI max.absorb1 nat_le_linear)
  qed
  then show ?thesis
    using f new old best assms(2) unfolding window_inv_def by (intro exI [of _ front']) auto
qed

lemma longest_loop_ok:
  assumes "window_inv s front rear toplen" "rear < length s"
  shows "\<exists>front' toplen'. longest_loop s front rear (part front rear s) toplen = Some toplen' \<and> window_inv s front' (length s) toplen'"
  using assms
proof (induction "length s - rear" arbitrary: front rear toplen)
  case (Suc d)
  obtain front' where f: "(if s ! rear \<in> set (part front rear s) then shrink_window (s ! rear) front rear (part front rear s)
        else Some (front, part front rear s)) = Some (front', part front' rear s)" "front' \<le> rear"
    "window_inv s front' (Suc rear) (max toplen (Suc rear - front'))"
    using window_step [OF Suc.prems] by blast
  have p: "part front' rear s @ [s ! rear] = part front' (Suc rear) s" "length (part front' (Suc rear) s) = Suc rear - front'"
    using part_snoc [OF f(2) Suc.prems(2)] f(2) Suc.prems(2) by auto
  have v: "vget s (int rear) = Some (s ! rear)"
    using Suc.prems(2) by simp
  have mx: "(if length (part front' (Suc rear) s) > toplen then length (part front' (Suc rear) s) else toplen) = max toplen (Suc rear - front')"
    unfolding p(2) by (simp add: max_def)
  have step: "longest_loop s front rear (part front rear s) toplen =
      (if Suc rear = length s then Some (max toplen (Suc rear - front'))
       else longest_loop s front' (Suc rear) (part front' (Suc rear) s) (max toplen (Suc rear - front')))"
    unfolding longest_loop.simps [of s front] v bind.bind_lunit f(1) prod.case Let_def p(1) mx by simp
  show ?case
  proof (cases "Suc rear = length s")
    case True
    then show ?thesis
      using step f(3) by auto
  next
    case False
    then show ?thesis
      using step Suc.hyps(1) [OF _ f(3)] Suc.hyps(2) Suc.prems(2) by auto
  qed
qed simp

section \<open>Properties\<close>





text \<open>
  C36: \<^verbatim>\<open>lengthOfLongestSubstring\<close> returns, for every string, the largest length of a part of it
  without a repeated character; the window is never shrunk past its end.
\<close>

theorem longest_substring:
  "\<exists>r. lengthOfLongestSubstring s = Some r
    \<and> (\<forall>i j. i \<le> j \<and> j \<le> length s \<and> distinct (part i j s) \<longrightarrow> j - i \<le> r)
    \<and> (\<exists>i j. i \<le> j \<and> j \<le> length s \<and> distinct (part i j s) \<and> r = j - i)"
proof (cases "s = []")
  case True
  then show ?thesis
    by (simp add: lengthOfLongestSubstring_def part_def)
next
  case False
  have "window_inv s 0 0 0"
    by (simp add: window_inv_def)
  then obtain front r where "longest_loop s 0 0 (part 0 0 s) 0 = Some r" "window_inv s front (length s) r"
    using longest_loop_ok [of s 0 0 0] False by blast
  then show ?thesis
    using False by (auto simp: lengthOfLongestSubstring_def window_inv_def)
qed

theorem longest_substring_witness:
  "lengthOfLongestSubstring ''abcabcbb'' = Some 3
    \<and> \<not> distinct (part 1 5 ''abcabcbb'')"
proof -
  have r: "lengthOfLongestSubstring ''abcabcbb'' = Some 3"
    by code_simp
  then have "\<forall>i j. i \<le> j \<and> j \<le> length ''abcabcbb'' \<and> distinct (part i j ''abcabcbb'') \<longrightarrow> j - i \<le> 3"
    using longest_substring [of "''abcabcbb''"] by (simp only: option.inject) metis
  from this [rule_format, of 1 5] r show ?thesis
    by auto
qed

end
