(* ===== verification/AlgoNumbers.thy ===== *)
theory AlgoNumbers
  imports AlgoWindows "HOL-Library.Signed_Division" "HOL-Library.Multiset"
begin

text \<open>
  More solutions of \<^verbatim>\<open>0xetc/0xcc\<close>: \<^verbatim>\<open>linked-list/add-two-numbers\<close>, \<^verbatim>\<open>hashmap/two-sum\<close>,
  \<^verbatim>\<open>array/remove-element\<close>, \<^verbatim>\<open>array/merge-sorted-array\<close> and \<^verbatim>\<open>hashmap/ransom-note\<close>.

  A chain of \<^verbatim>\<open>ListNode\<close> objects that ends in a null pointer is the list of its values: the code
  reads the two argument chains and links new nodes into the result, it changes no node.
\<close>

section \<open>Add two numbers\<close>

lemma sdiv_10_smaller: "c \<noteq> 0 \<Longrightarrow> \<bar>c sdiv 10\<bar> < \<bar>c :: int\<bar>"
  by (simp add: signed_divide_int_def abs_mult)

lemma sdiv_smod_10: "0 \<le> s \<Longrightarrow> s sdiv 10 = s div 10 \<and> s smod 10 = s mod (10 :: int)"
  by (auto simp: signed_divide_int_def signed_modulo_int_def sgn_if)

text \<open>
  The values of the nodes made by the loop.  Division and remainder are those of C, which round
  toward zero.
\<close>

function add_loop :: "int list \<Rightarrow> int list \<Rightarrow> int \<Rightarrow> int list option" where
  "add_loop l1 l2 carry =
     (let number_one = (case l1 of [] \<Rightarrow> 0 | v # _ \<Rightarrow> v);
          number_two = (case l2 of [] \<Rightarrow> 0 | v # _ \<Rightarrow> v)
      in
        if carry = 0 \<and> l1 = [] \<and> l2 = [] then Some []
        else do {
          s \<leftarrow> c_int (carry + number_one);
          s \<leftarrow> c_int (s + number_two);
          rest \<leftarrow> add_loop (tl l1) (tl l2) (s sdiv 10);
          Some ((s smod 10) # rest)
        })"
  by pat_completeness auto
termination
proof (relation "measures [\<lambda>(l1, l2, carry). length l1 + length l2, \<lambda>(l1, l2, carry). nat \<bar>carry\<bar>]", goal_cases)
  case (2 l1 l2 carry n1 n2 s1 s)
  then show ?case
    using sdiv_10_smaller [of carry] by (cases l1; cases l2) (auto simp: c_int_def split: if_splits)
qed simp

declare add_loop.simps [simp del]

definition addTwoNumbers :: "int list \<Rightarrow> int list \<Rightarrow> int list option" where
  "addTwoNumbers l1 l2 = add_loop l1 l2 0"

text \<open>The number a chain of digits stands for, least digit first.\<close>

fun digits_value :: "int list \<Rightarrow> int" where
  "digits_value [] = 0"
| "digits_value (d # ds) = d + 10 * digits_value ds"

definition digits_ok :: "int list \<Rightarrow> bool" where
  "digits_ok ds \<longleftrightarrow> (\<forall>d\<in>set ds. 0 \<le> d \<and> d \<le> 9)"

text \<open>The value of the first node, 0 behind the end.\<close>

definition first :: "int list \<Rightarrow> int" where
  "first l = (case l of [] \<Rightarrow> 0 | v # _ \<Rightarrow> v)"

lemma first_digit: "digits_ok l \<Longrightarrow> 0 \<le> first l \<and> first l \<le> 9 \<and> digits_ok (tl l)"
  by (cases l) (auto simp: digits_ok_def first_def)

lemma digits_value_first: "digits_value l = first l + 10 * digits_value (tl l)"
  by (cases l) (auto simp: first_def)

lemma add_loop_step:
  "add_loop l1 l2 carry =
     (if carry = 0 \<and> l1 = [] \<and> l2 = [] then Some []
      else do {
        s \<leftarrow> c_int (carry + first l1);
        s \<leftarrow> c_int (s + first l2);
        rest \<leftarrow> add_loop (tl l1) (tl l2) (s sdiv 10);
        Some ((s smod 10) # rest)
      })"
  unfolding first_def by (subst add_loop.simps) (simp only: Let_def)

lemma add_loop_ok:
  "\<lbrakk>digits_ok l1; digits_ok l2; 0 \<le> carry; carry \<le> 1\<rbrakk> \<Longrightarrow>
    \<exists>l. add_loop l1 l2 carry = Some l \<and> digits_ok l \<and> digits_value l = digits_value l1 + digits_value l2 + carry"
proof (induction "2 * (length l1 + length l2) + nat carry" arbitrary: l1 l2 carry rule: less_induct)
  case less
  show ?case
  proof (cases "carry = 0 \<and> l1 = [] \<and> l2 = []")
    case True
    then show ?thesis
      by (simp add: add_loop_step digits_ok_def)
  next
    case False
    define s where "s = carry + first l1 + first l2"
    note n = first_digit [OF less.prems(1)] first_digit [OF less.prems(2)]
    have s: "0 \<le> s" "s \<le> 19"
      using n less.prems(3,4) by (auto simp: s_def)
    have c: "c_int (carry + first l1) = Some (carry + first l1)" "c_int s = Some s"
      using n s less.prems(3,4) by (intro c_int_ok; simp)+
    note d = sdiv_smod_10 [OF s(1)]
    have t: "0 \<le> s div 10" "s div 10 \<le> 1"
      using s by auto
    have "2 * (length (tl l1) + length (tl l2)) + nat (s div 10) < 2 * (length l1 + length l2) + nat carry"
    proof (cases "l1 = [] \<and> l2 = []")
      case True
      then have "s = 1"
        using False less.prems(3,4) by (simp add: s_def first_def)
      then show ?thesis
        using True False less.prems(3,4) by simp
    next
      case False
      then have "length (tl l1) + length (tl l2) < length l1 + length l2"
        by (cases l1; cases l2) auto
      then show ?thesis
        using t by simp
    qed
    then obtain l where l: "add_loop (tl l1) (tl l2) (s div 10) = Some l" "digits_ok l"
      "digits_value l = digits_value (tl l1) + digits_value (tl l2) + s div 10"
      using less.hyps [of "tl l1" "tl l2" "s div 10"] n t by blast
    have "add_loop l1 l2 carry = Some (s mod 10 # l)"
      unfolding add_loop_step [of l1] if_not_P [OF False] using c l(1) d by (simp add: s_def)
    moreover have "digits_ok (s mod 10 # l)"
      using l(2) by (simp add: digits_ok_def)
    moreover have "digits_value (s mod 10 # l) = digits_value l1 + digits_value l2 + carry"
      using l(3) digits_value_first [of l1] digits_value_first [of l2] by (simp add: s_def)
    ultimately show ?thesis
      by blast
  qed
qed

section \<open>Two sum\<close>

text \<open>The \<^verbatim>\<open>for\<close> loop over the second index: the index found, if any.\<close>

function second_index :: "int list \<Rightarrow> int \<Rightarrow> nat \<Rightarrow> nat \<Rightarrow> nat option option" where
  "second_index nums target front i =
     (if i < length nums then
        do {
          a \<leftarrow> vget nums (int front);
          thisval \<leftarrow> c_int (a + nums ! i);
          if thisval = target then Some (Some i) else second_index nums target front (i + 1)
        }
      else Some None)"
  by pat_completeness auto
termination
  by (relation "measure (\<lambda>(nums, target, front, i). length nums - i)") auto

declare second_index.simps [simp del]

text \<open>The outer \<^verbatim>\<open>while(1)\<close> has no bound: it may run for ever, which is \<^term>\<open>None\<close>.\<close>

partial_function (option) two_sum_loop :: "int list \<Rightarrow> int \<Rightarrow> nat \<Rightarrow> (nat \<times> nat) option" where
  "two_sum_loop nums target front =
     do {
       r \<leftarrow> second_index nums target front (front + 1);
       case r of
         Some i \<Rightarrow> Some (front, i)
       | None \<Rightarrow> two_sum_loop nums target (front + 1)
     }"

definition twoSum :: "int list \<Rightarrow> int \<Rightarrow> (nat \<times> nat) option" where
  "twoSum nums target = two_sum_loop nums target 0"

definition pair_sum :: "int list \<Rightarrow> int \<Rightarrow> nat \<Rightarrow> nat \<Rightarrow> bool" where
  "pair_sum nums target i j \<longleftrightarrow> i < j \<and> j < length nums \<and> nums ! i + nums ! j = target"

definition sums_fit :: "int list \<Rightarrow> bool" where
  "sums_fit nums \<longleftrightarrow> (\<forall>a\<in>set nums. \<forall>b\<in>set nums. - (2 ^ 31) \<le> a + b \<and> a + b < 2 ^ 31)"

lemma second_index_ok:
  assumes "sums_fit nums" "front < i"
  shows "\<exists>r. second_index nums target front i = Some r
    \<and> (case r of Some j \<Rightarrow> i \<le> j \<and> pair_sum nums target front j \<and> (\<forall>k. i \<le> k \<and> k < j \<longrightarrow> \<not> pair_sum nums target front k)
       | None \<Rightarrow> \<forall>k\<ge>i. \<not> pair_sum nums target front k)"
  using assms(2)
proof (induction "length nums - i" arbitrary: i)
  case 0
  then show ?case
    by (auto simp: second_index.simps pair_sum_def)
next
  case (Suc d)
  have i: "i < length nums" "front < length nums"
    using Suc.hyps(2) Suc.prems by auto
  have fit: "c_int (nums ! front + nums ! i) = Some (nums ! front + nums ! i)"
    using assms(1) i by (intro c_int_ok) (auto simp: sums_fit_def)
  have step: "second_index nums target front i =
      (if nums ! front + nums ! i = target then Some (Some i) else second_index nums target front (Suc i))"
    using i fit by (subst second_index.simps) simp
  show ?case
  proof (cases "nums ! front + nums ! i = target")
    case True
    then show ?thesis
      using step i Suc.prems by (auto simp: pair_sum_def)
  next
    case False
    have "d = length nums - Suc i"
      using Suc.hyps(2) by simp
    then obtain r where r: "second_index nums target front (Suc i) = Some r"
      "case r of Some j \<Rightarrow> Suc i \<le> j \<and> pair_sum nums target front j \<and> (\<forall>k. Suc i \<le> k \<and> k < j \<longrightarrow> \<not> pair_sum nums target front k)
       | None \<Rightarrow> \<forall>k\<ge>Suc i. \<not> pair_sum nums target front k"
      using Suc.hyps(1) [of "Suc i"] Suc.prems by auto
    have "\<not> pair_sum nums target front i"
      using False by (simp add: pair_sum_def)
    then have none: "\<not> pair_sum nums target front k" if "i \<le> k" "Suc i \<le> k \<Longrightarrow> \<not> pair_sum nums target front k" for k
      using that by (cases "k = i") auto
    show ?thesis
      using r step False none by (cases r) auto
  qed
qed

lemma two_sum_loop_sound:
  assumes "two_sum_loop nums target front = Some p"
  shows "sums_fit nums \<longrightarrow> front \<le> fst p \<and> pair_sum nums target (fst p) (snd p)
    \<and> (\<forall>i j. front \<le> i \<and> i < fst p \<longrightarrow> \<not> pair_sum nums target i j)"
proof (rule two_sum_loop.raw_induct [OF _ assms], intro impI)
  fix loop :: "int list \<Rightarrow> int \<Rightarrow> nat \<Rightarrow> (nat \<times> nat) option" and nums target front p
  assume IH: "\<And>nums target front p. loop nums target front = Some p \<Longrightarrow> sums_fit nums \<longrightarrow> front \<le> fst p \<and> pair_sum nums target (fst p) (snd p)
      \<and> (\<forall>i j. front \<le> i \<and> i < fst p \<longrightarrow> \<not> pair_sum nums target i j)"
    and run: "do { r \<leftarrow> second_index nums target front (front + 1);
        case r of None \<Rightarrow> loop nums target (front + 1) | Some i \<Rightarrow> Some (front, i) } = Some p"
    and fit: "sums_fit nums"
  obtain r where r: "second_index nums target front (front + 1) = Some r"
    "case r of Some j \<Rightarrow> front + 1 \<le> j \<and> pair_sum nums target front j \<and> (\<forall>k. front + 1 \<le> k \<and> k < j \<longrightarrow> \<not> pair_sum nums target front k)
     | None \<Rightarrow> \<forall>k\<ge>front + 1. \<not> pair_sum nums target front k"
    using second_index_ok [OF fit, of front "front + 1" target] by auto
  show "front \<le> fst p \<and> pair_sum nums target (fst p) (snd p) \<and> (\<forall>i j. front \<le> i \<and> i < fst p \<longrightarrow> \<not> pair_sum nums target i j)"
  proof (cases r)
    case None
    then have rest: "front + 1 \<le> fst p" "pair_sum nums target (fst p) (snd p)"
      "\<forall>i j. front + 1 \<le> i \<and> i < fst p \<longrightarrow> \<not> pair_sum nums target i j"
      using run r(1) IH [of nums target "front + 1" p] fit by auto
    have "\<not> pair_sum nums target front j" for j
      using r(2) None by (auto simp: pair_sum_def)
    then have "\<not> pair_sum nums target i j" if "front \<le> i" "i < fst p" for i j
      using rest(3) that by (cases "i = front") auto
    then show ?thesis
      using rest by auto
  next
    case (Some j)
    then show ?thesis
      using run r by auto
  qed
qed

lemma two_sum_loop_returns:
  assumes "sums_fit nums" "pair_sum nums target i j" "front \<le> i"
  shows "\<exists>p. two_sum_loop nums target front = Some p"
  using assms(3)
proof (induction "i - front" arbitrary: front)
  case 0
  then have "front = i"
    by simp
  obtain r where r: "second_index nums target i (i + 1) = Some r"
    "case r of Some j \<Rightarrow> i + 1 \<le> j \<and> pair_sum nums target i j \<and> (\<forall>k. i + 1 \<le> k \<and> k < j \<longrightarrow> \<not> pair_sum nums target i k)
     | None \<Rightarrow> \<forall>k\<ge>i + 1. \<not> pair_sum nums target i k"
    using second_index_ok [OF assms(1), of i "i + 1" target] by auto
  have "r \<noteq> None"
  proof
    assume "r = None"
    moreover have "i + 1 \<le> j"
      using assms(2) by (simp add: pair_sum_def)
    ultimately have "\<not> pair_sum nums target i j"
      using r(2) by simp
    then show False
      using assms(2) by simp
  qed
  then obtain k where "r = Some k"
    by blast
  then show ?case
    using r(1) \<open>front = i\<close> by (subst two_sum_loop.simps) simp
next
  case (Suc d)
  obtain r where r: "second_index nums target front (front + 1) = Some r"
    using second_index_ok [OF assms(1), of front "front + 1" target] by auto
  have "d = i - (front + 1)" "front + 1 \<le> i"
    using Suc.hyps(2) by auto
  then obtain p where "two_sum_loop nums target (front + 1) = Some p"
    using Suc.hyps(1) [of "front + 1"] by blast
  then show ?case
    using r by (subst two_sum_loop.simps) (cases r; simp)
qed

section \<open>Remove element and merge\<close>

definition vset :: "'a list \<Rightarrow> int \<Rightarrow> 'a \<Rightarrow> 'a list option" where
  "vset xs i x = (if 0 \<le> i \<and> i < int (length xs) then Some (xs[nat i := x]) else None)"

fun remove_loop :: "nat list \<Rightarrow> int \<Rightarrow> int list \<Rightarrow> nat \<Rightarrow> (nat \<times> int list) option" where
  "remove_loop [] val nums ans = Some (ans, nums)"
| "remove_loop (i # is) val nums ans =
     do {
       n \<leftarrow> vget nums (int i);
       if n \<noteq> val then do { nums \<leftarrow> vset nums (int ans) n; remove_loop is val nums (ans + 1) }
       else remove_loop is val nums ans
     }"

definition removeElement :: "int list \<Rightarrow> int \<Rightarrow> (nat \<times> int list) option" where
  "removeElement nums val = remove_loop [0..<length nums] val nums 0"

lemma remove_loop_ok:
  assumes "ans \<le> k" "k \<le> length nums" "take ans nums = filter (\<lambda>n. n \<noteq> val) pre" "drop k nums = rest"
  shows "\<exists>ans' nums'. remove_loop [k..<length nums] val nums ans = Some (ans', nums') \<and> length nums' = length nums
    \<and> ans' \<le> length nums \<and> take ans' nums' = filter (\<lambda>n. n \<noteq> val) (pre @ rest)"
  using assms
proof (induction "length nums - k" arbitrary: k ans nums pre rest)
  case 0
  then show ?case
    by auto
next
  case (Suc d)
  have k: "k < length nums" "d = length nums - Suc k"
    using Suc.hyps(2) by auto
  have u: "[k..<length nums] = k # [Suc k..<length nums]" "rest = nums ! k # drop (Suc k) nums"
    using k(1) Suc.prems(4) by (simp_all add: upt_conv_Cons Cons_nth_drop_Suc)
  show ?case
  proof (cases "nums ! k = val")
    case True
    have "\<exists>ans' nums'. remove_loop [Suc k..<length nums] val nums ans = Some (ans', nums') \<and> length nums' = length nums
      \<and> ans' \<le> length nums \<and> take ans' nums' = filter (\<lambda>n. n \<noteq> val) ((pre @ [nums ! k]) @ drop (Suc k) nums)"
      using Suc.prems k True by (intro Suc.hyps(1)) auto
    then show ?thesis
      using u True k(1) by auto
  next
    case False
    let ?nums = "nums[ans := nums ! k]"
    have a: "ans < length nums"
      using Suc.prems(1) k(1) by simp
    have "\<exists>ans' nums'. remove_loop [Suc k..<length ?nums] val ?nums (Suc ans) = Some (ans', nums') \<and> length nums' = length ?nums
      \<and> ans' \<le> length ?nums \<and> take ans' nums' = filter (\<lambda>n. n \<noteq> val) ((pre @ [nums ! k]) @ drop (Suc k) nums)"
      using Suc.prems k False a by (intro Suc.hyps(1)) (auto simp: take_Suc_conv_app_nth)
    then show ?thesis
      using u False k(1) a by (auto simp: vset_def)
  qed
qed

lemma removeElement_ok:
  "\<exists>ans nums'. removeElement nums val = Some (ans, nums') \<and> take ans nums' = filter (\<lambda>n. n \<noteq> val) nums
    \<and> ans = length (filter (\<lambda>n. n \<noteq> val) nums)"
proof -
  obtain ans nums' where "remove_loop [0..<length nums] val nums 0 = Some (ans, nums')" "length nums' = length nums" "ans \<le> length nums"
    "take ans nums' = filter (\<lambda>n. n \<noteq> val) ([] @ nums)"
    using remove_loop_ok [of 0 0 nums val "[]" nums] by auto
  then show ?thesis
    by (auto simp: removeElement_def) (metis length_take min.absorb2)
qed

text \<open>\<^verbatim>\<open>sort\<close> of the C++ library orders the whole vector.\<close>

fun copy_loop :: "nat list \<Rightarrow> int list \<Rightarrow> int list \<Rightarrow> int \<Rightarrow> int list option" where
  "copy_loop [] nums2 nums1 idx = Some nums1"
| "copy_loop (i # is) nums2 nums1 idx =
     do {
       n \<leftarrow> vget nums2 (int i);
       nums1 \<leftarrow> vset nums1 idx n;
       copy_loop is nums2 nums1 (idx + 1)
     }"

definition merge :: "int list \<Rightarrow> int \<Rightarrow> int list \<Rightarrow> int \<Rightarrow> int list option" where
  "merge nums1 m nums2 n =
     (if m = 0 \<and> n = 0 then Some nums1
      else if n = 0 then Some nums1
      else do {
        nums1 \<leftarrow> copy_loop [0..<nat n] nums2 nums1 m;
        Some (sort nums1)
      })"

lemma copy_loop_ok:
  assumes "k \<le> length nums2" "length nums1 = m + length nums2" "length ys = length nums2 - k"
  shows "copy_loop [k..<length nums2] nums2 (take (m + k) nums1 @ ys) (int (m + k))
      = Some (take (m + k) nums1 @ drop k nums2)"
  using assms
proof (induction "length nums2 - k" arbitrary: k nums1 ys)
  case (Suc d)
  have k: "k < length nums2" "d = length nums2 - Suc k"
    using Suc.hyps(2) by auto
  obtain y zs where y: "ys = y # zs"
    using Suc.prems(3) k(1) by (cases ys) auto
  let ?n1 = "take (m + k) nums1 @ nums2 ! k # zs"
  have "copy_loop [Suc k..<length nums2] nums2 (take (m + Suc k) ?n1 @ zs) (int (m + Suc k))
      = Some (take (m + Suc k) ?n1 @ drop (Suc k) nums2)"
    using Suc.prems k y by (intro Suc.hyps(1)) auto
  then show ?case
    using k y Suc.prems
    by (simp add: upt_conv_Cons vset_def list_update_append Cons_nth_drop_Suc nat_int_add algebra_simps)
qed simp

lemma merge_ok:
  assumes "length nums1 = m + length nums2" "sorted (take m nums1)"
  shows "\<exists>r. merge nums1 (int m) nums2 (int (length nums2)) = Some r \<and> sorted r
    \<and> mset r = mset (take m nums1) + mset nums2"
proof (cases "nums2 = []")
  case True
  then show ?thesis
    using assms by (auto simp: merge_def)
next
  case False
  have "copy_loop [0..<length nums2] nums2 nums1 (int m) = Some (take m nums1 @ nums2)"
    using copy_loop_ok [of 0 nums2 nums1 m "drop m nums1"] assms(1) by simp
  then show ?thesis
    using False by (simp add: merge_def)
qed

section \<open>Ransom note\<close>

fun count_letters :: "string \<Rightarrow> (char \<rightharpoonup> int) \<Rightarrow> (char \<rightharpoonup> int)" where
  "count_letters [] mag_map = mag_map"
| "count_letters (c # cs) mag_map =
     count_letters cs (case mag_map c of None \<Rightarrow> mag_map(c \<mapsto> 1) | Some n \<Rightarrow> mag_map(c \<mapsto> n + 1))"

fun use_letters :: "string \<Rightarrow> (char \<rightharpoonup> int) \<Rightarrow> bool" where
  "use_letters [] mag_map = True"
| "use_letters (c # cs) mag_map =
     (case mag_map c of
        None \<Rightarrow> False
      | Some n \<Rightarrow> if n - 1 < 0 then False else use_letters cs (mag_map(c \<mapsto> n - 1)))"

definition canConstruct :: "string \<Rightarrow> string \<Rightarrow> bool" where
  "canConstruct ransomNote magazine = use_letters ransomNote (count_letters magazine Map.empty)"

definition letters :: "(char \<rightharpoonup> int) \<Rightarrow> char \<Rightarrow> int" where
  "letters mag_map c = (case mag_map c of None \<Rightarrow> 0 | Some n \<Rightarrow> n)"

lemma count_letters_ok: "letters (count_letters cs mag_map) c = letters mag_map c + int (count (mset cs) c)"
  by (induction cs arbitrary: mag_map) (auto simp: letters_def split: option.splits)

lemma use_letters_ok: "use_letters cs mag_map \<longleftrightarrow> (\<forall>c. int (count (mset cs) c) \<le> max 0 (letters mag_map c))"
proof (induction cs arbitrary: mag_map)
  case (Cons d cs)
  show ?case
  proof (cases "letters mag_map d \<ge> 1")
    case True
    then obtain n where n: "mag_map d = Some n" "1 \<le> n" "letters mag_map d = n"
      by (auto simp: letters_def split: option.splits)
    have "letters (mag_map(d \<mapsto> n - 1)) c = (if c = d then n - 1 else letters mag_map c)" for c
      by (simp add: letters_def)
    then have "int (count (mset cs) c) \<le> max 0 (letters (mag_map(d \<mapsto> n - 1)) c)
        \<longleftrightarrow> int (count (mset (d # cs)) c) \<le> max 0 (letters mag_map c)" for c
      using n by (cases "c = d") (auto simp: max_def)
    moreover have "use_letters (d # cs) mag_map \<longleftrightarrow> use_letters cs (mag_map(d \<mapsto> n - 1))"
      using n by simp
    ultimately show ?thesis
      using Cons.IH [of "mag_map(d \<mapsto> n - 1)"] by blast
  next
    case False
    then have "\<not> use_letters (d # cs) mag_map"
      by (auto simp: letters_def split: option.splits)
    moreover have "\<not> int (count (mset (d # cs)) d) \<le> max 0 (letters mag_map d)"
      using False by simp
    ultimately show ?thesis
      by blast
  qed
qed simp

lemma canConstruct_iff: "canConstruct ransomNote magazine \<longleftrightarrow> mset ransomNote \<subseteq># mset magazine"
proof -
  have "letters Map.empty c = 0" for c
    by (simp add: letters_def)
  then show ?thesis
    by (simp add: canConstruct_def use_letters_ok count_letters_ok subseteq_mset_def)
qed

section \<open>Properties\<close>

text \<open>
  C37: adding two numbers given by their digits, least first, as \<^verbatim>\<open>addTwoNumbers\<close> does, gives the
  digits of their sum; it ends for all chains of digits and nothing overflows.
\<close>

theorem add_two_numbers_refines:
  assumes "digits_ok l1" "digits_ok l2"
  shows "\<exists>l. addTwoNumbers l1 l2 = Some l \<and> digits_ok l \<and> digits_value l = digits_value l1 + digits_value l2"
  using add_loop_ok [OF assms, of 0] by (auto simp: addTwoNumbers_def)

theorem add_two_numbers_refines_witness:
  "addTwoNumbers [9, 9] [1] = Some [0, 0, 1]
    \<and> (\<exists>l. addTwoNumbers [9, 9] [1] = Some l \<and> digits_ok l \<and> digits_value l = 100)"
proof -
  have "addTwoNumbers [9, 9] [1] = Some [0, 0, 1]"
    by code_simp
  then show ?thesis
    using add_two_numbers_refines [of "[9, 9]" "[1]"] by (simp add: digits_ok_def)
qed



end
