(* ===== verification/AlgoText.thy ===== *)
theory AlgoText
  imports AlgoWindows
begin

text \<open>
  Two more of the exercises: \<^verbatim>\<open>two-pointers/valid-palindrome\<close> and \<^verbatim>\<open>matrix/valid-sudoku\<close>.  Accesses outside a
  string or a row are \<^term>\<open>None\<close>; \<^verbatim>\<open>isalnum\<close> and \<^verbatim>\<open>tolower\<close> are those of the C locale.
\<close>

section \<open>Palindromes\<close>

definition isalnum :: "char \<Rightarrow> bool" where
  "isalnum c \<longleftrightarrow> (let n = of_char c :: nat in 48 \<le> n \<and> n \<le> 57 \<or> 65 \<le> n \<and> n \<le> 90 \<or> 97 \<le> n \<and> n \<le> 122)"

definition tolower :: "char \<Rightarrow> char" where
  "tolower c = (let n = of_char c :: nat in if 65 \<le> n \<and> n \<le> 90 then char_of (n + 32) else c)"

fun clean_loop :: "string \<Rightarrow> string \<Rightarrow> string" where
  "clean_loop [] new_s = new_s"
| "clean_loop (c # cs) new_s = (if \<not> isalnum c then clean_loop cs new_s else clean_loop cs (new_s @ [tolower c]))"

function palin_loop :: "string \<Rightarrow> int \<Rightarrow> int \<Rightarrow> int \<Rightarrow> bool option" where
  "palin_loop new_s newsize front rear =
     (case vget new_s front of
        None \<Rightarrow> None
      | Some f \<Rightarrow>
          (case vget new_s rear of
             None \<Rightarrow> None
           | Some r \<Rightarrow>
               if f = r then
                 (if newsize mod 2 = 0 then
                    (if front = rear - 1 then Some True else palin_loop new_s newsize (front + 1) (rear - 1))
                  else
                    (if front = rear - 2 then Some True else palin_loop new_s newsize (front + 1) (rear - 1)))
               else Some False))"
  by pat_completeness auto
termination
  by (relation "measure (\<lambda>(s, n, f, r). nat (r + 1))") (auto simp: vget_def split: if_splits)

declare palin_loop.simps [simp del]

definition isPalindrome :: "string \<Rightarrow> bool option" where
  "isPalindrome s =
     (let new_s = clean_loop s []; newsize = int (length new_s) in
      if newsize = 0 \<or> newsize = 1 then Some True else palin_loop new_s newsize 0 (newsize - 1))"

lemma clean_loop_ok: "clean_loop s acc = acc @ map tolower (filter isalnum s)"
  by (induction s arbitrary: acc) auto

lemma palin_step:
  assumes "vget s f = Some a" "vget s r = Some b"
  shows "palin_loop s n f r =
    (if a \<noteq> b then Some False
     else if (if n mod 2 = 0 then f = r - 1 else f = r - 2) then Some True
     else palin_loop s n (f + 1) (r - 1))"
  using assms by (subst palin_loop.simps) simp

text \<open>Behind the pairs compared so far, the loop decides whether the rest is symmetric.\<close>

lemma palin_loop_ok:
  assumes "2 * k + 1 < length s"
  shows "palin_loop s (int (length s)) (int k) (int (length s) - 1 - int k)
    = Some (\<forall>i. k \<le> i \<and> 2 * i + 1 < length s \<longrightarrow> s ! i = s ! (length s - 1 - i))"
  using assms
proof (induction "length s - k" arbitrary: k rule: less_induct)
  case less
  let ?n = "length s"
  let ?sym = "\<lambda>k. \<forall>i. k \<le> i \<and> 2 * i + 1 < ?n \<longrightarrow> s ! i = s ! (?n - 1 - i)"
  have r: "nat (int ?n - 1 - int k) = ?n - 1 - k" using less.prems by linarith
  have acc: "vget s (int k) = Some (s ! k)" "vget s (int ?n - 1 - int k) = Some (s ! (?n - 1 - k))"
    using less.prems r by (simp_all add: vget_def)
  have split: "?sym k \<longleftrightarrow> s ! k = s ! (?n - 1 - k) \<and> ?sym (Suc k)"
    using less.prems by (auto simp: le_Suc_eq Suc_le_eq dest: le_neq_implies_less)
  have stop: "(if int ?n mod 2 = 0 then int k = int ?n - 1 - int k - 1 else int k = int ?n - 1 - int k - 2) \<longleftrightarrow> \<not> 2 * Suc k + 1 < ?n"
    using less.prems by presburger
  note step = palin_step [OF acc, of "int ?n", unfolded stop]
  show ?case
  proof (cases "2 * Suc k + 1 < ?n")
    case False
    then have "?sym (Suc k)" by auto
    then show ?thesis
      unfolding step split using False by simp
  next
    case True
    have "palin_loop s (int ?n) (int (Suc k)) (int ?n - 1 - int (Suc k)) = Some (?sym (Suc k))"
      by (rule less.hyps) (use True in auto)
    moreover have "int k + 1 = int (Suc k)" "int ?n - 1 - int k - 1 = int ?n - 1 - int (Suc k)" by auto
    ultimately show ?thesis
      unfolding step split using True by (simp only: not_True_eq_False if_False if_True split: if_split) simp
  qed
qed

lemma symmetric_iff_rev: "(\<forall>i. 2 * i + 1 < length t \<longrightarrow> t ! i = t ! (length t - 1 - i)) \<longleftrightarrow> t = rev t"
proof
  assume h: "\<forall>i. 2 * i + 1 < length t \<longrightarrow> t ! i = t ! (length t - 1 - i)"
  show "t = rev t"
  proof (rule nth_equalityI)
    fix i assume i: "i < length t"
    consider "2 * i + 1 < length t" | "2 * (length t - 1 - i) + 1 < length t" | "i = length t - 1 - i"
      using i by linarith
    then show "t ! i = rev t ! i"
      using h [rule_format, of i] h [rule_format, of "length t - 1 - i"] i by cases (simp_all add: rev_nth)
  qed simp
next
  assume "t = rev t"
  then show "\<forall>i. 2 * i + 1 < length t \<longrightarrow> t ! i = t ! (length t - 1 - i)"
    by (metis Suc_eq_plus1 add_lessD1 diff_Suc_eq_diff_pred mult_2 rev_nth trans_less_add1)
qed

text \<open>The exercise: the letters and digits, in lower case, read the same backwards.\<close>

lemma isPalindrome_ok:
  "isPalindrome s = Some (map tolower (filter isalnum s) = rev (map tolower (filter isalnum s)))"
proof -
  define t where "t = map tolower (filter isalnum s)"
  have t: "clean_loop s [] = t" by (simp add: clean_loop_ok t_def)
  show ?thesis
  proof (cases "length t \<le> 1")
    case True
    then show ?thesis by (cases t; cases "tl t") (simp_all add: isPalindrome_def t flip: t_def)
  next
    case False
    then show ?thesis
      using palin_loop_ok [of 0 t] symmetric_iff_rev [of t] by (simp add: isPalindrome_def t Let_def flip: t_def)
  qed
qed

section \<open>Sudoku\<close>

definition cell :: "char list list \<Rightarrow> nat \<Rightarrow> nat \<Rightarrow> char option" where
  "cell board i j = do { row \<leftarrow> vget board (int i); vget row (int j) }"

text \<open>
  One character against the ones seen: \<^verbatim>\<open>None\<close> inside means a repetition, on which the method returns.
\<close>

definition see :: "char \<Rightarrow> char list \<Rightarrow> char list option" where
  "see c seen = (if c = CHR ''.'' then Some seen else if c \<in> set seen then None else Some (seen @ [c]))"

fun sub_loop :: "char list list \<Rightarrow> (nat \<times> nat) list \<Rightarrow> char list \<Rightarrow> bool option" where
  "sub_loop board [] sub = Some True"
| "sub_loop board ((si, sj) # cs) sub =
     do {
       subc \<leftarrow> cell board si sj;
       case see subc sub of None \<Rightarrow> Some False | Some sub \<Rightarrow> sub_loop board cs sub
     }"

definition box :: "nat \<Rightarrow> nat \<Rightarrow> (nat \<times> nat) list" where
  "box i j = concat (map (\<lambda>si. map (Pair si) [j..<j + 3]) [i..<i + 3])"

fun line_loop :: "char list list \<Rightarrow> nat \<Rightarrow> nat list \<Rightarrow> char list \<Rightarrow> char list \<Rightarrow> bool option" where
  "line_loop board i [] x y = Some True"
| "line_loop board i (j # js) x y =
     do {
       ok \<leftarrow> (if i mod 3 = 0 \<and> j mod 3 = 0 then sub_loop board (box i j) [] else Some True);
       if \<not> ok then Some False
       else do {
         xc \<leftarrow> cell board i j;
         yc \<leftarrow> cell board j i;
         case see xc x of
           None \<Rightarrow> Some False
         | Some x \<Rightarrow> (case see yc y of None \<Rightarrow> Some False | Some y \<Rightarrow> line_loop board i js x y)
       }
     }"

fun board_loop :: "char list list \<Rightarrow> nat list \<Rightarrow> bool option" where
  "board_loop board [] = Some True"
| "board_loop board (i # is) = do { ok \<leftarrow> line_loop board i [0..<9] [] []; if \<not> ok then Some False else board_loop board is }"

definition isValidSudoku :: "char list list \<Rightarrow> bool option" where
  "isValidSudoku board = board_loop board [0..<9]"

definition full_board :: "char list list \<Rightarrow> bool" where
  "full_board board \<longleftrightarrow> length board = 9 \<and> (\<forall>row\<in>set board. length row = 9)"

text \<open>The digits at some cells, and that none is there twice.\<close>

definition digits_at :: "char list list \<Rightarrow> (nat \<times> nat) list \<Rightarrow> char list" where
  "digits_at board cs = filter (\<lambda>c. c \<noteq> CHR ''.'') (map (\<lambda>(i, j). board ! i ! j) cs)"

lemma cell_ok: "\<lbrakk>full_board board; i < 9; j < 9\<rbrakk> \<Longrightarrow> cell board i j = Some (board ! i ! j)"
  by (simp add: cell_def full_board_def)

lemma see_ok: "distinct seen \<Longrightarrow> see c seen = (if c = CHR ''.'' then Some seen else if distinct (seen @ [c]) then Some (seen @ [c]) else None)"
  by (simp add: see_def)

lemma sub_loop_ok:
  "\<lbrakk>full_board board; \<forall>(i, j)\<in>set cs. i < 9 \<and> j < 9; distinct sub\<rbrakk> \<Longrightarrow> sub_loop board cs sub = Some (distinct (sub @ digits_at board cs))"
proof (induction cs arbitrary: sub)
  case (Cons c cs)
  obtain i j where c: "c = (i, j)" by (cases c)
  have "cell board i j = Some (board ! i ! j)" using Cons.prems cell_ok by (auto simp: c)
  then show ?case
    using Cons.IH [of sub] Cons.IH [of "sub @ [board ! i ! j]"] Cons.prems
    by (simp add: c see_def digits_at_def)
qed (simp add: digits_at_def)

lemma box_bounds: "i < 9 \<Longrightarrow> j < 9 \<Longrightarrow> i mod 3 = 0 \<Longrightarrow> j mod 3 = 0 \<Longrightarrow> \<forall>(si, sj)\<in>set (box i j). si < 9 \<and> sj < 9"
  by (auto simp: box_def)

lemma line_loop_ok:
  "\<lbrakk>full_board board; i < 9; \<forall>j\<in>set js. j < 9; distinct x; distinct y\<rbrakk> \<Longrightarrow>
     line_loop board i js x y = Some (
       distinct (x @ digits_at board (map (Pair i) js)) \<and> distinct (y @ digits_at board (map (\<lambda>j. (j, i)) js))
       \<and> (i mod 3 = 0 \<longrightarrow> (\<forall>j\<in>set js. j mod 3 = 0 \<longrightarrow> distinct (digits_at board (box i j)))))"
proof (induction js arbitrary: x y)
  case (Cons j js)
  let ?a = "board ! i ! j" and ?b = "board ! j ! i"
  have cells: "cell board i j = Some ?a" "cell board j i = Some ?b"
    using Cons.prems cell_ok by auto
  have sub: "(if i mod 3 = 0 \<and> j mod 3 = 0 then sub_loop board (box i j) [] else Some True)
      = Some (i mod 3 = 0 \<longrightarrow> j mod 3 = 0 \<longrightarrow> distinct (digits_at board (box i j)))"
    using sub_loop_ok [of board "box i j" "[]"] box_bounds [of i j] Cons.prems by simp
  have digs: "digits_at board (map (Pair i) (j # js)) = (if ?a = CHR ''.'' then [] else [?a]) @ digits_at board (map (Pair i) js)"
    "digits_at board (map (\<lambda>j. (j, i)) (j # js)) = (if ?b = CHR ''.'' then [] else [?b]) @ digits_at board (map (\<lambda>j. (j, i)) js)"
    by (simp_all add: digits_at_def)
  have ih: "line_loop board i js x' y' = Some (
       distinct (x' @ digits_at board (map (Pair i) js)) \<and> distinct (y' @ digits_at board (map (\<lambda>j. (j, i)) js))
       \<and> (i mod 3 = 0 \<longrightarrow> (\<forall>j\<in>set js. j mod 3 = 0 \<longrightarrow> distinct (digits_at board (box i j)))))"
    if "distinct x'" "distinct y'" for x' y'
    using Cons.IH that Cons.prems(1-3) by simp
  show ?case
    unfolding line_loop.simps sub cells digs see_def bind.bind_lunit
    using Cons.prems(4,5) by (auto simp: ih)
qed (simp add: digits_at_def)

definition line_valid :: "char list list \<Rightarrow> nat \<Rightarrow> bool" where
  "line_valid board i \<longleftrightarrow>
     distinct (digits_at board (map (Pair i) [0..<9])) \<and> distinct (digits_at board (map (\<lambda>j. (j, i)) [0..<9]))
     \<and> (i mod 3 = 0 \<longrightarrow> (\<forall>j\<in>set [0..<9]. j mod 3 = 0 \<longrightarrow> distinct (digits_at board (box i j))))"

lemma board_loop_ok:
  assumes "full_board board"
  shows "\<forall>i\<in>set is. i < 9 \<Longrightarrow> board_loop board is = Some (\<forall>i\<in>set is. line_valid board i)"
proof (induction "is")
  case (Cons i "is")
  have "line_loop board i [0..<9] [] [] = Some (line_valid board i)"
    using line_loop_ok [OF assms, of i "[0..<9]" "[]" "[]"] Cons.prems unfolding line_valid_def by simp
  then show ?case
    using Cons by simp
qed simp

lemma lines_split:
  fixes P Q C :: "nat \<Rightarrow> bool"
  shows "(\<forall>i\<in>set [0..<n]. P i \<and> Q i \<and> (C i \<longrightarrow> (\<forall>j\<in>set [0..<n]. C j \<longrightarrow> R i j)))
    \<longleftrightarrow> (\<forall>i<n. P i) \<and> (\<forall>i<n. Q i) \<and> (\<forall>i<n. \<forall>j<n. C i \<and> C j \<longrightarrow> R i j)"
  by auto

text \<open>
  The exercise: on a board of nine rows of nine, no digit is twice in a row, in a column, or in one of the nine
  boxes of three by three.
\<close>

lemma isValidSudoku_ok:
  assumes "full_board board"
  shows "isValidSudoku board = Some (
    (\<forall>i<9. distinct (digits_at board (map (Pair i) [0..<9]))) \<and> (\<forall>j<9. distinct (digits_at board (map (\<lambda>i. (i, j)) [0..<9])))
    \<and> (\<forall>i<9. \<forall>j<9. i mod 3 = 0 \<and> j mod 3 = 0 \<longrightarrow> distinct (digits_at board (box i j))))"
proof -
  have "isValidSudoku board = Some (\<forall>i\<in>set [0..<9]. line_valid board i)"
    unfolding isValidSudoku_def by (rule board_loop_ok [OF assms]) simp
  moreover have "(\<forall>i\<in>set [0..<9]. line_valid board i) \<longleftrightarrow>
    (\<forall>i<9. distinct (digits_at board (map (Pair i) [0..<9]))) \<and> (\<forall>j<9. distinct (digits_at board (map (\<lambda>i. (i, j)) [0..<9])))
    \<and> (\<forall>i<9. \<forall>j<9. i mod 3 = 0 \<and> j mod 3 = 0 \<longrightarrow> distinct (digits_at board (box i j)))"
    unfolding line_valid_def by (rule lines_split)
  ultimately show ?thesis by (simp only:)
qed

end
