(* ===== verification/AlgoConvert.thy ===== *)
theory AlgoConvert
  imports AlgoText
begin

text \<open>
  The last of the exercises: \<^verbatim>\<open>array/zigzag-conversion\<close> and \<^verbatim>\<open>math/palindrome-number\<close>.
\<close>

section \<open>Zigzag conversion\<close>

text \<open>\<^verbatim>\<open>s[i]\<close> is the NUL character at the end of a string, and undefined behind it.\<close>

definition char_at :: "string \<Rightarrow> nat \<Rightarrow> char option" where
  "char_at s i = (if i < length s then Some (s ! i) else if i = length s then Some (char_of (0 :: nat)) else None)"

definition push_char :: "string list \<Rightarrow> nat \<Rightarrow> char \<Rightarrow> string list option" where
  "push_char t row c = (if row < length t then Some (t[row := t ! row @ [c]]) else None)"

text \<open>
  The two inner loops, with \<^verbatim>\<open>reached_full\<close> telling which of them runs; \<^verbatim>\<open>do_switch\<close> is set for the pass of the
  outer loop between them.
\<close>

function zig :: "string \<Rightarrow> nat \<Rightarrow> nat \<Rightarrow> nat \<Rightarrow> bool \<Rightarrow> nat \<Rightarrow> string list \<Rightarrow> string list option" where
  "zig s n i row reached_full col t =
     (if \<not> reached_full then
        (case char_at s i of
           None \<Rightarrow> None
         | Some c \<Rightarrow>
             (case push_char t row c of
                None \<Rightarrow> None
              | Some t \<Rightarrow>
                  if i + 1 = length s then Some t
                  else if row + 1 = n then zig s n (i + 1) 0 (n - 2 \<noteq> 0) (n - 2) t
                  else zig s n (i + 1) (row + 1) False col t))
      else if row \<noteq> col then
        (case push_char t row (CHR '' '') of
           None \<Rightarrow> None
         | Some t \<Rightarrow>
             if i = length s then Some t
             else if row + 1 = n then zig s n i 0 (\<not> col - 1 < 1) (col - 1) t
             else zig s n i (row + 1) True col t)
      else
        (case char_at s i of
           None \<Rightarrow> None
         | Some c \<Rightarrow>
             (case push_char t row c of
                None \<Rightarrow> None
              | Some t \<Rightarrow>
                  if i + 1 = length s then Some t
                  else if row + 1 = n then zig s n (i + 1) 0 (\<not> col - 1 < 1) (col - 1) t
                  else zig s n (i + 1) (row + 1) True col t)))"
  by pat_completeness auto
termination
  by (relation "measures [\<lambda>(s, n, i, row, f, col, t). Suc (length s) - i, \<lambda>(s, n, i, row, f, col, t). if f then 1 else 0,
      \<lambda>(s, n, i, row, f, col, t). col, \<lambda>(s, n, i, row, f, col, t). length t - row]")
    (auto simp: char_at_def push_char_def split: if_splits)

declare zig.simps [simp del]

definition convert :: "string \<Rightarrow> int \<Rightarrow> string option" where
  "convert s numRows =
     (if numRows = 1 then Some s
      else map_option (\<lambda>t. concat (map (filter (\<lambda>c. c \<noteq> CHR '' '')) t))
        (zig s (nat numRows) 0 0 False 0 (replicate (nat numRows) [])))"

text \<open>The row of the character with number \<^term>\<open>k\<close>, and the characters of a row.\<close>

definition zigzag_row :: "nat \<Rightarrow> nat \<Rightarrow> nat" where
  "zigzag_row n k = (let m = k mod (2 * n - 2) in if m < n then m else 2 * n - 2 - m)"

definition row_text :: "string \<Rightarrow> nat \<Rightarrow> nat \<Rightarrow> nat \<Rightarrow> string" where
  "row_text s n r i = filter (\<lambda>c. c \<noteq> CHR '' '') (map (nth s) (filter (\<lambda>k. zigzag_row n k = r) [0..<i]))"

definition tiles_ok :: "string \<Rightarrow> nat \<Rightarrow> nat \<Rightarrow> string list \<Rightarrow> bool" where
  "tiles_ok s n i t \<longleftrightarrow> length t = n \<and> (\<forall>r<n. filter (\<lambda>c. c \<noteq> CHR '' '') (t ! r) = row_text s n r i)"

definition at_ok :: "nat \<Rightarrow> nat \<Rightarrow> nat \<Rightarrow> bool \<Rightarrow> nat \<Rightarrow> bool" where
  "at_ok n i row full col \<longleftrightarrow> row < n \<and>
     (if full then 1 \<le> col \<and> col \<le> n - 2 \<and>
        i mod (2 * n - 2) = (if row \<le> col then 2 * n - 2 - col else if col = 1 then 0 else 2 * n - 2 - col + 1)
      else i mod (2 * n - 2) = row)"

lemma push_blank:
  assumes "tiles_ok s n i t" "row < n"
  shows "\<exists>t'. push_char t row (CHR '' '') = Some t' \<and> tiles_ok s n i t'"
proof -
  have "filter (\<lambda>c. c \<noteq> CHR '' '') (t[row := t ! row @ [CHR '' '']] ! r) = filter (\<lambda>c. c \<noteq> CHR '' '') (t ! r)" if "r < n" for r
    using assms that by (cases "r = row") (auto simp: tiles_ok_def)
  then show ?thesis using assms by (auto simp: push_char_def tiles_ok_def)
qed

lemma push_next:
  assumes "tiles_ok s n i t" "row < n" "zigzag_row n i = row" "i < length s"
  shows "\<exists>t'. push_char t row (s ! i) = Some t' \<and> tiles_ok s n (i + 1) t'"
proof -
  have "filter (\<lambda>c. c \<noteq> CHR '' '') (t[row := t ! row @ [s ! i]] ! r) = row_text s n r (i + 1)" if "r < n" for r
    using assms that by (cases "r = row") (auto simp: tiles_ok_def row_text_def)
  then show ?thesis using assms by (auto simp: push_char_def tiles_ok_def)
qed

lemma at_row:
  assumes "at_ok n i row full col" "2 \<le> n" "full \<longrightarrow> row = col"
  shows "zigzag_row n i = row"
  using assms by (auto simp: at_ok_def zigzag_row_def Let_def split: if_splits)

lemma at_next_down:
  assumes "at_ok n i row False col" "2 \<le> n"
  shows "row + 1 = n \<Longrightarrow> at_ok n (i + 1) 0 (n - 2 \<noteq> 0) (n - 2)" "row + 1 \<noteq> n \<Longrightarrow> at_ok n (i + 1) (row + 1) False col'"
  using assms by (auto simp: at_ok_def mod_Suc)

lemma at_next_blank:
  assumes "at_ok n i row True col" "2 \<le> n" "row \<noteq> col"
  shows "row + 1 = n \<Longrightarrow> at_ok n i 0 (\<not> col - 1 < 1) (col - 1)" "row + 1 \<noteq> n \<Longrightarrow> at_ok n i (row + 1) True col"
  using assms by (auto simp: at_ok_def split: if_splits)

lemma at_next_char:
  assumes "at_ok n i row True col" "2 \<le> n" "row = col"
  shows "row + 1 \<noteq> n \<and> at_ok n (i + 1) (row + 1) True col"
  using assms by (auto simp: at_ok_def mod_Suc)

lemma zig_ok:
  assumes "2 \<le> n"
  shows "i < length s \<Longrightarrow> at_ok n i row full col \<Longrightarrow> tiles_ok s n i t \<Longrightarrow>
    \<exists>t'. zig s n i row full col t = Some t' \<and> tiles_ok s n (length s) t'"
  using assms
proof (induction s n i row full col t rule: zig.induct)
  case (1 s n i row full col t)
  note prems = 1(7-10)
  have row: "row < n" using prems(2) by (simp add: at_ok_def)
  have get: "char_at s i = Some (s ! i)" using prems(1) by (simp add: char_at_def)
  show ?case
  proof (cases "full \<and> row \<noteq> col")
    case True
    then obtain t' where t': "push_char t row (CHR '' '') = Some t'" "tiles_ok s n i t'"
      using push_blank [OF prems(3) row] by blast
    have i: "i \<noteq> length s" using prems(1) by simp
    have at: "at_ok n i row True col" using prems(2) True by simp
    note step = zig.simps [of s n i row full col t]
    show ?thesis
    proof (cases "row + 1 = n")
      case last: True
      then show ?thesis
        using 1(3) [OF _ _ t'(1) i last] True prems(1,4) at_next_blank(1) [OF at prems(4)] t' i step by simp
    next
      case False
      then show ?thesis
        using 1(4) [OF _ _ t'(1) i False] True prems(1,4) at_next_blank(2) [OF at prems(4)] t' i step by simp
    qed
  next
    case False
    have "zigzag_row n i = row" using at_row [OF prems(2,4)] False by blast
    then obtain t' where t': "push_char t row (s ! i) = Some t'" "tiles_ok s n (i + 1) t'"
      using push_next [OF prems(3) row _ prems(1)] by blast
    note step = zig.simps [of s n i row full col t]
    show ?thesis
    proof (cases "i + 1 = length s")
      case True
      then show ?thesis using step False get t' by (auto simp: add.commute)
    next
      case more: False
      then have i: "i + 1 < length s" using prems(1) by simp
      show ?thesis
      proof (cases full)
        case up: True
        then have at: "at_ok n i row True col" "row = col" using prems(2) False by auto
        note nxt = at_next_char [OF at(1) prems(4) at(2)]
        show ?thesis
          using 1(6) [OF _ _ get t'(1) more] up at(2) nxt i prems(4) t' step get more by simp
      next
        case down: False
        then have at: "at_ok n i row False col" using prems(2) by simp
        show ?thesis
        proof (cases "row + 1 = n")
          case last: True
          then show ?thesis
            using 1(1) [OF down get t'(1) more last] at_next_down(1) [OF at prems(4)] down i prems(4) t' step get more by simp
        next
          case inner: False
          then show ?thesis
            using 1(2) [OF down get t'(1) more inner] at_next_down(2) [OF at prems(4)] down i prems(4) t' step get more by simp
        qed
      qed
    qed
  qed
qed

text \<open>
  For two rows or more and a text that is not empty the rows are put one after the other, without the blanks of the
  text, which the code cannot tell from the ones it fills the tiles with.  The empty text is read past its end.
\<close>

lemma convert_ok:
  assumes "2 \<le> numRows" "s \<noteq> []"
  shows "convert s numRows = Some (concat (map (\<lambda>r. row_text s (nat numRows) r (length s)) [0..<nat numRows]))"
proof -
  let ?n = "nat numRows"
  have n: "2 \<le> ?n" using assms(1) by simp
  have "at_ok ?n 0 0 False 0" "tiles_ok s ?n 0 (replicate ?n [])"
    using n by (auto simp: at_ok_def tiles_ok_def row_text_def)
  then obtain t where t: "zig s ?n 0 0 False 0 (replicate ?n []) = Some t" "tiles_ok s ?n (length s) t"
    using zig_ok [OF n, of 0 s 0 False 0 "replicate ?n []"] assms(2) by auto
  then have "map (filter (\<lambda>c. c \<noteq> CHR '' '')) t = map (\<lambda>r. row_text s ?n r (length s)) [0..<?n]"
    by (auto simp: tiles_ok_def intro: nth_equalityI)
  then show ?thesis using t assms(1) by (simp add: convert_def)
qed

lemma convert_empty: "2 \<le> numRows \<Longrightarrow> convert [] numRows = None"
proof -
  have "zig [] n 0 0 False 0 (replicate n []) = None" if "2 \<le> n" for n
  proof (cases "n = 2")
    case True
    then show ?thesis by (simp add: zig.simps char_at_def push_char_def)
  next
    case False
    then show ?thesis using that by (subst zig.simps) (simp add: char_at_def push_char_def zig.simps [of _ _ "Suc 0"])
  qed
  then show "2 \<le> numRows \<Longrightarrow> convert [] numRows = None" by (simp add: convert_def)
qed

lemma convert_example: "convert ''PAYPALISHIRING'' 3 = Some ''PAHNAPLSIIGYIR''"
  by code_simp

section \<open>Palindrome number\<close>

text \<open>What \<^verbatim>\<open>sprintf\<close> prints for \<^verbatim>\<open>%d\<close>.\<close>

function put_digits :: "nat \<Rightarrow> string \<Rightarrow> string" where
  "put_digits n out =
     (if n div 10 = 0 then char_of (48 + n mod 10) # out
      else put_digits (n div 10) (char_of (48 + n mod 10) # out))"
  by pat_completeness auto
termination
  by (relation "measure fst") auto

declare put_digits.simps [simp del]

definition decimal :: "nat \<Rightarrow> string" where
  "decimal n = put_digits n []"

definition print_int :: "int \<Rightarrow> string" where
  "print_int x = (if x < 0 then CHR ''-'' # decimal (nat (- x)) else decimal (nat x))"

definition buffer16 :: "string \<Rightarrow> string option" where
  "buffer16 str = (if length str < 16 then Some (str @ replicate (16 - length str) (char_of (0 :: nat))) else None)"

function even_loop :: "string \<Rightarrow> int \<Rightarrow> int \<Rightarrow> bool option" where
  "even_loop x_str xsize i =
     (if i > xsize - i - 1 then Some True
      else case vget x_str i of
          None \<Rightarrow> None
        | Some front \<Rightarrow>
            (case vget x_str (xsize - i - 1) of
               None \<Rightarrow> None
             | Some rear \<Rightarrow> if front \<noteq> rear then Some False else even_loop x_str xsize (i + 1)))"
  by pat_completeness auto
termination
  by (relation "measure (\<lambda>(xs, n, i). nat (n - i))") (auto simp: vget_def split: if_splits)

function odd_loop :: "string \<Rightarrow> int \<Rightarrow> int \<Rightarrow> bool option" where
  "odd_loop x_str xsize i =
     (if i = xsize - i - 1 then Some True
      else case vget x_str i of
          None \<Rightarrow> None
        | Some front \<Rightarrow>
            (case vget x_str (xsize - i - 1) of
               None \<Rightarrow> None
             | Some rear \<Rightarrow> if front \<noteq> rear then Some False else odd_loop x_str xsize (i + 1)))"
  by pat_completeness auto
termination
  by (relation "measure (\<lambda>(xs, n, i). nat (int (length xs) - i))") (auto simp: vget_def split: if_splits)

declare even_loop.simps [simp del] odd_loop.simps [simp del]

definition isPalindromeNumber :: "int \<Rightarrow> bool option" where
  "isPalindromeNumber x =
     do {
       x_str \<leftarrow> buffer16 (print_int x);
       let xsize = length (takeWhile (\<lambda>c. c \<noteq> char_of (0 :: nat)) x_str);
       if xsize = 1 then Some True
       else if x_str ! 0 = CHR ''-'' then Some False
       else if xsize mod 2 = 0 then even_loop x_str (int xsize) 0
       else odd_loop x_str (int xsize) 0
     }"

lemma symmetric_split:
  fixes i n :: nat
  assumes "2 * i + 1 < n"
  shows "(\<forall>j. i \<le> j \<and> 2 * j + 1 < n \<longrightarrow> P j) \<longleftrightarrow> P i \<and> (\<forall>j. Suc i \<le> j \<and> 2 * j + 1 < n \<longrightarrow> P j)"
proof (intro iffI conjI allI impI)
  assume all: "\<forall>j. i \<le> j \<and> 2 * j + 1 < n \<longrightarrow> P j"
  show "P i" using all [rule_format, of i] assms by simp
  show "P j" if "Suc i \<le> j \<and> 2 * j + 1 < n" for j using all [rule_format, of j] that by simp
next
  fix j
  assume "P i \<and> (\<forall>j. Suc i \<le> j \<and> 2 * j + 1 < n \<longrightarrow> P j)" "i \<le> j \<and> 2 * j + 1 < n"
  then show "P j" by (cases "j = i") auto
qed

lemma loop_reads:
  assumes "n \<le> length b" "2 * i + 1 < n"
  shows "vget b (int i) = Some (b ! i)" "vget b (int n - int i - 1) = Some (b ! (n - 1 - i))"
proof -
  have "nat (int n - int i - 1) = n - 1 - i" using assms by linarith
  then show "vget b (int i) = Some (b ! i)" "vget b (int n - int i - 1) = Some (b ! (n - 1 - i))"
    using assms by (simp_all add: vget_def)
qed

lemma even_loop_ok:
  assumes "n \<le> length b" "2 * i \<le> n" "n mod 2 = 0"
  shows "even_loop b (int n) (int i) = Some (\<forall>j. i \<le> j \<and> 2 * j + 1 < n \<longrightarrow> b ! j = b ! (n - 1 - j))"
  using assms(2)
proof (induction "n - i" arbitrary: i rule: less_induct)
  case less
  show ?case
  proof (cases "2 * i = n")
    case True
    then show ?thesis by (subst even_loop.simps) auto
  next
    case False
    then have i: "2 * i + 1 < n" "2 * Suc i \<le> n" using less.prems assms(3) by presburger+
    have "\<not> int i > int n - int i - 1" "int i + 1 = int (Suc i)" using i by simp_all
    then show ?thesis
      unfolding symmetric_split [OF i(1)] using less.hyps [of "Suc i"] i loop_reads [OF assms(1) i(1)]
      by (subst even_loop.simps) (simp add: add.commute)
  qed
qed

lemma odd_loop_ok:
  assumes "n \<le> length b" "2 * i < n" "n mod 2 = 1"
  shows "odd_loop b (int n) (int i) = Some (\<forall>j. i \<le> j \<and> 2 * j + 1 < n \<longrightarrow> b ! j = b ! (n - 1 - j))"
  using assms(2)
proof (induction "n - i" arbitrary: i rule: less_induct)
  case less
  show ?case
  proof (cases "2 * i + 1 = n")
    case True
    then show ?thesis by (subst odd_loop.simps) auto
  next
    case False
    then have i: "2 * i + 1 < n" "2 * Suc i < n" using less.prems assms(3) by presburger+
    have "int i \<noteq> int n - int i - 1" "int i + 1 = int (Suc i)" using i by linarith+
    then show ?thesis
      unfolding symmetric_split [OF i(1)] using less.hyps [of "Suc i"] i loop_reads [OF assms(1) i(1)]
      by (subst odd_loop.simps) (simp add: add.commute)
  qed
qed

lemma digit_char:
  fixes d :: nat
  assumes "d < 10"
  shows "char_of (48 + d) \<noteq> (char_of (0 :: nat) :: char) \<and> char_of (48 + d) \<noteq> CHR ''-''"
proof -
  have "d \<in> {0, 1, 2, 3, 4, 5, 6, 7, 8, 9}" using assms by auto
  then show ?thesis by (auto simp: char_of_def)
qed

lemma put_digits_step:
  "put_digits n out = (if n < 10 then char_of (48 + n mod 10) # out else put_digits (n div 10) (char_of (48 + n mod 10) # out))"
  by (subst put_digits.simps) (simp add: Let_def div_eq_0_iff)

lemma put_digits_chars: "c \<in> set (put_digits n out) \<Longrightarrow> c \<in> set out \<or> c \<noteq> char_of (0 :: nat) \<and> c \<noteq> CHR ''-''"
proof (induction n arbitrary: out rule: less_induct)
  case (less n)
  define e :: char where "e = char_of (48 + n mod 10)"
  have last: "e \<noteq> char_of (0 :: nat) \<and> e \<noteq> CHR ''-''" unfolding e_def by (rule digit_char) simp
  note step = put_digits_step [of n out, folded e_def]
  show ?case
  proof (cases "n < 10")
    case True
    then have "c = e \<or> c \<in> set out" using less.prems unfolding step by simp
    then show ?thesis using last by blast
  next
    case False
    then have "c \<in> set (put_digits (n div 10) (e # out))" using less.prems unfolding step by simp
    then have "c \<in> set (e # out) \<or> c \<noteq> char_of (0 :: nat) \<and> c \<noteq> CHR ''-''"
      by (rule less.IH [rotated]) (use False in simp)
    then show ?thesis using last unfolding list.set insert_iff by blast
  qed
qed

lemma decimal_chars: "c \<in> set (decimal n) \<Longrightarrow> c \<noteq> char_of (0 :: nat) \<and> c \<noteq> CHR ''-''"
  using put_digits_chars [of c n "[]"] by (simp add: decimal_def)

lemma put_digits_length:
  "n < 10 ^ Suc k \<Longrightarrow> length out < length (put_digits n out) \<and> length (put_digits n out) \<le> Suc k + length out"
proof (induction k arbitrary: n out)
  case 0
  then show ?case by (simp add: put_digits_step [of n])
next
  case (Suc k)
  have "n div 10 < 10 ^ Suc k" using Suc.prems by (simp add: less_mult_imp_div_less)
  then show ?case
    using Suc.IH [of "n div 10" "char_of (48 + n mod 10) # out"] by (cases "n < 10") (simp_all add: put_digits_step [of n])
qed

lemma decimal_length: "n < 10 ^ Suc k \<Longrightarrow> 0 < length (decimal n) \<and> length (decimal n) \<le> Suc k"
  using put_digits_length [of n k "[]"] by (simp add: decimal_def)

lemma decimal_example: "decimal 40213 = ''40213''"
  by (simp add: decimal_def put_digits_step char_of_def bit_0)

text \<open>For every value of an \<^verbatim>\<open>int\<close>: it is not negative, and its digits read the same backwards.\<close>

lemma isPalindromeNumber_ok:
  assumes "- (2 ^ 31) \<le> x" "x < 2 ^ 31"
  shows "isPalindromeNumber x = Some (0 \<le> x \<and> decimal (nat x) = rev (decimal (nat x)))"
proof -
  define z :: char where "z = char_of (0 :: nat)"
  let ?d = "decimal (nat \<bar>x\<bar>)" and ?s = "print_int x"
  have "nat \<bar>x\<bar> < 10 ^ Suc 9" using assms by simp
  then have d: "0 < length ?d" "length ?d \<le> 10" using decimal_length [of "nat \<bar>x\<bar>" 9] by auto
  have s: "length ?s < 16" "z \<notin> set ?s"
    using d decimal_chars [of z] by (auto simp: print_int_def z_def abs_if char_of_def split: if_splits)
  let ?b = "?s @ replicate (16 - length ?s) z" and ?n = "length ?s"
  have b: "buffer16 ?s = Some ?b" using s(1) by (simp add: buffer16_def z_def)
  have "takeWhile (\<lambda>c. c \<noteq> z) (replicate m z) = []" for m by (cases m) simp_all
  moreover have "takeWhile (\<lambda>c. c \<noteq> z) (?s @ ys) = ?s @ takeWhile (\<lambda>c. c \<noteq> z) ys" for ys
    by (rule takeWhile_append2) (use s(2) in auto)
  ultimately have str: "takeWhile (\<lambda>c. c \<noteq> z) ?b = ?s" by simp
  have run: "isPalindromeNumber x =
      (if ?n = 1 then Some True else if ?b ! 0 = CHR ''-'' then Some False
       else if ?n mod 2 = 0 then even_loop ?b (int ?n) 0 else odd_loop ?b (int ?n) 0)"
    unfolding isPalindromeNumber_def b Option.bind.bind_lunit Let_def z_def [symmetric] str ..
  show ?thesis
  proof (cases "x < 0")
    case True
    then show ?thesis using d by (simp add: run print_int_def)
  next
    case False
    then have x: "?s = ?d" "nat x = nat \<bar>x\<bar>" by (simp_all add: print_int_def)
    have "?b ! 0 \<in> set ?d" using d(1) by (simp add: x nth_append)
    then have minus: "?b ! 0 \<noteq> CHR ''-''" using decimal_chars by blast
    define pal where "pal \<longleftrightarrow> ?s = rev ?s"
    have same: "?b ! j = ?s ! j" if "j < ?n" for j using that by (simp add: nth_append)
    have "(0 \<le> j \<and> 2 * j + 1 < ?n \<longrightarrow> ?b ! j = ?b ! (?n - 1 - j)) \<longleftrightarrow> (2 * j + 1 < ?n \<longrightarrow> ?s ! j = ?s ! (?n - 1 - j))" for j
      using same [of j] same [of "?n - 1 - j"] by auto
    then have loop: "(\<forall>j. 0 \<le> j \<and> 2 * j + 1 < ?n \<longrightarrow> ?b ! j = ?b ! (?n - 1 - j)) \<longleftrightarrow> pal"
      by (simp only: symmetric_iff_rev pal_def)
    have "isPalindromeNumber x = Some pal"
    proof (cases "?n = 1")
      case True
      then have pal unfolding pal_def by (cases ?s; cases "tl ?s") simp_all
      then show ?thesis unfolding run using True by simp
    next
      case more: False
      have len: "?n \<le> length ?b" "2 * 0 \<le> ?n" "2 * 0 < ?n" using d(1) unfolding x(1) by simp_all
      show ?thesis
      proof (cases "?n mod 2 = 0")
        case True
        then show ?thesis
          unfolding run if_not_P [OF more] if_not_P [OF minus] if_P [OF True]
          using even_loop_ok [OF len(1,2) True, unfolded loop] by simp
      next
        case False
        then have odd: "?n mod 2 = 1" by simp
        show ?thesis
          unfolding run if_not_P [OF more] if_not_P [OF minus] if_not_P [OF False]
          using odd_loop_ok [OF len(1,3) odd, unfolded loop] by simp
      qed
    qed
    then show ?thesis using False x(1) unfolding pal_def x(2) by simp
  qed
qed

end
