(* ===== verification/BookRcu.thy ===== *)
theory BookRcu
  imports HackPrelude
begin

text \<open>
  The library of books of \<^verbatim>\<open>ksync-rcu/list_rcu.c\<close>: a list protected by RCU for its readers and by
  a spin lock for its writers.

  Each function is cut into the atomic pieces between which other threads can run: one piece per
  critical section of \<^verbatim>\<open>books_lock\<close>, and, on the read side, entering the section with the read of the
  list head, each node of the traversal, the use of the node found, and leaving the section.  A node
  is an address in \<^term>\<open>mem\<close>.  The list is the sequence of the addresses on it; a node taken off it
  by \<^verbatim>\<open>list_del_rcu\<close> or \<^verbatim>\<open>list_replace_rcu\<close> keeps its \<^verbatim>\<open>next\<close> pointer, which is what \<^term>\<open>stale\<close> holds, so
  a traversal standing on it goes on from there.  An access to a freed node, a second free, and
  \<^verbatim>\<open>list_replace_rcu\<close> of a node that is no longer on the list (its \<^verbatim>\<open>prev\<close> pointer is poisoned then)
  are \<^term>\<open>None\<close>.

  A grace period is what the kernel documents: \<^verbatim>\<open>synchronize_rcu\<close> returns, and a \<^verbatim>\<open>call_rcu\<close> callback
  runs, when every thread that was inside a read-side section at the call has left it.  Log output
  is not modelled; an address is never reused.
\<close>

section \<open>State\<close>

record book =
  bid :: int
  bname :: string
  bauthor :: string
  borrow :: int

text \<open>
  The traversals: of \<^verbatim>\<open>print_book\<close>, of \<^verbatim>\<open>is_borrowed_book\<close>, and of \<^verbatim>\<open>borrow_book\<close> (new value 1) and
  \<^verbatim>\<open>return_book\<close> (new value 0) with their \<^verbatim>\<open>async\<close> argument.
\<close>

datatype kind = KPrint | KAsk | KUpdate int bool

text \<open>
  Where a thread is: outside the functions; in a traversal with the node it stands on; in
  \<^verbatim>\<open>borrow_book\<close> or \<^verbatim>\<open>return_book\<close> with the node found, with its copy, with the copy on the list;
  behind the read-side section with an unlinked node; waiting in \<^verbatim>\<open>synchronize_rcu\<close>; in \<^verbatim>\<open>print_book\<close>
  or \<^verbatim>\<open>is_borrowed_book\<close> with the node found; and in \<^verbatim>\<open>is_borrowed_book\<close> behind the section.
\<close>

datatype tstate =
    Idle
  | Walk kind int "nat option"
  | Found int nat bool
  | Copied nat nat bool
  | Replaced nat bool
  | Unlinked nat bool
  | Waiting nat "nat list"
  | Printing nat
  | Asking nat
  | Asked nat

record lib =
  books :: "nat list"
  stale :: "nat \<rightharpoonup> nat"
  mem :: "nat \<rightharpoonup> book"
  nxt :: nat
  thr :: "nat \<Rightarrow> tstate"
  callbacks :: "(nat \<times> nat list) list"
  nthreads :: nat

fun in_section :: "tstate \<Rightarrow> bool" where
  "in_section (Walk _ _ _) = True"
| "in_section (Found _ _ _) = True"
| "in_section (Copied _ _ _) = True"
| "in_section (Replaced _ _) = True"
| "in_section (Printing _) = True"
| "in_section (Asking _) = True"
| "in_section _ = False"

definition readers :: "lib \<Rightarrow> nat list" where
  "readers s = filter (\<lambda>t. in_section (thr s t)) [0..<nthreads s]"

section \<open>Pieces of the functions\<close>

definition set_thr :: "nat \<Rightarrow> tstate \<Rightarrow> lib \<Rightarrow> lib" where
  "set_thr t x s = s\<lparr>thr := (thr s)(t := x)\<rparr>"

text \<open>Leaving a read-side section: no grace period waits for the thread any longer.\<close>

fun unwait :: "nat \<Rightarrow> tstate \<Rightarrow> tstate" where
  "unwait t (Waiting b ws) = Waiting b (filter (\<lambda>w. w \<noteq> t) ws)"
| "unwait t x = x"

definition rcu_read_unlock :: "nat \<Rightarrow> lib \<Rightarrow> lib" where
  "rcu_read_unlock t s =
     s\<lparr>thr := (\<lambda>u. unwait t (thr s u)), callbacks := map (\<lambda>(b, ws). (b, filter (\<lambda>w. w \<noteq> t) ws)) (callbacks s)\<rparr>"

text \<open>The \<^verbatim>\<open>next\<close> pointer of a node; the list head is \<^term>\<open>None\<close>.\<close>

fun succ :: "nat list \<Rightarrow> nat \<Rightarrow> nat option" where
  "succ (x # y # zs) a = (if x = a then Some y else succ (y # zs) a)"
| "succ _ a = None"

definition next_of :: "lib \<Rightarrow> nat \<Rightarrow> nat option" where
  "next_of s a = (if a \<in> set (books s) then succ (books s) a else stale s a)"

definition kfree :: "nat \<Rightarrow> lib \<Rightarrow> lib option" where
  "kfree a s = (if mem s a = None then None else Some (s\<lparr>mem := (mem s)(a := None)\<rparr>))"

text \<open>\<^verbatim>\<open>add_book\<close>; the first argument tells whether \<^verbatim>\<open>kzalloc\<close> succeeds.\<close>

definition add_book :: "bool \<Rightarrow> int \<Rightarrow> string \<Rightarrow> string \<Rightarrow> lib \<Rightarrow> lib" where
  "add_book ok i name author s =
     (if \<not> ok then s
      else s\<lparr>mem := (mem s)(nxt s \<mapsto> \<lparr>bid = i, bname = take 64 name, bauthor = take 64 author, borrow = 0\<rparr>),
             books := nxt s # books s, nxt := nxt s + 1\<rparr>)"

text \<open>\<^verbatim>\<open>rcu_read_lock\<close> and the first \<^verbatim>\<open>next\<close> of a traversal.\<close>

definition walk_begin :: "kind \<Rightarrow> int \<Rightarrow> nat \<Rightarrow> lib \<Rightarrow> lib" where
  "walk_begin k i t s = set_thr t (Walk k i (case books s of [] \<Rightarrow> None | a # _ \<Rightarrow> Some a)) s"

text \<open>
  One round of a traversal: at the list head the function ends (\<^verbatim>\<open>not exist book\<close>, or -1); a node
  with another id leads to its successor; \<^verbatim>\<open>borrow_book\<close> and \<^verbatim>\<open>return_book\<close> end at a book that is already
  in the wanted state.
\<close>

definition walk_next :: "kind \<Rightarrow> int \<Rightarrow> nat option \<Rightarrow> nat \<Rightarrow> lib \<Rightarrow> lib option" where
  "walk_next k i c t s =
     (case c of
        None \<Rightarrow> Some (rcu_read_unlock t (set_thr t Idle s))
      | Some a \<Rightarrow>
          do {
            b \<leftarrow> mem s a;
            if bid b \<noteq> i then Some (set_thr t (Walk k i (next_of s a)) s)
            else Some (case k of
                KPrint \<Rightarrow> set_thr t (Printing a) s
              | KAsk \<Rightarrow> set_thr t (Asking a) s
              | KUpdate v async \<Rightarrow>
                  if (if v = 1 then borrow b \<noteq> 0 else borrow b = 0) then rcu_read_unlock t (set_thr t Idle s)
                  else set_thr t (Found v a async) s)
          })"

text \<open>The rest of \<^verbatim>\<open>borrow_book\<close> and \<^verbatim>\<open>return_book\<close>: the copy, its place on the list, the end of the section.\<close>

definition update_copy :: "bool \<Rightarrow> int \<Rightarrow> nat \<Rightarrow> bool \<Rightarrow> nat \<Rightarrow> lib \<Rightarrow> lib option" where
  "update_copy ok v old async t s =
     (if \<not> ok then Some (rcu_read_unlock t (set_thr t Idle s))
      else do {
        b \<leftarrow> mem s old;
        Some (set_thr t (Copied old (nxt s) async)
          (s\<lparr>mem := (mem s)(nxt s \<mapsto> b\<lparr>borrow := v\<rparr>), nxt := nxt s + 1\<rparr>))
      })"

definition update_replace :: "nat \<Rightarrow> nat \<Rightarrow> bool \<Rightarrow> nat \<Rightarrow> lib \<Rightarrow> lib option" where
  "update_replace old new async t s =
     (if old \<notin> set (books s) then None
      else Some (set_thr t (Replaced old async)
        (s\<lparr>books := map (\<lambda>a. if a = old then new else a) (books s), stale := (stale s)(old := succ (books s) old)\<rparr>)))"

definition update_unlock :: "nat \<Rightarrow> bool \<Rightarrow> nat \<Rightarrow> lib \<Rightarrow> lib" where
  "update_unlock old async t s = rcu_read_unlock t (set_thr t (Unlinked old async) s)"

text \<open>\<^verbatim>\<open>call_rcu\<close>, or the start of \<^verbatim>\<open>synchronize_rcu\<close>.\<close>

definition reclaim :: "nat \<Rightarrow> bool \<Rightarrow> nat \<Rightarrow> lib \<Rightarrow> lib" where
  "reclaim old async t s =
     (if async then set_thr t Idle (s\<lparr>callbacks := callbacks s @ [(old, readers s)]\<rparr>)
      else set_thr t (Waiting old (readers s)) s)"

definition synchronize_done :: "nat \<Rightarrow> nat \<Rightarrow> lib \<Rightarrow> lib option" where
  "synchronize_done old t s = do { s \<leftarrow> kfree old s; Some (set_thr t Idle s) }"

definition book_reclaim_callback :: "nat \<Rightarrow> lib \<Rightarrow> lib option" where
  "book_reclaim_callback k s =
     kfree (fst (callbacks s ! k)) (s\<lparr>callbacks := take k (callbacks s) @ drop (Suc k) (callbacks s)\<rparr>)"

text \<open>\<^verbatim>\<open>delete_book\<close> walks the list under the lock, where it cannot change.\<close>

fun find_book :: "int \<Rightarrow> (nat \<rightharpoonup> book) \<Rightarrow> nat list \<Rightarrow> nat option option" where
  "find_book i m [] = Some None"
| "find_book i m (a # as) =
     do {
       b \<leftarrow> m a;
       if bid b = i then Some (Some a) else find_book i m as
     }"

definition delete_book :: "int \<Rightarrow> bool \<Rightarrow> nat \<Rightarrow> lib \<Rightarrow> lib option" where
  "delete_book i async t s =
     do {
       r \<leftarrow> find_book i (mem s) (books s);
       case r of
         None \<Rightarrow> Some s
       | Some a \<Rightarrow>
           Some (set_thr t (Unlinked a async)
             (s\<lparr>books := filter (\<lambda>x. x \<noteq> a) (books s), stale := (stale s)(a := succ (books s) a)\<rparr>))
     }"

text \<open>What the readers do with the node they found.\<close>

definition print_book :: "nat \<Rightarrow> nat \<Rightarrow> lib \<Rightarrow> (book \<times> lib) option" where
  "print_book a t s = do { b \<leftarrow> mem s a; Some (b, rcu_read_unlock t (set_thr t Idle s)) }"

definition ask_unlock :: "nat \<Rightarrow> nat \<Rightarrow> lib \<Rightarrow> lib" where
  "ask_unlock a t s = rcu_read_unlock t (set_thr t (Asked a) s)"

definition ask_borrow :: "nat \<Rightarrow> nat \<Rightarrow> lib \<Rightarrow> (int \<times> lib) option" where
  "ask_borrow a t s = do { b \<leftarrow> mem s a; Some (borrow b, set_thr t Idle s) }"

section \<open>Steps\<close>

datatype act =
    Add bool int string string
  | Begin kind int
  | Next
  | Copy bool
  | Replace
  | Unlock
  | Reclaim
  | Sync
  | Callback nat
  | Delete int bool
  | PrintUse
  | AskUnlock
  | AskUse

text \<open>Whether a thread can take an action where it is.\<close>

definition enabled :: "nat \<Rightarrow> act \<Rightarrow> lib \<Rightarrow> bool" where
  "enabled t x s \<longleftrightarrow> t < nthreads s \<and>
     (case x of
        Add _ _ _ _ \<Rightarrow> thr s t = Idle
      | Begin _ _ \<Rightarrow> thr s t = Idle
      | Delete _ _ \<Rightarrow> thr s t = Idle
      | Next \<Rightarrow> (case thr s t of Walk _ _ _ \<Rightarrow> True | _ \<Rightarrow> False)
      | Copy _ \<Rightarrow> (case thr s t of Found _ _ _ \<Rightarrow> True | _ \<Rightarrow> False)
      | Replace \<Rightarrow> (case thr s t of Copied _ _ _ \<Rightarrow> True | _ \<Rightarrow> False)
      | Unlock \<Rightarrow> (case thr s t of Replaced _ _ \<Rightarrow> True | _ \<Rightarrow> False)
      | Reclaim \<Rightarrow> (case thr s t of Unlinked _ _ \<Rightarrow> True | _ \<Rightarrow> False)
      | Sync \<Rightarrow> (case thr s t of Waiting _ ws \<Rightarrow> ws = [] | _ \<Rightarrow> False)
      | PrintUse \<Rightarrow> (case thr s t of Printing _ \<Rightarrow> True | _ \<Rightarrow> False)
      | AskUnlock \<Rightarrow> (case thr s t of Asking _ \<Rightarrow> True | _ \<Rightarrow> False)
      | AskUse \<Rightarrow> (case thr s t of Asked _ \<Rightarrow> True | _ \<Rightarrow> False)
      | Callback k \<Rightarrow> k < length (callbacks s) \<and> snd (callbacks s ! k) = [])"

fun exec :: "nat \<Rightarrow> act \<Rightarrow> lib \<Rightarrow> lib option" where
  "exec t (Add ok i name author) s = Some (add_book ok i name author s)"
| "exec t (Begin k i) s = Some (walk_begin k i t s)"
| "exec t Next s = (case thr s t of Walk k i c \<Rightarrow> walk_next k i c t s | _ \<Rightarrow> None)"
| "exec t (Copy ok) s = (case thr s t of Found v old async \<Rightarrow> update_copy ok v old async t s | _ \<Rightarrow> None)"
| "exec t Replace s = (case thr s t of Copied old new async \<Rightarrow> update_replace old new async t s | _ \<Rightarrow> None)"
| "exec t Unlock s = (case thr s t of Replaced old async \<Rightarrow> Some (update_unlock old async t s) | _ \<Rightarrow> None)"
| "exec t Reclaim s = (case thr s t of Unlinked old async \<Rightarrow> Some (reclaim old async t s) | _ \<Rightarrow> None)"
| "exec t Sync s = (case thr s t of Waiting old ws \<Rightarrow> synchronize_done old t s | _ \<Rightarrow> None)"
| "exec t (Callback k) s = book_reclaim_callback k s"
| "exec t (Delete i async) s = delete_book i async t s"
| "exec t PrintUse s = (case thr s t of Printing a \<Rightarrow> map_option snd (print_book a t s) | _ \<Rightarrow> None)"
| "exec t AskUnlock s = (case thr s t of Asking a \<Rightarrow> Some (ask_unlock a t s) | _ \<Rightarrow> None)"
| "exec t AskUse s = (case thr s t of Asked a \<Rightarrow> map_option snd (ask_borrow a t s) | _ \<Rightarrow> None)"

definition lib_init :: "nat \<Rightarrow> lib" where
  "lib_init n = \<lparr>books = [], stale = Map.empty, mem = Map.empty, nxt = 0, thr = (\<lambda>_. Idle), callbacks = [], nthreads = n\<rparr>"

inductive reach :: "(nat \<Rightarrow> act \<Rightarrow> bool) \<Rightarrow> nat \<Rightarrow> lib \<Rightarrow> bool" for may n where
  start: "reach may n (lib_init n)"
| step: "\<lbrakk>reach may n s; may t x; enabled t x s; exec t x s = Some s'\<rbrakk> \<Longrightarrow> reach may n s'"

text \<open>Runs: a schedule of actions ends, reaches an action that is not possible, or faults.\<close>

datatype outcome = Done lib | Blocked | Fault

fun run :: "(nat \<times> act) list \<Rightarrow> lib \<Rightarrow> outcome" where
  "run [] s = Done s"
| "run ((t, x) # xs) s =
     (if \<not> enabled t x s then Blocked else case exec t x s of None \<Rightarrow> Fault | Some s' \<Rightarrow> run xs s')"

lemma run_reach:
  "\<lbrakk>run xs s = Done s'; reach may n s; \<forall>(t, x)\<in>set xs. may t x\<rbrakk> \<Longrightarrow> reach may n s'"
  by (induction xs s rule: run.induct) (auto split: if_splits option.splits intro: reach.step)

section \<open>The calls of the module\<close>

text \<open>A call of a function runs its thread, without others in between, until it is outside again.\<close>

fun next_act :: "tstate \<Rightarrow> act option" where
  "next_act Idle = None"
| "next_act (Walk _ _ _) = Some Next"
| "next_act (Found _ _ _) = Some (Copy True)"
| "next_act (Copied _ _ _) = Some Replace"
| "next_act (Replaced _ _) = Some Unlock"
| "next_act (Unlinked _ _) = Some Reclaim"
| "next_act (Waiting _ _) = Some Sync"
| "next_act (Printing _) = Some PrintUse"
| "next_act (Asking _) = Some AskUnlock"
| "next_act (Asked _) = Some AskUse"

fun finish :: "nat \<Rightarrow> nat \<Rightarrow> lib \<Rightarrow> outcome" where
  "finish 0 t s = Blocked"
| "finish (Suc n) t s =
     (case next_act (thr s t) of
        None \<Rightarrow> Done s
      | Some x \<Rightarrow> if \<not> enabled t x s then Blocked
                  else case exec t x s of None \<Rightarrow> Fault | Some s' \<Rightarrow> finish n t s')"

text \<open>Eight actions and one for each node are enough for a call.\<close>

definition call :: "act \<Rightarrow> lib \<Rightarrow> outcome" where
  "call x s = (case run [(0, x)] s of Done s' \<Rightarrow> finish (length (books s) + 8) 0 s' | r \<Rightarrow> r)"

definition borrow_book :: "int \<Rightarrow> bool \<Rightarrow> lib \<Rightarrow> outcome" where
  "borrow_book i async = call (Begin (KUpdate 1 async) i)"

definition is_borrowed_book :: "int \<Rightarrow> lib \<Rightarrow> outcome" where
  "is_borrowed_book i = call (Begin KAsk i)"

definition return_book :: "int \<Rightarrow> bool \<Rightarrow> lib \<Rightarrow> outcome" where
  "return_book i async = call (Begin (KUpdate 0 async) i)"

fun calls :: "(lib \<Rightarrow> outcome) list \<Rightarrow> lib \<Rightarrow> outcome" where
  "calls [] s = Done s"
| "calls (c # cs) s = (case c s of Done s' \<Rightarrow> calls cs s' | r \<Rightarrow> r)"

definition test_example :: "bool \<Rightarrow> lib \<Rightarrow> outcome" where
  "test_example async = calls
     [call (Add True 0 ''book1'' ''jb''), call (Add True 1 ''book2'' ''jb''),
      call (Begin KPrint 0), call (Begin KPrint 1), is_borrowed_book 0, is_borrowed_book 1,
      borrow_book 0 async, borrow_book 1 async, call (Begin KPrint 0), call (Begin KPrint 1),
      return_book 0 async, return_book 1 async, call (Begin KPrint 0), call (Begin KPrint 1),
      call (Delete 0 async), call (Delete 1 async), call (Begin KPrint 0), call (Begin KPrint 1)]"

definition list_rcu_init :: "lib \<Rightarrow> outcome" where
  "list_rcu_init = calls [test_example False, test_example True]"

section \<open>One writer and any number of readers\<close>

text \<open>
  Thread 0 may call every function; the other threads only \<^verbatim>\<open>print_book\<close>.  Callbacks run at any time.
\<close>

definition one_writer :: "nat \<Rightarrow> act \<Rightarrow> bool" where
  "one_writer t x \<longleftrightarrow>
     t = 0 \<or> (case x of Begin KPrint _ \<Rightarrow> True | Next \<Rightarrow> True | PrintUse \<Rightarrow> True | Callback _ \<Rightarrow> True | _ \<Rightarrow> False)"

text \<open>The node a thread keeps allocated although it is not on the list, and the one it is about to read.\<close>

fun held :: "tstate \<Rightarrow> nat list" where
  "held (Copied old new _) = [new]"
| "held (Replaced old _) = [old]"
| "held (Unlinked old _) = [old]"
| "held (Waiting old _) = [old]"
| "held _ = []"

fun cursor :: "tstate \<Rightarrow> nat option" where
  "cursor (Walk _ _ c) = c"
| "cursor (Found _ old _) = Some old"
| "cursor (Copied old _ _) = Some old"
| "cursor (Printing a) = Some a"
| "cursor (Asking a) = Some a"
| "cursor (Asked a) = Some a"
| "cursor _ = None"

text \<open>The node taken off the list whose grace period has not begun, and the readers a running one waits for.\<close>

fun limbo :: "tstate \<Rightarrow> nat option" where
  "limbo (Replaced old _) = Some old"
| "limbo (Unlinked old _) = Some old"
| "limbo _ = None"

fun pending :: "tstate \<Rightarrow> (nat \<times> nat list) list" where
  "pending (Waiting old ws) = [(old, ws)]"
| "pending _ = []"

definition waits :: "lib \<Rightarrow> (nat \<times> nat list) list" where
  "waits s = pending (thr s 0) @ callbacks s"

text \<open>Why a reader may still use a node: it is on the list, or its reclamation waits for the reader.\<close>

definition protected :: "lib \<Rightarrow> nat \<Rightarrow> nat \<Rightarrow> bool" where
  "protected s t b \<longleftrightarrow> b \<in> set (books s) \<or> limbo (thr s 0) = Some b \<or> (\<exists>ws. (b, ws) \<in> set (waits s) \<and> t \<in> set ws)"

definition owned :: "lib \<Rightarrow> nat list" where
  "owned s = books s @ held (thr s 0) @ map fst (callbacks s)"

definition heap_inv :: "lib \<Rightarrow> bool" where
  "heap_inv s \<longleftrightarrow> distinct (owned s) \<and> (\<forall>a. mem s a \<noteq> None \<longleftrightarrow> a \<in> set (owned s)) \<and> (\<forall>a\<in>set (owned s). a < nxt s)"

definition writer_inv :: "lib \<Rightarrow> bool" where
  "writer_inv s \<longleftrightarrow> (\<forall>a. cursor (thr s 0) = Some a \<longrightarrow> a \<in> set (books s))
   \<and> (\<forall>a b. limbo (thr s 0) = Some a \<longrightarrow> next_of s a = Some b \<longrightarrow> b \<in> set (books s))"

fun reading :: "tstate \<Rightarrow> bool" where
  "reading (Walk k _ _) = (k = KPrint)"
| "reading (Printing _) = True"
| "reading _ = False"

definition closed :: "lib \<Rightarrow> nat \<Rightarrow> bool" where
  "closed s t \<longleftrightarrow> (\<forall>a b. protected s t a \<longrightarrow> next_of s a = Some b \<longrightarrow> protected s t b)"

definition reader_inv :: "lib \<Rightarrow> nat \<Rightarrow> bool" where
  "reader_inv s t \<longleftrightarrow>
     (if thr s t = Idle then \<forall>(b, ws)\<in>set (waits s). t \<notin> set ws
      else reading (thr s t) \<and> t < nthreads s \<and> closed s t \<and> (\<forall>b. cursor (thr s t) = Some b \<longrightarrow> protected s t b))"

definition lib_inv :: "lib \<Rightarrow> bool" where
  "lib_inv s \<longleftrightarrow> heap_inv s \<and> writer_inv s \<and> (\<forall>t. t \<noteq> 0 \<longrightarrow> reader_inv s t)"

lemma lib_inv_init: "lib_inv (lib_init n)"
  by (simp add: lib_inv_def lib_init_def owned_def heap_inv_def writer_inv_def reader_inv_def waits_def)

lemma protected_owned: "protected s t b \<Longrightarrow> b \<in> set (owned s)"
  by (cases "thr s 0") (force simp: protected_def owned_def waits_def)+

lemma heap_inv_mem: "\<lbrakk>heap_inv s; a \<in> set (owned s)\<rbrakk> \<Longrightarrow> \<exists>b. mem s a = Some b"
  by (auto simp: heap_inv_def)

lemma find_book_ok:
  "\<forall>a\<in>set as. \<exists>b. m a = Some b \<Longrightarrow> \<exists>r. find_book i m as = Some r \<and> (\<forall>a. r = Some a \<longrightarrow> a \<in> set as)"
  by (induction as) auto

lemma cursor_owned:
  assumes "lib_inv s" "cursor (thr s t) = Some a"
  shows "a \<in> set (owned s)"
proof (cases "t = 0")
  case True
  then show ?thesis using assms by (simp add: lib_inv_def writer_inv_def owned_def)
next
  case False
  moreover have "thr s t \<noteq> Idle" using assms(2) by auto
  ultimately have "protected s t a"
    using assms by (simp add: lib_inv_def reader_inv_def)
  then show ?thesis by (rule protected_owned)
qed

section \<open>No action faults\<close>

lemma act_safe:
  assumes "lib_inv s" "one_writer t x" "enabled t x s"
  shows "\<exists>s'. exec t x s = Some s'"
proof -
  have h: "heap_inv s" and w: "writer_inv s" using assms(1) by (simp_all add: lib_inv_def)
  have own: "\<exists>b. mem s a = Some b" if "a \<in> set (owned s)" for a
    using heap_inv_mem [OF h that] .
  have cur: "\<exists>b. mem s a = Some b" if "cursor (thr s t) = Some a" for a
    using own cursor_owned [OF assms(1) that] .
  show ?thesis
  proof (cases x)
    case Next
    then obtain k i c where c: "thr s t = Walk k i c"
      using assms(3) by (auto simp: enabled_def split: tstate.splits)
    then show ?thesis
      using Next cur by (cases c) (auto simp: walk_next_def split: kind.splits)
  next
    case (Copy ok)
    then obtain v old async where c: "thr s t = Found v old async"
      using assms(3) by (auto simp: enabled_def split: tstate.splits)
    then show ?thesis
      using Copy cur [of old] by (auto simp: update_copy_def)
  next
    case Replace
    then have t: "t = 0" using assms(2) by (simp add: one_writer_def)
    obtain old new async where c: "thr s t = Copied old new async"
      using Replace assms(3) by (auto simp: enabled_def split: tstate.splits)
    then have "old \<in> set (books s)" using w t by (simp add: writer_inv_def)
    then show ?thesis using Replace c by (simp add: update_replace_def)
  next
    case Sync
    then have t: "t = 0" using assms(2) by (simp add: one_writer_def)
    obtain old ws where c: "thr s t = Waiting old ws"
      using Sync assms(3) by (auto simp: enabled_def split: tstate.splits)
    then have "\<exists>b. mem s old = Some b" using t own [of old] by (simp add: owned_def)
    then show ?thesis using Sync c by (auto simp: synchronize_done_def kfree_def)
  next
    case (Callback k)
    then have "fst (callbacks s ! k) \<in> set (owned s)"
      using assms(3) by (simp add: enabled_def owned_def)
    then show ?thesis
      using Callback own by (auto simp: book_reclaim_callback_def kfree_def)
  next
    case (Delete i async)
    have "\<exists>r. find_book i (mem s) (books s) = Some r \<and> (\<forall>a. r = Some a \<longrightarrow> a \<in> set (books s))"
      using own by (intro find_book_ok) (simp add: owned_def)
    then show ?thesis
      using Delete by (auto simp: delete_book_def split: option.splits)
  next
    case PrintUse
    then obtain a where "thr s t = Printing a"
      using assms(3) by (auto simp: enabled_def split: tstate.splits)
    then show ?thesis
      using PrintUse cur [of a] by (auto simp: print_book_def)
  next
    case AskUse
    then obtain a where "thr s t = Asked a"
      using assms(3) by (auto simp: enabled_def split: tstate.splits)
    then show ?thesis
      using AskUse cur [of a] by (auto simp: ask_borrow_def)
  qed (use assms(3) in \<open>auto simp: enabled_def split: tstate.splits\<close>)
qed

section \<open>Frames of the pieces\<close>

lemma set_thr_simps [simp]:
  "books (set_thr t x s) = books s" "stale (set_thr t x s) = stale s" "mem (set_thr t x s) = mem s"
  "nxt (set_thr t x s) = nxt s" "callbacks (set_thr t x s) = callbacks s" "nthreads (set_thr t x s) = nthreads s"
  "thr (set_thr t x s) u = (if u = t then x else thr s u)" "next_of (set_thr t x s) = next_of s"
  by (simp_all add: set_thr_def next_of_def fun_eq_iff)

lemma rcu_read_unlock_simps [simp]:
  "books (rcu_read_unlock t s) = books s" "stale (rcu_read_unlock t s) = stale s" "mem (rcu_read_unlock t s) = mem s"
  "nxt (rcu_read_unlock t s) = nxt s" "nthreads (rcu_read_unlock t s) = nthreads s"
  "thr (rcu_read_unlock t s) u = unwait t (thr s u)" "next_of (rcu_read_unlock t s) = next_of s"
  by (simp_all add: rcu_read_unlock_def next_of_def fun_eq_iff)

lemma unwait_simps [simp]:
  "held (unwait t x) = held x" "cursor (unwait t x) = cursor x" "limbo (unwait t x) = limbo x"
  "unwait t x = Idle \<longleftrightarrow> x = Idle" "reading (unwait t x) = reading x"
  by (cases x; simp)+

lemma unwait_reading: "reading x \<Longrightarrow> unwait t x = x"
  by (cases x) auto

lemma waits_unlock: "waits (rcu_read_unlock t s) = map (\<lambda>(b, ws). (b, filter (\<lambda>w. w \<noteq> t) ws)) (waits s)"
  by (cases "thr s 0") (simp_all add: waits_def rcu_read_unlock_def)

lemma owned_set_thr [simp]: "owned (set_thr t x s) = books s @ held (if t = 0 then x else thr s 0) @ map fst (callbacks s)"
  by (simp add: owned_def)

lemma owned_unlock [simp]: "owned (rcu_read_unlock t s) = owned s"
  by (simp add: owned_def rcu_read_unlock_def comp_def case_prod_beta)

lemma protected_unlock: "u \<noteq> t \<Longrightarrow> protected (rcu_read_unlock t s) u b = protected s u b"
  by (fastforce simp: protected_def waits_unlock)

lemma protected_set_reader: "t \<noteq> 0 \<Longrightarrow> protected (set_thr t x s) u b = protected s u b"
  by (simp add: protected_def waits_def)

lemma closed_set_reader: "t \<noteq> 0 \<Longrightarrow> closed (set_thr t x s) u = closed s u"
  by (simp add: closed_def protected_set_reader)

lemma waits_set_reader: "t \<noteq> 0 \<Longrightarrow> waits (set_thr t x s) = waits s"
  by (simp add: waits_def)

lemma heap_inv_set_thr: "heap_inv s \<Longrightarrow> t \<noteq> 0 \<or> held x = held (thr s 0) \<Longrightarrow> heap_inv (set_thr t x s)"
  by (cases "t = 0") (simp_all add: heap_inv_def owned_def)

lemma heap_inv_unlock [simp]: "heap_inv (rcu_read_unlock t s) = heap_inv s"
  by (simp add: heap_inv_def)

lemma writer_inv_unlock [simp]: "writer_inv (rcu_read_unlock t s) = writer_inv s"
  by (simp add: writer_inv_def)

lemma succ_Cons: "succ (x # xs) a = (if a = x then (case xs of [] \<Rightarrow> None | y # _ \<Rightarrow> Some y) else succ xs a)"
  by (cases xs) auto

lemma succ_in: "succ xs a = Some b \<Longrightarrow> b \<in> set xs"
  by (induction xs) (auto simp: succ_Cons split: if_splits list.splits)

lemma succ_neq: "distinct xs \<Longrightarrow> succ xs a \<noteq> Some a"
  by (induction xs) (auto simp: succ_Cons split: list.splits)

lemma next_of_books: "\<lbrakk>a \<in> set (books s); next_of s a = Some b\<rbrakk> \<Longrightarrow> b \<in> set (books s)"
  by (auto simp: next_of_def dest: succ_in)

section \<open>Every action keeps the invariant\<close>

lemma lib_inv_writer:
  assumes "lib_inv s" "heap_inv s'" "writer_inv s'" "nthreads s' = nthreads s"
    and "\<And>t. t \<noteq> 0 \<Longrightarrow> thr s' t = thr s t"
    and "\<And>t b ws. \<lbrakk>t \<noteq> 0; thr s t = Idle; \<forall>(b, ws)\<in>set (waits s). t \<notin> set ws; (b, ws) \<in> set (waits s')\<rbrakk> \<Longrightarrow> t \<notin> set ws"
    and "\<And>t b. \<lbrakk>t \<noteq> 0; reading (thr s t); t < nthreads s; protected s t b\<rbrakk> \<Longrightarrow> protected s' t b"
    and "\<And>t. \<lbrakk>t \<noteq> 0; reading (thr s t); t < nthreads s; closed s t\<rbrakk> \<Longrightarrow> closed s' t"
  shows "lib_inv s'"
proof -
  have "reader_inv s' t" if t: "t \<noteq> 0" for t
  proof (cases "thr s t = Idle")
    case True
    have "\<forall>(b, ws)\<in>set (waits s). t \<notin> set ws"
      using assms(1) t True by (simp add: lib_inv_def reader_inv_def)
    then show ?thesis
      using assms(5) [OF t] assms(6) [OF t True] True by (auto simp: reader_inv_def)
  next
    case False
    then have r: "reading (thr s t)" "t < nthreads s" "closed s t" "\<forall>b. cursor (thr s t) = Some b \<longrightarrow> protected s t b"
      using assms(1) t by (simp_all add: lib_inv_def reader_inv_def)
    then show ?thesis
      using assms(4) assms(5) [OF t] assms(7) [OF t r(1,2)] assms(8) [OF t r(1,2,3)] False by (simp add: reader_inv_def)
  qed
  then show ?thesis using assms(2,3) by (simp add: lib_inv_def)
qed

text \<open>An action of the writer that changes neither the list nor what protects a node.\<close>

lemma lib_inv_quiet:
  assumes "lib_inv s" "heap_inv s'" "writer_inv s'" "nthreads s' = nthreads s"
    and "\<And>t. t \<noteq> 0 \<Longrightarrow> thr s' t = thr s t"
    and "\<And>t b ws. \<lbrakk>t \<noteq> 0; thr s t = Idle; \<forall>(b, ws)\<in>set (waits s). t \<notin> set ws; (b, ws) \<in> set (waits s')\<rbrakk> \<Longrightarrow> t \<notin> set ws"
    and "\<And>t b. \<lbrakk>t \<noteq> 0; reading (thr s t); t < nthreads s\<rbrakk> \<Longrightarrow> protected s' t b \<longleftrightarrow> protected s t b"
    and "next_of s' = next_of s"
  shows "lib_inv s'"
  using assms(1-6) by (rule lib_inv_writer) (auto simp: assms(7,8) closed_def)

lemma reader_thr_unwait: "\<lbrakk>lib_inv s; u \<noteq> 0\<rbrakk> \<Longrightarrow> unwait t (thr s u) = thr s u"
  by (cases "thr s u = Idle") (auto simp: lib_inv_def reader_inv_def unwait_reading)

lemma lib_inv_stay:
  assumes "lib_inv s" "held x = held (thr s 0)" "limbo x = limbo (thr s 0)" "pending x = pending (thr s 0)"
    and "\<And>a. cursor x = Some a \<Longrightarrow> a \<in> set (books s)"
  shows "lib_inv (set_thr 0 x s)"
proof (rule lib_inv_quiet [OF assms(1)])
  show "heap_inv (set_thr 0 x s)"
    using assms(1,2) by (simp add: lib_inv_def heap_inv_set_thr)
  show "writer_inv (set_thr 0 x s)"
    using assms(1,3,5) by (simp add: lib_inv_def writer_inv_def)
qed (auto simp: waits_def protected_def assms(3,4))

lemma lib_inv_leave:
  assumes "lib_inv s"
  shows "lib_inv (rcu_read_unlock 0 s)"
proof (rule lib_inv_quiet [OF assms])
  show "thr (rcu_read_unlock 0 s) t = thr s t" if "t \<noteq> 0" for t
    using reader_thr_unwait [OF assms that] by simp
qed (use assms in \<open>auto simp: lib_inv_def waits_unlock protected_unlock\<close>)

text \<open>Taking a node off the list, by \<^verbatim>\<open>list_replace_rcu\<close> or \<^verbatim>\<open>list_del_rcu\<close>.\<close>

lemma lib_inv_unlink:
  assumes "lib_inv s" "limbo (thr s 0) = None" "pending (thr s 0) = []" "limbo x = Some old" "pending x = []" "cursor x = None"
    and "old \<in> set (books s)" "set (books s) \<subseteq> insert old (set bs)" "old \<notin> set bs"
    and s': "s' = set_thr 0 x (s\<lparr>books := bs, stale := (stale s)(old := succ (books s) old)\<rparr>)"
    and "heap_inv s'"
  shows "lib_inv s'"
proof (rule lib_inv_writer [OF assms(1) \<open>heap_inv s'\<close>])
  have d: "distinct (books s)" using assms(1) by (simp add: lib_inv_def heap_inv_def owned_def)
  have nxt_old: "b \<in> set bs" if "next_of s' old = Some b" for b
    using that assms(8,9) d succ_in [of "books s" old b] succ_neq [of "books s" old] by (auto simp: s' next_of_def)
  show "writer_inv s'"
    using assms(4,6) nxt_old by (simp add: writer_inv_def s')
  have prot: "protected s' t b" if "protected s t b" for t b
    using that assms(2-5,8) by (auto simp: protected_def s' waits_def)
  then show "protected s' t b" if "protected s t b" for t b using that .
  show "closed s' t" if c: "closed s t" for t
    unfolding closed_def
  proof (intro allI impI)
    fix a b
    assume a: "protected s' t a" and n: "next_of s' a = Some b"
    consider "a \<in> set bs" | "a = old" | "a \<notin> set bs" "a \<noteq> old" by blast
    then show "protected s' t b"
    proof cases
      case 1
      then show ?thesis using n succ_in [of bs a b] by (simp add: s' next_of_def protected_def)
    next
      case 2
      then show ?thesis using n nxt_old by (simp add: protected_def s')
    next
      case 3
      then have "a \<notin> set (books s)" using assms(8) by blast
      then have "next_of s a = Some b" using n 3 by (simp add: s' next_of_def)
      moreover have "protected s t a"
        using a 3 assms(2-5) by (simp add: protected_def s' waits_def)
      ultimately show ?thesis using c prot by (simp add: closed_def)
    qed
  qed
qed (auto simp: s' waits_def assms(3,5))

text \<open>The actions of the writer.\<close>

lemma inv_add:
  assumes "lib_inv s" "thr s 0 = Idle"
  shows "lib_inv (add_book ok i name author s)"
proof (cases ok)
  case True
  let ?s' = "add_book ok i name author s"
  have h: "heap_inv s" using assms(1) by (simp add: lib_inv_def)
  then have new: "nxt s \<notin> set (owned s)" by (auto simp: heap_inv_def)
  then have nb: "nxt s \<notin> set (books s)" by (simp add: owned_def)
  have own: "owned ?s' = nxt s # owned s" using True by (simp add: add_book_def owned_def)
  have sel: "books ?s' = nxt s # books s" "stale ?s' = stale s" "thr ?s' = thr s" "waits ?s' = waits s" "nthreads ?s' = nthreads s"
    using True by (simp_all add: add_book_def waits_def)
  have nof: "next_of ?s' a = (if a = nxt s then (case books s of [] \<Rightarrow> None | y # _ \<Rightarrow> Some y) else next_of s a)" for a
    using nb by (auto simp: next_of_def sel succ_Cons)
  have prot: "protected ?s' t b \<longleftrightarrow> b = nxt s \<or> protected s t b" for t b
    by (auto simp: protected_def sel)
  show ?thesis
  proof (rule lib_inv_writer [OF assms(1)])
    show "heap_inv ?s'"
      using h new True unfolding heap_inv_def own by (auto simp: add_book_def)
    show "writer_inv ?s'" using assms(2) by (simp add: writer_inv_def sel)
    show "closed ?s' t" if "closed s t" for t
      using that unfolding closed_def prot nof by (auto simp: protected_def split: if_splits list.splits)
  qed (auto simp: sel prot)
qed (use assms(1) in \<open>simp add: add_book_def\<close>)

lemma inv_walk_writer:
  assumes "lib_inv s" "thr s 0 = Walk k i c" "walk_next k i c 0 s = Some s'"
  shows "lib_inv s'"
proof -
  have idle: "lib_inv (rcu_read_unlock 0 (set_thr 0 Idle s))"
    by (intro lib_inv_leave lib_inv_stay) (use assms in simp_all)
  show ?thesis
  proof (cases c)
    case None
    then show ?thesis using assms(3) idle by (simp add: walk_next_def)
  next
    case (Some a)
    then have a: "a \<in> set (books s)" using assms(1,2) by (simp add: lib_inv_def writer_inv_def)
    have stay: "lib_inv (set_thr 0 x s)"
      if "held x = []" "limbo x = None" "pending x = []" "cursor x = Some a \<or> cursor x = next_of s a" for x
      using that by (intro lib_inv_stay) (use assms(1,2) a next_of_books [OF a] in auto)
    show ?thesis
      using assms(3) Some idle stay [of "Walk k i (next_of s a)"] stay [of "Printing a"] stay [of "Asking a"] stay [of "Found _ a _"]
      by (auto simp: walk_next_def split: bind_splits if_splits kind.splits)
  qed
qed

lemma inv_copy:
  assumes "lib_inv s" "thr s 0 = Found v old async" "update_copy ok v old async 0 s = Some s'"
  shows "lib_inv s'"
proof (cases ok)
  case False
  have "lib_inv (rcu_read_unlock 0 (set_thr 0 Idle s))"
    by (intro lib_inv_leave lib_inv_stay) (use assms in simp_all)
  then show ?thesis using assms(3) False by (simp add: update_copy_def)
next
  case True
  then obtain b where s': "s' = set_thr 0 (Copied old (nxt s) async) (s\<lparr>mem := (mem s)(nxt s \<mapsto> b\<lparr>borrow := v\<rparr>), nxt := nxt s + 1\<rparr>)"
    using assms(3) by (auto simp: update_copy_def split: bind_splits)
  have h: "heap_inv s" and old: "old \<in> set (books s)"
    using assms(1,2) by (simp_all add: lib_inv_def writer_inv_def)
  then have new: "nxt s \<notin> set (owned s)" by (auto simp: heap_inv_def)
  show ?thesis
  proof (rule lib_inv_quiet [OF assms(1)])
    have own: "owned s' = books s @ nxt s # map fst (callbacks s)" "owned s = books s @ map fst (callbacks s)"
      by (simp_all add: s' owned_def assms(2))
    show "heap_inv s'"
      using h new unfolding heap_inv_def own by (auto simp: s' less_Suc_eq)
    show "writer_inv s'" using old by (simp add: writer_inv_def s')
  qed (auto simp: s' waits_def protected_def assms(2) next_of_def fun_eq_iff)
qed

lemma inv_replace:
  assumes "lib_inv s" "thr s 0 = Copied old new async" "update_replace old new async 0 s = Some s'"
  shows "lib_inv s'"
proof -
  let ?bs = "map (\<lambda>a. if a = old then new else a) (books s)"
  have h: "heap_inv s" and old: "old \<in> set (books s)"
    using assms(1,2) by (simp_all add: lib_inv_def writer_inv_def)
  have s': "s' = set_thr 0 (Replaced old async) (s\<lparr>books := ?bs, stale := (stale s)(old := succ (books s) old)\<rparr>)"
    using assms(3) old by (simp add: update_replace_def)
  have own: "owned s = books s @ new # map fst (callbacks s)" "owned s' = ?bs @ old # map fst (callbacks s)"
    by (simp_all add: owned_def assms(2) s')
  have new: "new \<notin> set (books s)" "new \<noteq> old"
    using h old unfolding heap_inv_def own by auto
  have d: "distinct (owned s')"
    using h old new unfolding heap_inv_def own by (auto simp: distinct_map inj_on_def split: if_splits)
  have sets: "set (owned s') = set (owned s)"
    unfolding own using old by auto
  show ?thesis
  proof (rule lib_inv_unlink [OF assms(1) _ _ _ _ _ old _ _ s'])
    show "heap_inv s'" using h d unfolding heap_inv_def sets by (simp add: s')
  qed (use new in \<open>auto simp: assms(2)\<close>)
qed

lemma inv_delete:
  assumes "lib_inv s" "thr s 0 = Idle" "delete_book i async 0 s = Some s'"
  shows "lib_inv s'"
proof -
  have h: "heap_inv s" using assms(1) by (simp add: lib_inv_def)
  have "\<forall>a\<in>set (books s). \<exists>b. mem s a = Some b"
    using heap_inv_mem [OF h] by (simp add: owned_def)
  then obtain r where r: "find_book i (mem s) (books s) = Some r" "\<forall>a. r = Some a \<longrightarrow> a \<in> set (books s)"
    using find_book_ok [of "books s" "mem s" i] by blast
  show ?thesis
  proof (cases r)
    case None
    then show ?thesis using assms(1,3) r(1) by (simp add: delete_book_def)
  next
    case (Some a)
    let ?bs = "filter (\<lambda>x. x \<noteq> a) (books s)"
    have s': "s' = set_thr 0 (Unlinked a async) (s\<lparr>books := ?bs, stale := (stale s)(a := succ (books s) a)\<rparr>)"
      using assms(3) r(1) Some by (simp add: delete_book_def)
    have a: "a \<in> set (books s)" using r(2) Some by simp
    have own: "owned s = books s @ map fst (callbacks s)" "owned s' = ?bs @ a # map fst (callbacks s)"
      by (simp_all add: owned_def assms(2) s')
    have d: "distinct (owned s')" and sets: "set (owned s') = set (owned s)"
      using h a unfolding heap_inv_def own by auto
    show ?thesis
    proof (rule lib_inv_unlink [OF assms(1) _ _ _ _ _ a _ _ s'])
      show "heap_inv s'" using h d unfolding heap_inv_def sets by (simp add: s')
    qed (auto simp: assms(2))
  qed
qed

lemma inv_unlock:
  assumes "lib_inv s" "thr s 0 = Replaced old async"
  shows "lib_inv (update_unlock old async 0 s)"
  unfolding update_unlock_def by (intro lib_inv_leave lib_inv_stay) (use assms in simp_all)

lemma readers_iff: "t \<in> set (readers s) \<longleftrightarrow> t < nthreads s \<and> in_section (thr s t)"
  by (auto simp: readers_def)

lemma reading_in_section: "reading x \<Longrightarrow> in_section x"
  by (cases x) auto

lemma inv_reclaim:
  assumes "lib_inv s" "thr s 0 = Unlinked old async"
  shows "lib_inv (reclaim old async 0 s)"
proof (rule lib_inv_quiet [OF assms(1)])
  let ?s' = "reclaim old async 0 s"
  have h: "heap_inv s" using assms(1) by (simp add: lib_inv_def)
  have "distinct (owned ?s') \<longleftrightarrow> distinct (owned s)" and "set (owned ?s') = set (owned s)"
    by (auto simp: reclaim_def owned_def assms(2))
  then show "heap_inv ?s'" using h unfolding heap_inv_def by (simp add: reclaim_def)
  show "writer_inv ?s'" by (simp add: writer_inv_def reclaim_def)
  show "protected ?s' t b \<longleftrightarrow> protected s t b" if "t \<noteq> 0" "reading (thr s t)" "t < nthreads s" for t b
    using that by (auto simp: protected_def reclaim_def waits_def assms(2) readers_iff reading_in_section)
  show "t \<notin> set ws"
    if "t \<noteq> 0" "thr s t = Idle" "\<forall>(b, ws)\<in>set (waits s). t \<notin> set ws" "(b, ws) \<in> set (waits ?s')" for t b ws
    using that by (auto simp: reclaim_def waits_def assms(2) readers_iff split: if_splits)
qed (auto simp: reclaim_def next_of_def fun_eq_iff)

lemma inv_sync:
  assumes "lib_inv s" "thr s 0 = Waiting old []" "synchronize_done old 0 s = Some s'"
  shows "lib_inv s'"
proof (rule lib_inv_quiet [OF assms(1)])
  have s': "s' = set_thr 0 Idle (s\<lparr>mem := (mem s)(old := None)\<rparr>)"
    using assms(3) by (auto simp: synchronize_done_def kfree_def split: if_splits)
  have own: "owned s = books s @ old # map fst (callbacks s)" "owned s' = books s @ map fst (callbacks s)"
    by (simp_all add: s' owned_def assms(2))
  have h: "heap_inv s" using assms(1) by (simp add: lib_inv_def)
  then show "heap_inv s'" unfolding heap_inv_def own by (auto simp: s')
  show "writer_inv s'" by (simp add: writer_inv_def s')
  show "protected s' t b \<longleftrightarrow> protected s t b" for t b
    by (auto simp: s' protected_def waits_def assms(2))
  show "t \<notin> set ws" if "\<forall>(b, ws)\<in>set (waits s). t \<notin> set ws" "(b, ws) \<in> set (waits s')" for t b ws
    using that by (auto simp: s' waits_def)
  show "next_of s' = next_of s" "nthreads s' = nthreads s" by (simp_all add: s' next_of_def fun_eq_iff)
  show "thr s' t = thr s t" if "t \<noteq> 0" for t using that by (simp add: s')
qed

text \<open>A callback, on whatever thread.\<close>

lemma nth_split:
  assumes "k < length xs"
  obtains us vs where "xs = us @ xs ! k # vs" "take k xs = us" "drop (Suc k) xs = vs"
  using id_take_nth_drop [OF assms] that by blast

lemma inv_callback:
  assumes "lib_inv s" "k < length (callbacks s)" "snd (callbacks s ! k) = []" "book_reclaim_callback k s = Some s'"
  shows "lib_inv s'"
proof -
  obtain old where k: "callbacks s ! k = (old, [])"
    using assms(3) by (cases "callbacks s ! k") simp
  obtain us vs where cb: "callbacks s = us @ (old, []) # vs" and uv: "take k (callbacks s) = us" "drop (Suc k) (callbacks s) = vs"
    using nth_split [OF assms(2)] unfolding k .
  have s': "s' = s\<lparr>callbacks := us @ vs, mem := (mem s)(old := None)\<rparr>"
    using assms(4) unfolding book_reclaim_callback_def kfree_def uv k by (simp split: if_splits)
  have own: "owned s = books s @ held (thr s 0) @ map fst us @ old # map fst vs"
    "owned s' = books s @ held (thr s 0) @ map fst us @ map fst vs"
    by (simp_all add: s' owned_def cb)
  have w: "set (waits s) = insert (old, []) (set (waits s'))"
    by (simp add: waits_def s' cb)
  have same: "next_of s' = next_of s" "books s' = books s" "thr s' = thr s" "nthreads s' = nthreads s"
    by (simp_all add: s' next_of_def fun_eq_iff)
  show ?thesis
  proof (rule lib_inv_quiet [OF assms(1)])
    have h: "heap_inv s" and "writer_inv s" using assms(1) by (simp_all add: lib_inv_def)
    then show "writer_inv s'" unfolding writer_inv_def same by blast
    have "distinct (owned s)" using h by (simp add: heap_inv_def)
    then have d: "distinct (owned s')" and n: "old \<notin> set (owned s')" unfolding own by auto
    have o: "set (owned s) = insert old (set (owned s'))" unfolding own by auto
    show "heap_inv s'"
      using h d n unfolding heap_inv_def o by (simp add: s')
    show "protected s' t b \<longleftrightarrow> protected s t b" for t b
      unfolding protected_def w same by auto
    show "t \<notin> set ws" if "\<forall>(b, ws)\<in>set (waits s). t \<notin> set ws" "(b, ws) \<in> set (waits s')" for t b ws
      using that unfolding w by blast
  qed (simp_all add: same)
qed

text \<open>The actions of a reader.\<close>

lemma lib_inv_reader:
  assumes "lib_inv s" "t \<noteq> 0" "reading x" "t < nthreads s" "closed s t" "\<And>b. cursor x = Some b \<Longrightarrow> protected s t b"
  shows "lib_inv (set_thr t x s)"
proof -
  have "reader_inv (set_thr t x s) u" if "u \<noteq> 0" for u
    using assms that by (auto simp: lib_inv_def reader_inv_def closed_set_reader protected_set_reader waits_set_reader)
  moreover have "writer_inv (set_thr t x s)"
    using assms(1,2) by (simp add: lib_inv_def writer_inv_def)
  ultimately show ?thesis
    using assms(1,2) heap_inv_set_thr [of s t x] by (simp add: lib_inv_def)
qed

lemma lib_inv_reader_leave:
  assumes "lib_inv s" "t \<noteq> 0"
  shows "lib_inv (rcu_read_unlock t (set_thr t Idle s))"
proof -
  let ?s' = "rcu_read_unlock t (set_thr t Idle s)"
  have w: "waits ?s' = map (\<lambda>(b, ws). (b, filter (\<lambda>w. w \<noteq> t) ws)) (waits s)"
    unfolding waits_unlock waits_set_reader [OF assms(2)] ..
  have "reader_inv ?s' u" if "u \<noteq> 0" for u
  proof (cases "u = t")
    case True
    then show ?thesis using w by (auto simp: reader_inv_def)
  next
    case False
    have p: "protected ?s' u b = protected s u b" for b
      using False assms(2) by (simp add: protected_unlock protected_set_reader)
    have "thr ?s' u = thr s u" using False reader_thr_unwait [OF assms(1) that] by simp
    moreover have "reader_inv s u" using assms(1) that by (simp add: lib_inv_def)
    ultimately show ?thesis
      unfolding reader_inv_def closed_def p w by (auto split: if_splits)
  qed
  moreover have "writer_inv (set_thr t Idle s)"
    using assms by (simp add: lib_inv_def writer_inv_def)
  ultimately show ?thesis
    using assms heap_inv_set_thr [of s t Idle] by (simp add: lib_inv_def)
qed

lemma closed_idle:
  assumes "lib_inv s" "t \<noteq> 0" "thr s t = Idle"
  shows "closed s t"
proof -
  have i: "\<forall>(b, ws)\<in>set (waits s). t \<notin> set ws" and w: "writer_inv s"
    using assms by (simp_all add: lib_inv_def reader_inv_def)
  have "protected s t a \<longleftrightarrow> a \<in> set (books s) \<or> limbo (thr s 0) = Some a" for a
    using i by (auto simp: protected_def)
  then show ?thesis
    using w next_of_books [of _ s] by (auto simp: closed_def writer_inv_def)
qed

lemma inv_begin_reader:
  assumes "lib_inv s" "t \<noteq> 0" "thr s t = Idle" "t < nthreads s"
  shows "lib_inv (walk_begin KPrint i t s)"
  unfolding walk_begin_def
  by (rule lib_inv_reader) (use assms closed_idle in \<open>auto simp: protected_def split: list.splits\<close>)

lemma reader_invD:
  assumes "lib_inv s" "t \<noteq> 0" "thr s t \<noteq> Idle"
  shows "reading (thr s t)" "t < nthreads s" "closed s t" "\<And>b. cursor (thr s t) = Some b \<Longrightarrow> protected s t b"
  using assms by (simp_all add: lib_inv_def reader_inv_def)

lemma inv_next_reader:
  assumes "lib_inv s" "t \<noteq> 0" "thr s t = Walk k i c" "walk_next k i c t s = Some s'"
  shows "lib_inv s'"
proof -
  note r = reader_invD [OF assms(1,2), unfolded assms(3), simplified]
  note leave = lib_inv_reader_leave [OF assms(1,2)]
  show ?thesis
  proof (cases c)
    case None
    then show ?thesis using assms(4) leave by (simp add: walk_next_def)
  next
    case (Some a)
    then have "lib_inv (set_thr t (Walk KPrint i (next_of s a)) s)" "lib_inv (set_thr t (Printing a) s)"
      using r by (auto intro!: lib_inv_reader [OF assms(1,2)] simp: closed_def)
    then show ?thesis
      using assms(4) Some r(1) by (auto simp: walk_next_def split: bind_splits if_splits)
  qed
qed

theorem lib_inv_step:
  assumes "lib_inv s" "one_writer t x" "enabled t x s" "exec t x s = Some s'"
  shows "lib_inv s'"
proof (cases "t = 0")
  case False
  then show ?thesis
  proof (cases x)
    case (Begin k i)
    then show ?thesis
      using assms False inv_begin_reader [OF assms(1) False] by (auto simp: one_writer_def enabled_def split: kind.splits)
  next
    case Next
    then show ?thesis
      using assms(3,4) inv_next_reader [OF assms(1) False] by (auto simp: enabled_def split: tstate.splits)
  next
    case PrintUse
    then show ?thesis
      using assms(3,4) lib_inv_reader_leave [OF assms(1) False]
      by (auto simp: enabled_def print_book_def split: tstate.splits bind_splits)
  next
    case (Callback k)
    then show ?thesis
      using assms(3,4) inv_callback [OF assms(1), of k s'] by (simp add: enabled_def)
  qed (use assms(2) False in \<open>auto simp: one_writer_def\<close>)
next
  case True
  note en = assms(3,4) [unfolded True]
  show ?thesis
  proof (cases x)
    case (Begin k i)
    then have "thr s 0 = Idle" "s' = walk_begin k i 0 s" using en by (simp_all add: enabled_def)
    then show ?thesis
      unfolding walk_begin_def by (auto intro!: lib_inv_stay [OF assms(1)] split: list.splits)
  next
    case PrintUse
    then obtain a where "thr s 0 = Printing a" "s' = rcu_read_unlock 0 (set_thr 0 Idle s)"
      using en by (auto simp: enabled_def print_book_def split: tstate.splits bind_splits)
    then show ?thesis by (auto intro!: lib_inv_leave lib_inv_stay [OF assms(1)])
  next
    case AskUnlock
    then obtain a where a: "thr s 0 = Asking a" "s' = rcu_read_unlock 0 (set_thr 0 (Asked a) s)"
      using en by (auto simp: enabled_def ask_unlock_def split: tstate.splits)
    then have "a \<in> set (books s)" using assms(1) by (simp add: lib_inv_def writer_inv_def)
    then show ?thesis using a by (auto intro!: lib_inv_leave lib_inv_stay [OF assms(1)])
  next
    case AskUse
    then obtain a where "thr s 0 = Asked a" "s' = set_thr 0 Idle s"
      using en by (auto simp: enabled_def ask_borrow_def split: tstate.splits bind_splits)
    then show ?thesis by (auto intro!: lib_inv_stay [OF assms(1)])
  next
    case (Callback k)
    then show ?thesis using en inv_callback [OF assms(1), of k s'] by (simp add: enabled_def)
  next
    case (Add ok i name author)
    then show ?thesis using en inv_add [OF assms(1)] by (auto simp: enabled_def)
  next
    case (Delete i async)
    then show ?thesis using en inv_delete [OF assms(1)] by (simp add: enabled_def)
  next
    case Next
    then show ?thesis using en inv_walk_writer [OF assms(1)] by (auto simp: enabled_def split: tstate.splits)
  next
    case (Copy ok)
    then show ?thesis using en inv_copy [OF assms(1)] by (auto simp: enabled_def split: tstate.splits)
  next
    case Replace
    then show ?thesis using en inv_replace [OF assms(1)] by (auto simp: enabled_def split: tstate.splits)
  next
    case Unlock
    then show ?thesis using en inv_unlock [OF assms(1)] by (auto simp: enabled_def split: tstate.splits)
  next
    case Reclaim
    then show ?thesis using en inv_reclaim [OF assms(1)] by (auto simp: enabled_def split: tstate.splits)
  next
    case Sync
    then show ?thesis using en inv_sync [OF assms(1)] by (auto simp: enabled_def split: tstate.splits)
  qed
qed

lemma reach_inv: "reach one_writer n s \<Longrightarrow> lib_inv s"
  by (induction rule: reach.induct) (auto intro: lib_inv_init lib_inv_step)

text \<open>
  C39: with one writer and any number of threads printing books, in every interleaving: every reachable
  state is well formed (the nodes on the list, held by the writer or awaiting their callback are
  pairwise different and are exactly the allocated ones, so nothing leaks), and no action that can be
  taken faults: no reader ever reads a freed node, however long it stays on one that was taken off the
  list, nothing is freed twice, and every grace period ends with the free of an allocated node.
\<close>

theorem rcu_safe:
  assumes "reach one_writer n s"
  shows "distinct (owned s) \<and> (\<forall>a. mem s a \<noteq> None \<longleftrightarrow> a \<in> set (owned s))
    \<and> (\<forall>t x. one_writer t x \<longrightarrow> enabled t x s \<longrightarrow> (\<exists>s'. exec t x s = Some s'))"
proof (intro conjI allI impI)
  have i: "lib_inv s" by (rule reach_inv [OF assms])
  then show "distinct (owned s)" "mem s a \<noteq> None \<longleftrightarrow> a \<in> set (owned s)" for a
    by (simp_all add: lib_inv_def heap_inv_def)
  show "\<exists>s'. exec t x s = Some s'" if "one_writer t x" "enabled t x s" for t x
    by (rule act_safe [OF i that])
qed

theorem rcu_safe_witness:
  "\<exists>s. run [(0, Add True 7 ''a'' ''b''), (1, Begin KPrint 7), (1, Next), (0, Delete 7 False), (0, Reclaim)] (lib_init 2) = Done s
     \<and> books s = [] \<and> thr s 0 = Waiting 0 [1] \<and> thr s 1 = Printing 0 \<and> (\<exists>s'. exec 1 PrintUse s = Some s')"
proof -
  let ?xs = "[(0, Add True 7 ''a'' ''b''), (1, Begin KPrint 7), (1, Next), (0, Delete 7 False), (0, Reclaim)]"
  obtain s where s: "run ?xs (lib_init 2) = Done s" "books s = []" "thr s 0 = Waiting 0 [1]" "thr s 1 = Printing 0" "nthreads s = 2"
    by (simp add: enabled_def lib_init_def add_book_def walk_begin_def walk_next_def delete_book_def reclaim_def readers_def set_thr_def upt_rec)
  have "reach one_writer 2 s"
    by (rule run_reach [OF s(1) reach.start]) (simp add: one_writer_def)
  moreover have "one_writer 1 PrintUse" "enabled 1 PrintUse s" using s by (simp_all add: one_writer_def enabled_def)
  ultimately have "\<exists>s'. exec 1 PrintUse s = Some s'" using rcu_safe [of 2 s] by blast
  then show ?thesis using s by blast
qed


section \<open>The module's own run\<close>

text \<open>
  \<^verbatim>\<open>list_rcu_init\<close> on its own thread: nothing faults, no call blocks, the list is empty at the end, and the
  nodes still allocated are those of the asynchronous half, each with its callback registered.
\<close>

lemma list_rcu_init_ok:
  "case list_rcu_init (lib_init 1) of
     Done s \<Rightarrow> books s = [] \<and> thr s 0 = Idle \<and> nxt s = 12
       \<and> map fst (callbacks s) = filter (\<lambda>a. mem s a \<noteq> None) [0..<12] \<and> list_all (\<lambda>c. snd c = []) (callbacks s)
   | _ \<Rightarrow> False"
  by code_simp

end
