(* ===== verification/KMisc.thy ===== *)
theory KMisc
  imports HackPrelude
begin

text \<open>
  The character driver of \<^verbatim>\<open>kmisc/miscdrv_rdwr.c\<close>, which keeps a secret of up to 128 bytes, and the
  program \<^verbatim>\<open>kmisc/rdwr_test_secret.c\<close> that reads and writes it.

  Memory is a list of bytes.  What the kernel decides is an argument of the operations: whether an
  allocation succeeds, and whether \<^verbatim>\<open>copy_to_user\<close> or \<^verbatim>\<open>copy_from_user\<close> fails.  An access through a null
  context and a read past the end of a buffer are \<^term>\<open>None\<close>.  The copying routines of the kernel
  (\<^verbatim>\<open>strlcpy\<close>, \<^verbatim>\<open>strscpy\<close>) are a parameter of which the operations use what is documented: the text up
  to its end or to the size is stored with a NUL behind it, and nothing past the size is changed.
  What the bytes between the NUL and the size become is left open.
\<close>

section \<open>C strings in byte arrays\<close>

definition strnlen :: "u8 list \<Rightarrow> nat \<Rightarrow> nat" where
  "strnlen xs n = length (takeWhile (\<lambda>b. b \<noteq> 0) (take n xs))"

text \<open>\<^verbatim>\<open>strlen\<close> runs past the end of an array without NUL.\<close>

definition strlen :: "u8 list \<Rightarrow> nat option" where
  "strlen xs = (if 0 \<in> set xs then Some (length (takeWhile (\<lambda>b. b \<noteq> 0) xs)) else None)"

type_synonym str_copy = "u8 list \<Rightarrow> u8 list \<Rightarrow> nat \<Rightarrow> u8 list"

text \<open>What a copy of a given size takes over.\<close>

definition str_part :: "u8 list \<Rightarrow> nat \<Rightarrow> u8 list" where
  "str_part src n = takeWhile (\<lambda>b. b \<noteq> 0) (take (n - 1) src)"

definition copy_contract :: "str_copy \<Rightarrow> bool" where
  "copy_contract cpy \<longleftrightarrow> (\<forall>dst src n. n \<le> length dst \<longrightarrow>
     length (cpy dst src n) = length dst \<and> drop n (cpy dst src n) = drop n dst
     \<and> (0 < n \<longrightarrow> take (Suc (length (str_part src n))) (cpy dst src n) = str_part src n @ [0]))"

text \<open>\<^verbatim>\<open>strlcpy\<close> first takes the length of its source.\<close>

definition strlcpy :: "str_copy \<Rightarrow> u8 list \<Rightarrow> u8 list \<Rightarrow> nat \<Rightarrow> u8 list option" where
  "strlcpy cpy dst src n = do { _ \<leftarrow> strlen src; Some (cpy dst src n) }"

text \<open>A copy byte by byte, as an instance.\<close>

definition bytewise_copy :: str_copy where
  "bytewise_copy dst src n = (if n = 0 then dst else str_part src n @ [0] @ drop (Suc (length (str_part src n))) dst)"

section \<open>The driver\<close>

definition MAXBYTES :: nat where
  "MAXBYTES = 128"

definition EINVAL :: int where
  "EINVAL = 22"

definition EFAULT :: int where
  "EFAULT = 14"

definition ENOMEM :: int where
  "ENOMEM = 12"

record drv_ctx =
  tx :: u32
  rx :: u32
  err :: u32
  myword :: u32
  config1 :: u32
  config2 :: u32
  config3 :: u64
  oursecret :: "u8 list"

text \<open>The module: its globals, its context, and whether the device is registered.\<close>

record misc =
  ga :: u32
  gb :: u32
  ctx :: "drv_ctx option"
  registered :: bool

text \<open>A \<^verbatim>\<open>size_t\<close> returned through an \<^verbatim>\<open>int\<close>.\<close>

definition int_of_size :: "nat \<Rightarrow> int" where
  "int_of_size n = sint (of_nat n :: u32)"

definition open_miscdrv_rdwr :: "bool \<Rightarrow> misc \<Rightarrow> (int \<times> misc) option" where
  "open_miscdrv_rdwr alloc m =
     do {
       _ \<leftarrow> ctx m;
       if \<not> alloc then Some (- ENOMEM, m)
       else Some (0, m\<lparr>ga := ga m + 1, gb := gb m - 1\<rparr>)
     }"

definition close_miscdrv_rdwr :: "bool \<Rightarrow> misc \<Rightarrow> (int \<times> misc) option" where
  "close_miscdrv_rdwr alloc m =
     do {
       _ \<leftarrow> ctx m;
       if \<not> alloc then Some (- ENOMEM, m)
       else Some (0, m\<lparr>ga := ga m - 1, gb := gb m + 1\<rparr>)
     }"

text \<open>The result, the bytes copied to the user, and the new state.\<close>

definition read_miscdrv_rdwr :: "nat \<Rightarrow> bool \<Rightarrow> misc \<Rightarrow> (int \<times> u8 list \<times> misc) option" where
  "read_miscdrv_rdwr count fault m =
     do {
       c \<leftarrow> ctx m;
       let secret_len = strnlen (oursecret c) MAXBYTES;
       if count < MAXBYTES then Some (- EINVAL, [], m)
       else if secret_len = 0 then Some (- EINVAL, [], m)
       else if fault then Some (- EFAULT, [], m)
       else Some (int secret_len, take secret_len (oursecret c), m\<lparr>ctx := Some (c\<lparr>tx := tx c + of_nat secret_len\<rparr>)\<rparr>)
     }"

text \<open>The user's buffer is given by its bytes; \<^verbatim>\<open>count\<close> is their number.\<close>

definition write_miscdrv_rdwr :: "str_copy \<Rightarrow> u8 list \<Rightarrow> bool \<Rightarrow> bool \<Rightarrow> misc \<Rightarrow> (int \<times> misc) option" where
  "write_miscdrv_rdwr cpy ubuf alloc fault m =
     do {
       c \<leftarrow> ctx m;
       let count = length ubuf;
       if count > MAXBYTES then Some (int_of_size count, m)
       else if \<not> alloc then Some (- ENOMEM, m)
       else if fault then Some (- EFAULT, m)
       else do {
         s \<leftarrow> strlcpy cpy (oursecret c) ubuf (if count > MAXBYTES then MAXBYTES else count);
         Some (int_of_size count, m\<lparr>ctx := Some (c\<lparr>oursecret := s, rx := rx c + of_nat count\<rparr>)\<rparr>)
       }
     }"

text \<open>\<^verbatim>\<open>"initmsg"\<close> with its NUL.\<close>

definition initmsg :: "u8 list" where
  "initmsg = [105, 110, 105, 116, 109, 115, 103, 0]"

definition zero_ctx :: drv_ctx where
  "zero_ctx = \<lparr>tx = 0, rx = 0, err = 0, myword = 0, config1 = 0, config2 = 0, config3 = 0, oursecret = replicate MAXBYTES 0\<rparr>"

text \<open>Loading the module: the result of \<^verbatim>\<open>misc_register\<close>, and whether \<^verbatim>\<open>devm_kzalloc\<close> succeeds.\<close>

definition module_start :: misc where
  "module_start = \<lparr>ga = 0, gb = 1, ctx = None, registered = False\<rparr>"

definition miscdrv_rdwr_init :: "str_copy \<Rightarrow> int \<Rightarrow> bool \<Rightarrow> misc \<Rightarrow> (int \<times> misc) option" where
  "miscdrv_rdwr_init cpy ret alloc m =
     (if ret \<noteq> 0 then Some (ret, m)
      else if \<not> alloc then Some (- ENOMEM, m\<lparr>registered := True\<rparr>)
      else do {
        s \<leftarrow> strlcpy cpy (oursecret zero_ctx) initmsg 8;
        Some (0, m\<lparr>registered := True, ctx := Some (zero_ctx\<lparr>oursecret := s\<rparr>)\<rparr>)
      })"

definition miscdrv_rdwr_exit :: "misc \<Rightarrow> misc" where
  "miscdrv_rdwr_exit m = m\<lparr>registered := False, ctx := None\<rparr>"

section \<open>The test program\<close>

text \<open>
  \<^verbatim>\<open>rdwr_test_secret\<close>: exit with failure, or what it did.  Its arguments are byte strings without NUL; the
  environment tells whether \<^verbatim>\<open>open\<close> and \<^verbatim>\<open>malloc\<close> succeed and what the driver's choices are.
\<close>

datatype outcome = Failure | Wrote int | Got int "u8 list"

record env =
  can_open :: bool
  can_malloc :: bool
  kalloc :: bool
  kfault :: bool

definition strncpy_buf :: "u8 list \<Rightarrow> nat \<Rightarrow> u8 list" where
  "strncpy_buf src n = take n (src @ replicate n 0)"

definition test_main :: "str_copy \<Rightarrow> env \<Rightarrow> u8 list list \<Rightarrow> misc \<Rightarrow> (outcome \<times> misc) option" where
  "test_main cpy e argv m =
     (if length argv < 3 then Some (Failure, m)
      else let opt = (case argv ! 1 of [] \<Rightarrow> 0 | b # _ \<Rightarrow> b); w = (opt = 0x77) in
        if opt \<noteq> 0x72 \<and> opt \<noteq> 0x77 then Some (Failure, m)
        else if (w \<and> length argv \<noteq> 4) \<or> (\<not> w \<and> length argv \<noteq> 3) then Some (Failure, m)
        else if w \<and> strnlen (argv ! 3) MAXBYTES > MAXBYTES then Some (Failure, m)
        else if \<not> can_open e then Some (Failure, m)
        else do {
          (ret, m) \<leftarrow> open_miscdrv_rdwr (kalloc e) m;
          if ret \<noteq> 0 then Some (Failure, m)
          else let num = (if w then min (strnlen (argv ! 3) MAXBYTES + 1) MAXBYTES else MAXBYTES) in
            if \<not> can_malloc e then do { (_, m) \<leftarrow> close_miscdrv_rdwr (kalloc e) m; Some (Failure, m) }
            else if \<not> w then do {
              (n, got, m) \<leftarrow> read_miscdrv_rdwr num (kfault e) m;
              (_, m) \<leftarrow> close_miscdrv_rdwr (kalloc e) m;
              if n < 0 then Some (Failure, m) else Some (Got n (takeWhile (\<lambda>b. b \<noteq> 0) got), m)
            }
            else do {
              (n, m) \<leftarrow> write_miscdrv_rdwr cpy (strncpy_buf (argv ! 3) num) (kalloc e) (kfault e) m;
              (_, m) \<leftarrow> close_miscdrv_rdwr (kalloc e) m;
              if n < 0 then Some (Failure, m) else Some (Wrote n, m)
            }
        })"

section \<open>Copies\<close>

lemma str_part_length: "0 < n \<Longrightarrow> length (str_part src n) < n"
  unfolding str_part_def using length_takeWhile_le [of "\<lambda>b. b \<noteq> 0" "take (n - 1) src"] by (simp, linarith)

lemma bytewise_copy_contract: "copy_contract bytewise_copy"
  unfolding copy_contract_def
proof (intro allI impI)
  fix dst src :: "u8 list" and n
  assume n: "n \<le> length dst"
  show "length (bytewise_copy dst src n) = length dst \<and> drop n (bytewise_copy dst src n) = drop n dst
     \<and> (0 < n \<longrightarrow> take (Suc (length (str_part src n))) (bytewise_copy dst src n) = str_part src n @ [0])"
  proof (cases "n = 0")
    case False
    then have l: "length (str_part src n) < n" by (simp add: str_part_length)
    then have "drop n (str_part src n @ [0]) = []" "n - length (str_part src n) = Suc (n - Suc (length (str_part src n)))"
      by auto
    then show ?thesis
      using l n False by (simp add: bytewise_copy_def)
  qed (simp add: bytewise_copy_def)
qed

lemma str_part_nonzero: "0 \<notin> set (str_part src n)"
  by (auto simp: str_part_def dest: set_takeWhileD)

lemma copyE:
  assumes "copy_contract cpy" "n \<le> length dst" "0 < n"
  obtains rest where "cpy dst src n = str_part src n @ 0 # rest" "length (cpy dst src n) = length dst"
proof -
  let ?r = "cpy dst src n"
  have t: "take (Suc (length (str_part src n))) ?r = str_part src n @ [0]" and l: "length ?r = length dst"
    using assms by (simp_all add: copy_contract_def)
  have "?r = (str_part src n @ [0]) @ drop (Suc (length (str_part src n))) ?r"
    using append_take_drop_id [of "Suc (length (str_part src n))" ?r] unfolding t by simp
  then have "?r = str_part src n @ 0 # drop (Suc (length (str_part src n))) ?r"
    by (simp only: append_assoc append_Cons append_Nil)
  then show ?thesis using that l by blast
qed

lemma takeWhile_nul: "0 \<notin> set xs \<Longrightarrow> takeWhile (\<lambda>b. b \<noteq> (0 :: u8)) (xs @ 0 # ys) = xs"
  by (induction xs) auto

lemma copy_text:
  assumes "copy_contract cpy" "n \<le> length dst" "0 < n"
  shows "takeWhile (\<lambda>b. b \<noteq> 0) (cpy dst src n) = str_part src n" "0 \<in> set (cpy dst src n)" "length (cpy dst src n) = length dst"
proof -
  obtain rest where r: "cpy dst src n = str_part src n @ 0 # rest" and l: "length (cpy dst src n) = length dst"
    using copyE [OF assms] by blast
  show "takeWhile (\<lambda>b. b \<noteq> 0) (cpy dst src n) = str_part src n"
    unfolding r by (rule takeWhile_nul [OF str_part_nonzero])
  show "0 \<in> set (cpy dst src n)" unfolding r by simp
  show "length (cpy dst src n) = length dst" by (rule l)
qed

section \<open>Well-formed states\<close>

definition ctx_wf :: "drv_ctx \<Rightarrow> bool" where
  "ctx_wf c \<longleftrightarrow> length (oursecret c) = MAXBYTES \<and> 0 \<in> set (oursecret c)"

definition misc_wf :: "misc \<Rightarrow> bool" where
  "misc_wf m \<longleftrightarrow> (\<forall>c. ctx m = Some c \<longrightarrow> registered m \<and> ctx_wf c) \<and> ga m + gb m = 1"

lemma strnlen_secret:
  assumes "ctx_wf c"
  shows "strnlen (oursecret c) MAXBYTES = length (takeWhile (\<lambda>b. b \<noteq> 0) (oursecret c))"
    and "strnlen (oursecret c) MAXBYTES < MAXBYTES"
proof -
  show "strnlen (oursecret c) MAXBYTES = length (takeWhile (\<lambda>b. b \<noteq> 0) (oursecret c))"
    using assms by (simp add: ctx_wf_def strnlen_def)
  moreover obtain ys zs where "oursecret c = ys @ 0 # zs" "0 \<notin> set ys"
    using assms split_list_first [of 0 "oursecret c"] by (auto simp: ctx_wf_def)
  then have "length (takeWhile (\<lambda>b. b \<noteq> 0) (oursecret c)) < length (oursecret c)"
    by (simp add: takeWhile_nul)
  ultimately show "strnlen (oursecret c) MAXBYTES < MAXBYTES"
    using assms by (simp add: ctx_wf_def)
qed

text \<open>Loading the module, and calls of the driver afterwards.\<close>

inductive misc_reach :: "str_copy \<Rightarrow> misc \<Rightarrow> bool" for cpy where
  load: "miscdrv_rdwr_init cpy ret alloc module_start = Some (r, m) \<Longrightarrow> misc_reach cpy m"
| opened: "\<lbrakk>misc_reach cpy m; open_miscdrv_rdwr alloc m = Some (r, m')\<rbrakk> \<Longrightarrow> misc_reach cpy m'"
| closed: "\<lbrakk>misc_reach cpy m; close_miscdrv_rdwr alloc m = Some (r, m')\<rbrakk> \<Longrightarrow> misc_reach cpy m'"
| reads: "\<lbrakk>misc_reach cpy m; read_miscdrv_rdwr count fault m = Some (r, bs, m')\<rbrakk> \<Longrightarrow> misc_reach cpy m'"
| writes: "\<lbrakk>misc_reach cpy m; write_miscdrv_rdwr cpy ubuf alloc fault m = Some (r, m')\<rbrakk> \<Longrightarrow> misc_reach cpy m'"

lemma strlcpy_wf:
  assumes "copy_contract cpy" "length dst = MAXBYTES" "n \<le> length src" "n \<le> MAXBYTES" "strlcpy cpy dst src n = Some s" "n = length src \<or> 0 < n"
  shows "length s = MAXBYTES" "0 \<in> set s" "takeWhile (\<lambda>b. b \<noteq> 0) s = str_part src n"
proof -
  have "0 \<in> set src" and s: "s = cpy dst src n"
    using assms(5) by (auto simp: strlcpy_def strlen_def split: if_splits)
  then have "0 < n" using assms(6) by auto
  then show "length s = MAXBYTES" "0 \<in> set s" "takeWhile (\<lambda>b. b \<noteq> 0) s = str_part src n"
    using copy_text [OF assms(1), of n dst src] assms(2,4) s by simp_all
qed

lemma init_wf:
  assumes "copy_contract cpy" "miscdrv_rdwr_init cpy ret alloc module_start = Some (r, m)"
  shows "misc_wf m"
proof -
  have "length s = MAXBYTES" "0 \<in> set s" if "strlcpy cpy (oursecret zero_ctx) initmsg 8 = Some s" for s
    using strlcpy_wf [OF assms(1) _ _ _ that] by (simp_all add: zero_ctx_def initmsg_def MAXBYTES_def)
  then show ?thesis
    using assms(2) by (auto simp: miscdrv_rdwr_init_def module_start_def misc_wf_def ctx_wf_def split: if_splits bind_splits)
qed

lemma write_wf:
  assumes "copy_contract cpy" "misc_wf m" "write_miscdrv_rdwr cpy ubuf alloc fault m = Some (r, m')"
  shows "misc_wf m'"
proof -
  have "ctx_wf (c\<lparr>oursecret := s, rx := w\<rparr>)"
    if "ctx m = Some c" "strlcpy cpy (oursecret c) ubuf (length ubuf) = Some s" "length ubuf \<le> MAXBYTES" for c s w
    using strlcpy_wf [OF assms(1) _ _ that(3,2)] assms(2) that(1) by (simp add: misc_wf_def ctx_wf_def)
  then show ?thesis
    using assms(2,3) by (auto simp: write_miscdrv_rdwr_def misc_wf_def Let_def split: if_splits bind_splits)
qed

lemma misc_reach_wf:
  assumes "copy_contract cpy" "misc_reach cpy m"
  shows "misc_wf m"
  using assms(2)
proof induction
  case (load ret alloc r m)
  then show ?case by (rule init_wf [OF assms(1)])
next
  case (writes m ubuf alloc fault r m')
  then show ?case by (metis write_wf [OF assms(1)])
next
  case (reads m count fault r bs m')
  then show ?case
    by (auto simp: read_miscdrv_rdwr_def misc_wf_def ctx_wf_def Let_def split: if_splits bind_splits)
qed (auto simp: open_miscdrv_rdwr_def close_miscdrv_rdwr_def misc_wf_def split: if_splits bind_splits)

section \<open>Reading and writing the secret\<close>

lemma strnlen_msg:
  assumes "0 \<notin> set msg"
  shows "strnlen msg n = min (length msg) n"
proof -
  have "takeWhile (\<lambda>b. b \<noteq> 0) (take n msg) = take n msg"
    using assms by (auto simp: takeWhile_eq_all_conv dest: in_set_takeD)
  then show ?thesis unfolding strnlen_def by (simp only: length_take)
qed

lemma int_of_size_small: "n < 2147483648 \<Longrightarrow> int_of_size n = int n"
  by (simp add: int_of_size_def signed_of_nat signed_take_bit_int_eq_self)

lemma test_write:
  assumes "misc_wf m" "ctx m = Some c" "0 \<notin> set msg" "kalloc e" "\<not> kfault e" "can_open e" "can_malloc e" "hd w = 0x77" "w \<noteq> []"
  shows "test_main cpy e [prg, w, dev, msg] m =
    (if length msg < MAXBYTES
     then Some (Wrote (int (length msg) + 1),
       m\<lparr>ctx := Some (c\<lparr>oursecret := cpy (oursecret c) (msg @ [0]) (Suc (length msg)), rx := rx c + of_nat (Suc (length msg))\<rparr>)\<rparr>)
     else None)"
proof -
  obtain ws where w: "w = 0x77 # ws" using assms(8,9) by (cases w) auto
  have n: "strnlen msg MAXBYTES = min (length msg) MAXBYTES" by (rule strnlen_msg [OF assms(3)])
  have op: "open_miscdrv_rdwr True m = Some (0, m\<lparr>ga := ga m + 1, gb := gb m - 1\<rparr>)"
    using assms(2) by (simp add: open_miscdrv_rdwr_def)
  show ?thesis
  proof (cases "length msg < MAXBYTES")
    case True
    then have "strncpy_buf msg (min (Suc (min (length msg) MAXBYTES)) MAXBYTES) = msg @ [0]"
      by (simp add: strncpy_buf_def min_def)
    moreover have "int_of_size (Suc (length msg)) = int (length msg) + 1"
      using True by (subst int_of_size_small) (simp_all add: MAXBYTES_def)
    ultimately show ?thesis
      using True assms op w n
      by (simp add: test_main_def write_miscdrv_rdwr_def close_miscdrv_rdwr_def strlcpy_def strlen_def)
  next
    case False
    then have "strncpy_buf msg MAXBYTES = take MAXBYTES msg"
      by (simp add: strncpy_buf_def)
    moreover have "0 \<notin> set (take MAXBYTES msg)" using assms(3) by (auto dest: in_set_takeD)
    ultimately show ?thesis
      using False assms op w n
      by (simp add: test_main_def write_miscdrv_rdwr_def strlcpy_def strlen_def min_def)
  qed
qed

lemma test_read:
  assumes "misc_wf m" "ctx m = Some c" "kalloc e" "\<not> kfault e" "can_open e" "can_malloc e" "hd r = 0x72" "r \<noteq> []"
    and len: "n = length (takeWhile (\<lambda>b. b \<noteq> 0) (oursecret c))"
  shows "test_main cpy e [prg, r, dev] m =
    (if n = 0 then Some (Failure, m)
     else Some (Got (int n) (takeWhile (\<lambda>b. b \<noteq> 0) (oursecret c)), m\<lparr>ctx := Some (c\<lparr>tx := tx c + of_nat n\<rparr>)\<rparr>))"
proof -
  obtain rs where r: "r = 0x72 # rs" using assms(7,8) by (cases r) auto
  have wf: "ctx_wf c" using assms(1,2) by (simp add: misc_wf_def)
  have n: "strnlen (oursecret c) MAXBYTES = n" using strnlen_secret(1) [OF wf] len by simp
  have t: "take n (oursecret c) = takeWhile (\<lambda>b. b \<noteq> 0) (oursecret c)"
    unfolding len by (metis append_eq_conv_conj takeWhile_dropWhile_id)
  have tt: "takeWhile (\<lambda>b. b \<noteq> 0) (takeWhile (\<lambda>b. b \<noteq> 0) (oursecret c)) = takeWhile (\<lambda>b. b \<noteq> 0) (oursecret c)"
    by (auto simp: takeWhile_eq_all_conv dest: set_takeWhileD)
  show ?thesis
    using assms(1-8) r n
    by (simp add: test_main_def open_miscdrv_rdwr_def read_miscdrv_rdwr_def close_miscdrv_rdwr_def t tt EINVAL_def Let_def)
qed

lemma module_loaded:
  assumes "copy_contract cpy"
  shows "\<exists>m c. miscdrv_rdwr_init cpy 0 True module_start = Some (0, m) \<and> ctx m = Some c"
  by (simp add: miscdrv_rdwr_init_def strlcpy_def strlen_def initmsg_def)

text \<open>
  C24: whatever is called after loading the module, the secret stays an array of 128 bytes with a NUL in
  it, \<^verbatim>\<open>ga + gb\<close> stays 1, and a context exists only while the device is registered.  In such a state no
  read faults and none returns more than 127 bytes; a write faults exactly when it copies a buffer without
  NUL, whose length \<^verbatim>\<open>strlcpy\<close> then looks for past its end.
\<close>

theorem misc_well_formed:
  assumes "copy_contract cpy" "misc_reach cpy m"
  shows "misc_wf m
    \<and> (ctx m \<noteq> None \<longrightarrow>
        (\<exists>r bs m'. read_miscdrv_rdwr count fault m = Some (r, bs, m') \<and> r < 128 \<and> int (length bs) = max r 0)
      \<and> (write_miscdrv_rdwr cpy ubuf alloc fault m = None \<longleftrightarrow> length ubuf \<le> 128 \<and> alloc \<and> \<not> fault \<and> 0 \<notin> set ubuf))"
proof (intro conjI impI)
  show wf: "misc_wf m" by (rule misc_reach_wf [OF assms])
  assume "ctx m \<noteq> None"
  then obtain c where c: "ctx m = Some c" by auto
  then have cwf: "ctx_wf c" using wf by (simp add: misc_wf_def)
  note l = strnlen_secret(2) [OF cwf]
  then show "\<exists>r bs m'. read_miscdrv_rdwr count fault m = Some (r, bs, m') \<and> r < 128 \<and> int (length bs) = max r 0"
    using c cwf by (auto simp: read_miscdrv_rdwr_def Let_def EINVAL_def EFAULT_def MAXBYTES_def ctx_wf_def)
  show "write_miscdrv_rdwr cpy ubuf alloc fault m = None \<longleftrightarrow> length ubuf \<le> 128 \<and> alloc \<and> \<not> fault \<and> 0 \<notin> set ubuf"
    using c by (auto simp: write_miscdrv_rdwr_def Let_def strlcpy_def strlen_def MAXBYTES_def)
qed

theorem misc_well_formed_witness:
  "\<exists>m c. miscdrv_rdwr_init bytewise_copy 0 True module_start = Some (0, m) \<and> ctx m = Some c \<and> misc_wf m
     \<and> write_miscdrv_rdwr bytewise_copy [65] True False m = None"
proof -
  obtain m c where m: "miscdrv_rdwr_init bytewise_copy 0 True module_start = Some (0, m)" "ctx m = Some c"
    using module_loaded [OF bytewise_copy_contract] by blast
  then have "misc_reach bytewise_copy m" by (blast intro: misc_reach.load)
  from misc_well_formed [OF bytewise_copy_contract this, of 0 False "[65]" True] m show ?thesis
    by auto
qed

text \<open>
  C26: in every state the driver reaches, the test program writes and reads back the secret: a message of
  1 to 127 bytes is printed by the next read; the empty message makes the next read fail; a message
  of 128 bytes or more, which the program's own length check lets through, makes the kernel read past
  the end of its copy of it.
\<close>

theorem secret_round_trip:
  assumes "copy_contract cpy" "misc_reach cpy m" "ctx m \<noteq> None" "0 \<notin> set msg"
    and "kalloc e" "\<not> kfault e" "can_open e" "can_malloc e"
  shows "if 128 \<le> length msg then test_main cpy e [prg, [0x77], dev, msg] m = None
    else \<exists>m'. test_main cpy e [prg, [0x77], dev, msg] m = Some (Wrote (int (length msg) + 1), m')
      \<and> map_option fst (test_main cpy e [prg, [0x72], dev] m') = Some (if msg = [] then Failure else Got (int (length msg)) msg)"
proof -
  have wf: "misc_wf m" by (rule misc_reach_wf [OF assms(1,2)])
  obtain c where c: "ctx m = Some c" using assms(3) by auto
  note w = test_write [OF wf c assms(4-8), of "[0x77]" cpy prg dev, simplified]
  show ?thesis
  proof (cases "length msg < 128")
    case True
    let ?s = "cpy (oursecret c) (msg @ [0]) (Suc (length msg))"
    let ?c = "c\<lparr>oursecret := ?s, rx := rx c + of_nat (Suc (length msg))\<rparr>"
    let ?m = "m\<lparr>ctx := Some ?c\<rparr>"
    have run: "test_main cpy e [prg, [0x77], dev, msg] m = Some (Wrote (int (length msg) + 1), ?m)"
      using w True by (simp add: MAXBYTES_def)
    have l: "length (oursecret c) = 128" using wf c by (simp add: misc_wf_def ctx_wf_def MAXBYTES_def)
    have part: "str_part (msg @ [0]) (Suc (length msg)) = msg"
      using assms(4) by (auto simp: str_part_def takeWhile_eq_all_conv)
    have s: "takeWhile (\<lambda>b. b \<noteq> 0) ?s = msg" "0 \<in> set ?s" "length ?s = 128"
      using copy_text [OF assms(1), of "Suc (length msg)" "oursecret c" "msg @ [0]"] True l part by simp_all
    have "misc_wf ?m"
      using wf c s by (simp add: misc_wf_def ctx_wf_def MAXBYTES_def)
    from test_read [OF this _ assms(5-8), of ?c "[0x72]" "length msg" cpy prg dev] s(1)
    have "map_option fst (test_main cpy e [prg, [0x72], dev] ?m) = Some (if msg = [] then Failure else Got (int (length msg)) msg)"
      by simp
    then show ?thesis using run True by auto
  next
    case False
    then show ?thesis using w by (simp add: MAXBYTES_def)
  qed
qed

theorem secret_round_trip_witness:
  "\<exists>m m'. miscdrv_rdwr_init bytewise_copy 0 True module_start = Some (0, m)
     \<and> test_main bytewise_copy \<lparr>can_open = True, can_malloc = True, kalloc = True, kfault = False\<rparr> [[], [0x77], [], [65, 66]] m = Some (Wrote 3, m')
     \<and> map_option fst (test_main bytewise_copy \<lparr>can_open = True, can_malloc = True, kalloc = True, kfault = False\<rparr> [[], [0x72], []] m')
         = Some (Got 2 [65, 66])"
proof -
  obtain m c where m: "miscdrv_rdwr_init bytewise_copy 0 True module_start = Some (0, m)" "ctx m = Some c"
    using module_loaded [OF bytewise_copy_contract] by blast
  then have r: "misc_reach bytewise_copy m" by (blast intro: misc_reach.load)
  show ?thesis
    using secret_round_trip [OF bytewise_copy_contract r, of "[65, 66]" "\<lparr>can_open = True, can_malloc = True, kalloc = True, kfault = False\<rparr>" "[]" "[]"] m
    by auto
qed

end
