(* ===== verification/KSync.thy ===== *)
theory KSync
  imports KMisc
begin

text \<open>
  The same driver with locks, called by any number of threads: \<^verbatim>\<open>ksync-mutex/mutexlock_misc.c\<close>, where one
  mutex protects the context, and \<^verbatim>\<open>ksync-spin/spinlock_misc.c\<close>, where the length is taken and the secret
  written under a spin lock, but copied to the user under a mutex.

  A critical section in which the secret is copied is not one step: the bytes are read or written one
  at a time, in any order, and other threads run in between unless a lock keeps them out.  Sections that only
  look at the secret under the lock of its writers, or only count, are one step.  \<^verbatim>\<open>strscpy\<close> is the parameter
  of the previous theory; of it a running copy uses only the result it will have.  The lock \<^verbatim>\<open>lock1\<close> only
  protects \<^verbatim>\<open>ga\<close> and \<^verbatim>\<open>gb\<close>, \<^verbatim>\<open>display_stats\<close> only logs, and the module parameter \<^verbatim>\<open>buggy\<close> only sleeps; they
  have no state here.
\<close>

section \<open>State\<close>

datatype variant = Mutex | Spin

text \<open>
  Where a thread is: outside; in \<^verbatim>\<open>read\<close> with the length taken; copying to the user, with the bytes copied so
  far; in \<^verbatim>\<open>write\<close> with the user's bytes; storing, with the user's bytes and the secret as it is going to be.
\<close>

datatype pcs =
    Out
  | Measured nat
  | RCopy nat "(nat \<times> u8) list"
  | WReady "u8 list"
  | WCopy "u8 list" "u8 list"

text \<open>
  \<^term>\<open>holder\<close> is the thread that holds \<^verbatim>\<open>ctx->lock\<close> (\<^verbatim>\<open>ctx->spinlock\<close>), \<^term>\<open>mholder\<close> the one that holds
  \<^verbatim>\<open>ctx->mutex\<close> of the second driver.  \<^term>\<open>sent\<close> and \<^term>\<open>received\<close> record what the finished reads delivered
  and how much the finished writes were given.
\<close>

record sync =
  dctx :: drv_ctx
  sga :: u32
  sgb :: u32
  holder :: "nat option"
  mholder :: "nat option"
  pc :: "nat \<Rightarrow> pcs"
  sent :: "u8 list list"
  received :: "nat list"

definition set_pc :: "nat \<Rightarrow> pcs \<Rightarrow> sync \<Rightarrow> sync" where
  "set_pc t x s = s\<lparr>pc := (pc s)(t := x)\<rparr>"

section \<open>Pieces of the operations\<close>

text \<open>The lock of the copy to the user.\<close>

fun rd_holder :: "variant \<Rightarrow> sync \<Rightarrow> nat option" where
  "rd_holder Mutex s = holder s"
| "rd_holder Spin s = mholder s"

fun set_rd_holder :: "variant \<Rightarrow> nat option \<Rightarrow> sync \<Rightarrow> sync" where
  "set_rd_holder Mutex h s = s\<lparr>holder := h\<rparr>"
| "set_rd_holder Spin h s = s\<lparr>mholder := h\<rparr>"

definition open_count :: "sync \<Rightarrow> sync" where
  "open_count s = s\<lparr>sga := sga s + 1, sgb := sgb s - 1\<rparr>"

definition close_count :: "sync \<Rightarrow> sync" where
  "close_count s = s\<lparr>sga := sga s - 1, sgb := sgb s + 1\<rparr>"

text \<open>\<^verbatim>\<open>read\<close> up to its checks, which end it with \<^verbatim>\<open>-EINVAL\<close>.\<close>

definition read_measure :: "nat \<Rightarrow> nat \<Rightarrow> sync \<Rightarrow> sync option" where
  "read_measure count t s =
     do {
       secret_len \<leftarrow> strlen (oursecret (dctx s));
       Some (if count < MAXBYTES \<or> secret_len = 0 then s else set_pc t (Measured secret_len) s)
     }"

definition read_byte :: "nat \<Rightarrow> nat \<Rightarrow> (nat \<times> u8) list \<Rightarrow> nat \<Rightarrow> sync \<Rightarrow> sync option" where
  "read_byte i len got t s =
     (if i < length (oursecret (dctx s)) then Some (set_pc t (RCopy len ((i, oursecret (dctx s) ! i) # got)) s) else None)"

definition delivered :: "nat \<Rightarrow> (nat \<times> u8) list \<Rightarrow> u8 list" where
  "delivered len got = map (\<lambda>i. the (map_of got i)) [0..<len]"

definition read_done :: "variant \<Rightarrow> nat \<Rightarrow> (nat \<times> u8) list \<Rightarrow> nat \<Rightarrow> sync \<Rightarrow> sync" where
  "read_done v len got t s =
     set_rd_holder v None (set_pc t Out
       (s\<lparr>dctx := (dctx s)\<lparr>tx := tx (dctx s) + of_nat len\<rparr>, sent := delivered len got # sent s\<rparr>))"

text \<open>\<^verbatim>\<open>write\<close> up to its lock: \<^verbatim>\<open>-ENOMEM\<close> and \<^verbatim>\<open>-EFAULT\<close> end it.\<close>

definition write_prepare :: "u8 list \<Rightarrow> bool \<Rightarrow> bool \<Rightarrow> nat \<Rightarrow> sync \<Rightarrow> sync" where
  "write_prepare kbuf alloc fault t s = (if alloc \<and> \<not> fault then set_pc t (WReady kbuf) s else s)"

definition write_begin :: "str_copy \<Rightarrow> u8 list \<Rightarrow> nat \<Rightarrow> sync \<Rightarrow> sync" where
  "write_begin cpy kbuf t s =
     set_pc t (WCopy kbuf (cpy (oursecret (dctx s)) kbuf (if length kbuf > MAXBYTES then MAXBYTES else length kbuf))) (s\<lparr>holder := Some t\<rparr>)"

definition write_byte :: "nat \<Rightarrow> u8 list \<Rightarrow> sync \<Rightarrow> sync" where
  "write_byte i final s = s\<lparr>dctx := (dctx s)\<lparr>oursecret := (oursecret (dctx s))[i := final ! i]\<rparr>\<rparr>"

definition write_done :: "u8 list \<Rightarrow> nat \<Rightarrow> sync \<Rightarrow> sync" where
  "write_done kbuf t s =
     set_pc t Out (s\<lparr>dctx := (dctx s)\<lparr>rx := rx (dctx s) + of_nat (length kbuf)\<rparr>, holder := None, received := length kbuf # received s\<rparr>)"

section \<open>Steps\<close>

datatype kact =
    Open
  | Close
  | Measure nat
  | RLock
  | RByte nat
  | RFail
  | RDone
  | Prepare "u8 list" bool bool
  | WLock
  | WByte nat
  | WDone

definition kcan :: "variant \<Rightarrow> nat \<Rightarrow> kact \<Rightarrow> sync \<Rightarrow> bool" where
  "kcan v t a s \<longleftrightarrow>
     (case a of
        Open \<Rightarrow> pc s t = Out
      | Close \<Rightarrow> pc s t = Out
      | Measure _ \<Rightarrow> pc s t = Out \<and> holder s = None
      | Prepare _ _ _ \<Rightarrow> pc s t = Out
      | RLock \<Rightarrow> (case pc s t of Measured _ \<Rightarrow> rd_holder v s = None | _ \<Rightarrow> False)
      | RByte i \<Rightarrow> (case pc s t of RCopy len _ \<Rightarrow> i < len | _ \<Rightarrow> False)
      | RFail \<Rightarrow> (case pc s t of RCopy _ _ \<Rightarrow> True | _ \<Rightarrow> False)
      | RDone \<Rightarrow> (case pc s t of RCopy len got \<Rightarrow> list_all (\<lambda>i. map_of got i \<noteq> None) [0..<len] | _ \<Rightarrow> False)
      | WLock \<Rightarrow> (case pc s t of WReady _ \<Rightarrow> holder s = None | _ \<Rightarrow> False)
      | WByte i \<Rightarrow> (case pc s t of WCopy _ _ \<Rightarrow> i < MAXBYTES | _ \<Rightarrow> False)
      | WDone \<Rightarrow> (case pc s t of WCopy _ final \<Rightarrow> oursecret (dctx s) = final | _ \<Rightarrow> False))"

fun kexec :: "variant \<Rightarrow> str_copy \<Rightarrow> nat \<Rightarrow> kact \<Rightarrow> sync \<Rightarrow> sync option" where
  "kexec v cpy t Open s = Some (open_count s)"
| "kexec v cpy t Close s = Some (close_count s)"
| "kexec v cpy t (Measure count) s = read_measure count t s"
| "kexec v cpy t RLock s =
     (case pc s t of Measured len \<Rightarrow> Some (set_rd_holder v (Some t) (set_pc t (RCopy len []) s)) | _ \<Rightarrow> None)"
| "kexec v cpy t (RByte i) s = (case pc s t of RCopy len got \<Rightarrow> read_byte i len got t s | _ \<Rightarrow> None)"
| "kexec v cpy t RFail s = (case pc s t of RCopy _ _ \<Rightarrow> Some (set_rd_holder v None (set_pc t Out s)) | _ \<Rightarrow> None)"
| "kexec v cpy t RDone s = (case pc s t of RCopy len got \<Rightarrow> Some (read_done v len got t s) | _ \<Rightarrow> None)"
| "kexec v cpy t (Prepare kbuf alloc fault) s = Some (write_prepare kbuf alloc fault t s)"
| "kexec v cpy t WLock s = (case pc s t of WReady kbuf \<Rightarrow> Some (write_begin cpy kbuf t s) | _ \<Rightarrow> None)"
| "kexec v cpy t (WByte i) s = (case pc s t of WCopy _ final \<Rightarrow> Some (write_byte i final s) | _ \<Rightarrow> None)"
| "kexec v cpy t WDone s = (case pc s t of WCopy kbuf _ \<Rightarrow> Some (write_done kbuf t s) | _ \<Rightarrow> None)"

definition spin_exec :: "str_copy \<Rightarrow> nat \<Rightarrow> kact \<Rightarrow> sync \<Rightarrow> sync option" where
  "spin_exec = kexec Spin"

text \<open>Loading the module: the result of \<^verbatim>\<open>misc_register\<close>, and whether \<^verbatim>\<open>devm_kzalloc\<close> succeeds.\<close>

definition sync_start :: "str_copy \<Rightarrow> sync" where
  "sync_start cpy = \<lparr>dctx = zero_ctx\<lparr>oursecret := cpy (oursecret zero_ctx) initmsg 8\<rparr>, sga = 0, sgb = 1,
     holder = None, mholder = None, pc = (\<lambda>_. Out), sent = [], received = []\<rparr>"

definition miscdrv_init_mutexlock :: "str_copy \<Rightarrow> int \<Rightarrow> bool \<Rightarrow> int \<times> sync option" where
  "miscdrv_init_mutexlock cpy ret alloc =
     (if ret < 0 then (ret, None) else if \<not> alloc then (- ENOMEM, None) else (0, Some (sync_start cpy)))"

definition miscdrv_init_spinlock :: "str_copy \<Rightarrow> int \<Rightarrow> bool \<Rightarrow> int \<times> sync option" where
  "miscdrv_init_spinlock cpy ret alloc =
     (if ret < 0 then (ret, None) else if \<not> alloc then (- ENOMEM, None) else (0, Some (sync_start cpy)))"

fun driver_init :: "variant \<Rightarrow> str_copy \<Rightarrow> int \<Rightarrow> bool \<Rightarrow> int \<times> sync option" where
  "driver_init Mutex = miscdrv_init_mutexlock"
| "driver_init Spin = miscdrv_init_spinlock"

inductive kreach :: "variant \<Rightarrow> str_copy \<Rightarrow> sync \<Rightarrow> bool" for v cpy where
  start: "driver_init v cpy ret alloc = (0, Some s) \<Longrightarrow> kreach v cpy s"
| step: "\<lbrakk>kreach v cpy s; kcan v t a s; kexec v cpy t a s = Some s'\<rbrakk> \<Longrightarrow> kreach v cpy s'"

section \<open>Invariant\<close>

abbreviation secret :: "sync \<Rightarrow> u8 list" where
  "secret s \<equiv> oursecret (dctx s)"

text \<open>Which lock a thread holds where it is.\<close>

fun holds :: "variant \<Rightarrow> pcs \<Rightarrow> bool" where
  "holds v (WCopy _ _) = True"
| "holds Mutex (RCopy _ _) = True"
| "holds _ _ = False"

fun mholds :: "variant \<Rightarrow> pcs \<Rightarrow> bool" where
  "mholds Spin (RCopy _ _) = True"
| "mholds _ _ = False"

fun writer :: "pcs \<Rightarrow> bool" where
  "writer (WCopy _ _) = True"
| "writer _ = False"

fun pc_ok :: "variant \<Rightarrow> u8 list \<Rightarrow> pcs \<Rightarrow> bool" where
  "pc_ok v sec (Measured n) = (0 < n \<and> n < MAXBYTES)"
| "pc_ok v sec (RCopy n got) = (0 < n \<and> n < MAXBYTES \<and> (v = Mutex \<longrightarrow> (\<forall>i b. map_of got i = Some b \<longrightarrow> b = sec ! i)))"
| "pc_ok v sec (WCopy kbuf final) = (length final = MAXBYTES \<and> 0 \<in> set final)"
| "pc_ok v sec _ = True"

definition locks_ok :: "variant \<Rightarrow> sync \<Rightarrow> bool" where
  "locks_ok v s \<longleftrightarrow> (\<forall>t. holds v (pc s t) \<longleftrightarrow> holder s = Some t) \<and> (\<forall>t. mholds v (pc s t) \<longleftrightarrow> mholder s = Some t)"

definition secret_ok :: "sync \<Rightarrow> bool" where
  "secret_ok s \<longleftrightarrow> length (secret s) = MAXBYTES \<and> (0 \<in> set (secret s) \<or> (\<exists>t. writer (pc s t)))"

definition counts_ok :: "sync \<Rightarrow> bool" where
  "counts_ok s \<longleftrightarrow> sga s + sgb s = 1 \<and> tx (dctx s) = of_nat (sum_list (map length (sent s))) \<and> rx (dctx s) = of_nat (sum_list (received s))"

definition sync_inv :: "variant \<Rightarrow> sync \<Rightarrow> bool" where
  "sync_inv v s \<longleftrightarrow> locks_ok v s \<and> secret_ok s \<and> counts_ok s \<and> (\<forall>t. pc_ok v (secret s) (pc s t))"

lemma set_pc_simps [simp]:
  "dctx (set_pc t x s) = dctx s" "sga (set_pc t x s) = sga s" "sgb (set_pc t x s) = sgb s"
  "holder (set_pc t x s) = holder s" "mholder (set_pc t x s) = mholder s" "sent (set_pc t x s) = sent s"
  "received (set_pc t x s) = received s" "pc (set_pc t x s) u = (if u = t then x else pc s u)"
  by (simp_all add: set_pc_def)

lemma set_rd_holder_simps [simp]:
  "dctx (set_rd_holder v h s) = dctx s" "sga (set_rd_holder v h s) = sga s" "sgb (set_rd_holder v h s) = sgb s"
  "sent (set_rd_holder v h s) = sent s" "received (set_rd_holder v h s) = received s" "pc (set_rd_holder v h s) = pc s"
  "holder (set_rd_holder v h s) = (if v = Mutex then h else holder s)"
  "mholder (set_rd_holder v h s) = (if v = Spin then h else mholder s)"
  by (cases v; simp)+

lemma holds_writer: "writer x \<Longrightarrow> holds v x"
  by (cases x) auto

lemma holds_RCopy [simp]: "holds v (RCopy n got) \<longleftrightarrow> v = Mutex" "mholds v (RCopy n got) \<longleftrightarrow> v = Spin"
  by (cases v; simp)+

lemma mholds_other [simp]: "\<not> mholds v Out" "\<not> mholds v (Measured n)" "\<not> mholds v (WReady k)" "\<not> mholds v (WCopy k f)"
  by (cases v; simp)+

lemma holds_other [simp]: "\<not> holds v Out" "\<not> holds v (Measured n)" "\<not> holds v (WReady k)"
  by (cases v; simp)+

lemma locks_okD: "locks_ok v s \<Longrightarrow> holds v (pc s t) = (holder s = Some t) \<and> mholds v (pc s t) = (mholder s = Some t)"
  by (simp add: locks_ok_def)

lemma free_secret:
  assumes "locks_ok v s" "secret_ok s" "holder s = None"
  shows "0 \<in> set (secret s)"
  using assms holds_writer by (auto simp: locks_ok_def secret_ok_def)

text \<open>A move that takes no lock, gives none back, and leaves the context alone.\<close>

lemma inv_move:
  assumes "sync_inv v s" "pc_ok v (secret s) x" "holds v x = holds v (pc s t)" "mholds v x = mholds v (pc s t)" "writer x = writer (pc s t)"
  shows "sync_inv v (set_pc t x s)"
proof -
  have "locks_ok v (set_pc t x s)"
    using assms(1,3,4) by (simp add: sync_inv_def locks_ok_def)
  moreover have "secret_ok (set_pc t x s)"
    using assms(1,5) by (auto simp: sync_inv_def secret_ok_def)
  ultimately show ?thesis
    using assms(1,2) by (simp add: sync_inv_def counts_ok_def)
qed

lemma inv_measure:
  assumes "sync_inv v s" "pc s t = Out" "holder s = None" "read_measure count t s = Some s'"
  shows "sync_inv v s'"
proof -
  obtain n where n: "strlen (secret s) = Some n" and s': "s' = (if count < MAXBYTES \<or> n = 0 then s else set_pc t (Measured n) s)"
    using assms(4) by (auto simp: read_measure_def split: bind_splits)
  have "length (secret s) = MAXBYTES" "0 \<in> set (secret s)"
    using assms(1,3) free_secret by (auto simp: sync_inv_def secret_ok_def)
  then have "n < MAXBYTES"
    using n strnlen_secret [of "dctx s"] by (simp add: strlen_def ctx_wf_def)
  then show ?thesis
    using assms(1,2) s' by (auto intro!: inv_move)
qed

lemma inv_read_lock:
  assumes "sync_inv v s" "pc s t = Measured n" "rd_holder v s = None"
  shows "sync_inv v (set_rd_holder v (Some t) (set_pc t (RCopy n []) s))"
proof -
  have "locks_ok v (set_rd_holder v (Some t) (set_pc t (RCopy n []) s))"
    using assms locks_okD [of v s t] by (cases v) (auto simp: sync_inv_def locks_ok_def)
  moreover have "0 < n \<and> n < MAXBYTES"
    using assms(1,2) by (metis sync_inv_def pc_ok.simps(1))
  moreover have "\<not> writer (pc s t)" using assms(2) by simp
  ultimately show ?thesis
    using assms(1) by (auto simp: sync_inv_def secret_ok_def counts_ok_def)
qed

lemma inv_read_byte:
  assumes "sync_inv v s" "pc s t = RCopy n got" "read_byte i n got t s = Some s'"
  shows "sync_inv v s'"
proof -
  have "pc_ok v (secret s) (RCopy n got)" using assms(1,2) by (metis sync_inv_def)
  then show ?thesis
    using assms by (auto simp: read_byte_def split: if_splits intro!: inv_move)
qed

text \<open>The end of a read, with whatever it adds to the counter.\<close>

lemma inv_read_end:
  assumes "sync_inv v s" "pc s t = RCopy n got"
  shows "sync_inv v (read_done v n got t s)" "sync_inv v (set_rd_holder v None (set_pc t Out s))"
proof -
  have nw: "writer (pc s u) \<Longrightarrow> u \<noteq> t" for u using assms(2) by auto
  have "locks_ok v (set_rd_holder v None (set_pc t Out s))"
    using assms locks_okD [of v s t] by (cases v) (auto simp: sync_inv_def locks_ok_def)
  moreover have "locks_ok v (read_done v n got t s) = locks_ok v (set_rd_holder v None (set_pc t Out s))"
    by (simp add: locks_ok_def read_done_def)
  moreover have "secret_ok (set_rd_holder v None (set_pc t Out s))" "secret_ok (read_done v n got t s)"
    using assms nw by (auto simp: sync_inv_def secret_ok_def read_done_def)
  moreover have "length (delivered n got) = n" by (simp add: delivered_def)
  ultimately show "sync_inv v (read_done v n got t s)" "sync_inv v (set_rd_holder v None (set_pc t Out s))"
    using assms(1) by (simp_all add: sync_inv_def counts_ok_def read_done_def)
qed

lemma inv_write_lock:
  assumes "copy_contract cpy" "sync_inv v s" "pc s t = WReady kbuf" "holder s = None"
  shows "sync_inv v (write_begin cpy kbuf t s)"
proof -
  define n where "n = (if length kbuf > MAXBYTES then MAXBYTES else length kbuf)"
  define f where "f = cpy (secret s) kbuf n"
  have w: "write_begin cpy kbuf t s = set_pc t (WCopy kbuf f) (s\<lparr>holder := Some t\<rparr>)"
    by (simp only: write_begin_def f_def n_def)
  have sec: "length (secret s) = MAXBYTES" "0 \<in> set (secret s)"
    using assms(2,4) free_secret by (auto simp: sync_inv_def secret_ok_def)
  have le: "n \<le> length (secret s)" by (simp add: sec n_def)
  have "length f = MAXBYTES \<and> 0 \<in> set f"
  proof (cases "n = 0")
    case True
    have "drop 0 (cpy (secret s) kbuf 0) = drop 0 (secret s)"
      using assms(1) unfolding copy_contract_def by blast
    then show ?thesis using True sec by (simp add: f_def)
  next
    case False
    then show ?thesis using copy_text(2,3) [OF assms(1) le] sec by (simp add: f_def)
  qed
  moreover have "locks_ok v (write_begin cpy kbuf t s)"
    using assms(2-4) locks_okD [of v s t] by (auto simp: sync_inv_def locks_ok_def w)
  moreover have "secret_ok (write_begin cpy kbuf t s)"
    using sec by (simp add: secret_ok_def w)
  ultimately show ?thesis
    using assms(2) by (simp add: sync_inv_def counts_ok_def w)
qed

text \<open>Under one lock for both, nobody copies to the user while a byte is stored.\<close>

lemma inv_write_byte:
  assumes "sync_inv v s" "pc s t = WCopy kbuf final"
  shows "sync_inv v (write_byte i final s)"
proof -
  have "pc_ok v (secret (write_byte i final s)) (pc s u)" for u
  proof (cases "pc s u")
    case (RCopy n got)
    have "pc_ok v (secret s) (pc s u)" using assms(1) by (simp add: sync_inv_def)
    moreover have "v \<noteq> Mutex"
    proof
      assume "v = Mutex"
      then have "holder s = Some u" "holder s = Some t"
        using assms RCopy by (auto simp: sync_inv_def locks_ok_def)
      then show False using assms(2) RCopy by simp
    qed
    ultimately show ?thesis using RCopy by simp
  qed (use assms(1) in \<open>auto simp: sync_inv_def dest: spec [of _ u]\<close>)
  moreover have "secret_ok (write_byte i final s)"
    using assms by (auto simp: sync_inv_def secret_ok_def write_byte_def intro!: exI [of _ t])
  ultimately show ?thesis
    using assms(1) by (simp add: sync_inv_def locks_ok_def counts_ok_def write_byte_def)
qed

lemma inv_write_done:
  assumes "sync_inv v s" "pc s t = WCopy kbuf final" "secret s = final"
  shows "sync_inv v (write_done kbuf t s)"
proof -
  have "0 \<in> set (secret s)" "length (secret s) = MAXBYTES"
    using assms by (metis sync_inv_def pc_ok.simps(3))+
  then have "secret_ok (write_done kbuf t s)" by (simp add: secret_ok_def write_done_def)
  moreover have "locks_ok v (write_done kbuf t s)"
    using assms(1,2) locks_okD [of v s t] by (auto simp: sync_inv_def locks_ok_def write_done_def)
  ultimately show ?thesis
    using assms(1) by (simp add: sync_inv_def counts_ok_def write_done_def)
qed

lemma sync_start_inv:
  assumes "copy_contract cpy"
  shows "sync_inv v (sync_start cpy)"
proof -
  have "length (oursecret zero_ctx) = MAXBYTES" by (simp add: zero_ctx_def)
  then have "0 \<in> set (cpy (oursecret zero_ctx) initmsg 8)" "length (cpy (oursecret zero_ctx) initmsg 8) = MAXBYTES"
    using copy_text(2,3) [OF assms, of 8 "oursecret zero_ctx" initmsg] by (simp_all add: MAXBYTES_def)
  then show ?thesis
    by (simp add: sync_inv_def locks_ok_def secret_ok_def counts_ok_def sync_start_def zero_ctx_def)
qed

lemma sync_inv_step:
  assumes "copy_contract cpy" "sync_inv v s" "kcan v t a s" "kexec v cpy t a s = Some s'"
  shows "sync_inv v s'"
proof (cases a)
  case (Prepare kbuf alloc fault)
  then show ?thesis
    using assms(2-4) by (auto simp: kcan_def write_prepare_def intro!: inv_move)
next
  case (Measure count)
  then show ?thesis using assms(3,4) inv_measure [OF assms(2)] by (auto simp: kcan_def)
next
  case RLock
  then show ?thesis using assms(3,4) inv_read_lock [OF assms(2)] by (auto simp: kcan_def split: pcs.splits)
next
  case (RByte i)
  then show ?thesis using assms(3,4) inv_read_byte [OF assms(2)] by (auto simp: kcan_def split: pcs.splits)
next
  case RFail
  then show ?thesis using assms(3,4) inv_read_end(2) [OF assms(2)] by (auto simp: kcan_def split: pcs.splits)
next
  case RDone
  then show ?thesis using assms(3,4) inv_read_end(1) [OF assms(2)] by (auto simp: kcan_def split: pcs.splits)
next
  case WLock
  then show ?thesis using assms(3,4) inv_write_lock [OF assms(1,2)] by (auto simp: kcan_def split: pcs.splits)
next
  case (WByte i)
  then show ?thesis using assms(3,4) inv_write_byte [OF assms(2)] by (auto simp: kcan_def split: pcs.splits)
next
  case WDone
  then show ?thesis using assms(3,4) inv_write_done [OF assms(2)] by (auto simp: kcan_def split: pcs.splits)
qed (use assms(2,4) in \<open>auto simp: open_count_def close_count_def sync_inv_def locks_ok_def secret_ok_def counts_ok_def\<close>)

lemma kreach_inv:
  assumes "copy_contract cpy" "kreach v cpy s"
  shows "sync_inv v s"
  using assms(2)
proof induction
  case (start ret alloc s)
  then show ?case
    using sync_start_inv [OF assms(1)]
    by (cases v) (auto simp: miscdrv_init_mutexlock_def miscdrv_init_spinlock_def ENOMEM_def split: if_splits)
next
  case (step s t a s')
  then show ?case using sync_inv_step [OF assms(1)] by blast
qed

lemma kact_safe:
  assumes "sync_inv v s" "kcan v t a s"
  shows "\<exists>s'. kexec v cpy t a s = Some s'"
proof (cases a)
  case (Measure count)
  then have "0 \<in> set (secret s)"
    using assms free_secret by (auto simp: sync_inv_def kcan_def)
  then show ?thesis using Measure by (simp add: read_measure_def strlen_def)
next
  case (RByte i)
  then obtain n got where p: "pc s t = RCopy n got" "i < n"
    using assms(2) by (auto simp: kcan_def split: pcs.splits)
  moreover have "n < MAXBYTES" "length (secret s) = MAXBYTES"
    using assms(1) p(1) by (metis sync_inv_def pc_ok.simps(2), simp add: sync_inv_def secret_ok_def)
  ultimately show ?thesis using RByte by (simp add: read_byte_def)
qed (use assms(2) in \<open>auto simp: kcan_def split: pcs.splits\<close>)

lemma delivered_prefix:
  assumes "sync_inv Mutex s" "pc s t = RCopy n got" "list_all (\<lambda>i. map_of got i \<noteq> None) [0..<n]"
  shows "delivered n got = take n (secret s)"
proof (rule nth_equalityI)
  have ok: "n < MAXBYTES" "\<forall>i b. map_of got i = Some b \<longrightarrow> b = secret s ! i"
    using assms(1,2) by (metis sync_inv_def pc_ok.simps(2))+
  moreover have "length (secret s) = MAXBYTES" using assms(1) by (simp add: sync_inv_def secret_ok_def)
  ultimately show "length (delivered n got) = length (take n (secret s))" by (simp add: delivered_def)
  show "delivered n got ! i = take n (secret s) ! i" if "i < length (delivered n got)" for i
    using that ok(2) assms(3) by (auto simp: delivered_def list_all_iff)
qed

text \<open>Schedules: \<^term>\<open>None\<close> when an action is not possible or faults.\<close>

fun krun :: "variant \<Rightarrow> str_copy \<Rightarrow> (nat \<times> kact) list \<Rightarrow> sync \<Rightarrow> sync option" where
  "krun v cpy [] s = Some s"
| "krun v cpy ((t, a) # as) s = (if kcan v t a s then kexec v cpy t a s \<bind> krun v cpy as else None)"

lemma krun_reach: "\<lbrakk>krun v cpy as s = Some s'; kreach v cpy s\<rbrakk> \<Longrightarrow> kreach v cpy s'"
proof (induction as arbitrary: s)
  case (Cons ta as)
  obtain t a where ta: "ta = (t, a)" by (cases ta)
  then obtain s1 where "kcan v t a s" "kexec v cpy t a s = Some s1" "krun v cpy as s1 = Some s'"
    using Cons.prems(1) by (auto split: if_splits bind_splits)
  then show ?case using Cons.IH Cons.prems(2) kreach.step by blast
qed simp

text \<open>Thread 0 measures; thread 1 stores \<^verbatim>\<open>"ab"\<close>; thread 0 copies.\<close>

definition stale_length :: "(nat \<times> kact) list" where
  "stale_length =
     [(0, Measure 128), (1, Prepare [97, 98, 0] True False), (1, WLock), (1, WByte 0), (1, WByte 1), (1, WByte 2), (1, WDone), (0, RLock)]
     @ map (\<lambda>i. (0, RByte i)) [0..<7] @ [(0, RDone)]"

text \<open>Thread 0 has copied one byte when thread 1 stores \<^verbatim>\<open>"private"\<close>.\<close>

definition torn_copy :: "(nat \<times> kact) list" where
  "torn_copy =
     [(0, Measure 128), (0, RLock), (0, RByte 1), (1, Prepare [112, 114, 105, 118, 97, 116, 101, 0] True False), (1, WLock)]
     @ map (\<lambda>i. (1, WByte i)) [0..<8] @ [(1, WDone), (0, RByte 0)] @ map (\<lambda>i. (0, RByte i)) [2..<7] @ [(0, RDone)]"

text \<open>
  C5: for both drivers and every interleaving of opens, reads, writes and closes by any number of threads,
  with every byte copied on its own: the secret stays an array of 128 bytes, terminated whenever no
  write is under way; at most one thread writes it; no possible action faults, so no read leaves
  the array; \<^verbatim>\<open>ga + gb\<close> is 1, and the counters are the sums of what was read and written.  In the driver with
  one mutex, a read that ends delivers the first bytes of the secret as it is at that moment.
\<close>

theorem sync_safe:
  assumes "copy_contract cpy" "kreach v cpy s"
  shows "length (secret s) = 128 \<and> (holder s = None \<longrightarrow> 0 \<in> set (secret s))
    \<and> (\<forall>t u. writer (pc s t) \<and> writer (pc s u) \<longrightarrow> t = u)
    \<and> (\<forall>t a. kcan v t a s \<longrightarrow> (\<exists>s'. kexec v cpy t a s = Some s'))
    \<and> counts_ok s
    \<and> (\<forall>t n got. v = Mutex \<and> pc s t = RCopy n got \<and> kcan v t RDone s \<longrightarrow>
         n \<le> length (secret s) \<and> sent (read_done v n got t s) = take n (secret s) # sent s)"
proof (intro conjI allI impI)
  have inv: "sync_inv v s" by (rule kreach_inv [OF assms])
  then show len: "length (secret s) = 128" and "counts_ok s"
    by (simp_all add: sync_inv_def secret_ok_def MAXBYTES_def)
  show "0 \<in> set (secret s)" if "holder s = None"
    using free_secret inv that by (auto simp: sync_inv_def)
  show "t = u" if "writer (pc s t) \<and> writer (pc s u)" for t u
    using that inv holds_writer [of "pc s t" v] holds_writer [of "pc s u" v] by (auto simp: sync_inv_def locks_ok_def)
  show "\<exists>s'. kexec v cpy t a s = Some s'" if "kcan v t a s" for t a
    by (rule kact_safe [OF inv that])
  fix t n got
  assume p: "v = Mutex \<and> pc s t = RCopy n got \<and> kcan v t RDone s"
  then have "n < MAXBYTES" using inv by (metis sync_inv_def pc_ok.simps(2))
  then show "n \<le> length (secret s)" by (simp add: len MAXBYTES_def)
  show "sent (read_done v n got t s) = take n (secret s) # sent s"
    using p inv delivered_prefix [of s t n got] by (auto simp: read_done_def kcan_def)
qed

theorem sync_safe_witness:
  "\<exists>s. krun Mutex bytewise_copy [(0, Measure 128), (0, RLock), (0, RByte 3)] (sync_start bytewise_copy) = Some s
     \<and> pc s 0 = RCopy 7 [(3, 116)] \<and> (\<exists>s'. kexec Mutex bytewise_copy 0 (RByte 6) s = Some s')"
proof -
  let ?as = "[(0, Measure 128), (0, RLock), (0, RByte 3)]"
  have "map_option (\<lambda>s. pc s 0) (krun Mutex bytewise_copy ?as (sync_start bytewise_copy)) = Some (RCopy 7 [(3, 116)])"
    by code_simp
  then obtain s where s: "krun Mutex bytewise_copy ?as (sync_start bytewise_copy) = Some s" "pc s 0 = RCopy 7 [(3, 116)]"
    by auto
  have "kreach Mutex bytewise_copy (sync_start bytewise_copy)"
    by (rule kreach.start [of _ _ 0 True]) (simp add: miscdrv_init_mutexlock_def)
  then have "kreach Mutex bytewise_copy s" by (rule krun_reach [OF s(1)])
  moreover have "kcan Mutex 0 (RByte 6) s" using s(2) by (simp add: kcan_def)
  ultimately have "\<exists>s'. kexec Mutex bytewise_copy 0 (RByte 6) s = Some s'"
    using sync_safe [OF bytewise_copy_contract, of Mutex s] by blast
  then show ?thesis using s by blast
qed


end
