(* ===== verification/KFs.thy ===== *)
theory KFs
  imports KMisc
begin

text \<open>
  The modules that show a driver context and a debug level through kernel file systems:
  \<^verbatim>\<open>kfsproc/procfs_if.c\<close>, \<^verbatim>\<open>kfssys/sysfs_if.c\<close> and \<^verbatim>\<open>kfsdebug/debugfs_if.c\<close>, and the ioctl interface of
  \<^verbatim>\<open>kioctl/k/ioctl_llkd_kdrv.c\<close>.

  The state of a module is the entries it has in the file system, its memory, and its globals.  What the
  kernel answers (whether an entry can be created, an allocation succeeds, a lock is interrupted) is an
  argument.  Freeing a block that is not allocated, and reading one, is \<^term>\<open>None\<close>.  The number parsers
  \<^verbatim>\<open>kstrtoint\<close> and \<^verbatim>\<open>kstrtoul\<close> are parameters: an error code, or a number in the range of the type; the result
  is stored on success only.  Every operation holds the module's mutex, so each is one step.
\<close>

section \<open>State\<close>

definition ERESTARTSYS :: int where
  "ERESTARTSYS = 512"

record pdrv_ctx = drv_ctx +
  power :: u32

record fs =
  entries :: "string list"
  blocks :: "nat \<rightharpoonup> pdrv_ctx"
  fresh :: nat
  gdrvctx :: "nat option"
  debug_level :: int
  gpressure :: u32

definition fs_start :: fs where
  "fs_start = \<lparr>entries = [], blocks = Map.empty, fresh = 0, gdrvctx = None, debug_level = 0, gpressure = 0\<rparr>"

text \<open>The context behind the global pointer; \<^verbatim>\<open>kfree\<close> of it; \<^verbatim>\<open>kfree\<close> of a null pointer does nothing.\<close>

definition context_of :: "fs \<Rightarrow> pdrv_ctx option" where
  "context_of s = gdrvctx s \<bind> blocks s"

definition kfree_ctx :: "fs \<Rightarrow> fs option" where
  "kfree_ctx s =
     (case gdrvctx s of
        None \<Rightarrow> Some s
      | Some p \<Rightarrow> if blocks s p = None then None else Some (s\<lparr>blocks := (blocks s)(p := None)\<rparr>))"

definition set_context :: "pdrv_ctx \<Rightarrow> fs \<Rightarrow> fs option" where
  "set_context c s = do { p \<leftarrow> gdrvctx s; _ \<leftarrow> blocks s p; Some (s\<lparr>blocks := (blocks s)(p \<mapsto> c)\<rparr>) }"

section \<open>procfs\<close>

type_synonym parser = "u8 list \<Rightarrow> int + int"

definition kstrtoint_contract :: "parser \<Rightarrow> bool" where
  "kstrtoint_contract p \<longleftrightarrow> (\<forall>str. case p str of Inl e \<Rightarrow> e < 0 | Inr n \<Rightarrow> - 2147483648 \<le> n \<and> n \<le> 2147483647)"

definition kstrtoul_contract :: "parser \<Rightarrow> bool" where
  "kstrtoul_contract p \<longleftrightarrow> (\<forall>str. case p str of Inl e \<Rightarrow> e < 0 | Inr n \<Rightarrow> 0 \<le> n \<and> n < 2 ^ 64)"

text \<open>The buffer with its last byte overwritten by NUL, as a C string.\<close>

definition buf_string :: "u8 list \<Rightarrow> u8 list" where
  "buf_string ubuf = takeWhile (\<lambda>b. b \<noteq> 0) (take (length ubuf - 1) ubuf)"

definition proc_show_config1 :: "bool \<Rightarrow> fs \<Rightarrow> (int \<times> u32 list) option" where
  "proc_show_config1 intr s = (if intr then Some (- ERESTARTSYS, []) else do { c \<leftarrow> context_of s; Some (0, [config1 c]) })"

definition myproc_write_config1 :: "parser \<Rightarrow> bool \<Rightarrow> bool \<Rightarrow> u8 list \<Rightarrow> fs \<Rightarrow> (int \<times> fs) option" where
  "myproc_write_config1 kstrtoul intr fault ubuf s =
     (if intr then Some (- ERESTARTSYS, s)
      else if length ubuf = 0 \<or> length ubuf > 8 then Some (- EINVAL, s)
      else if fault then Some (- EFAULT, s)
      else case kstrtoul (buf_string ubuf) of
        Inl e \<Rightarrow> Some (e, s)
      | Inr configval \<Rightarrow>
          do {
            c \<leftarrow> context_of s;
            s \<leftarrow> set_context (c\<lparr>config1 := word_of_int configval\<rparr>) s;
            Some (int (length ubuf), s\<lparr>debug_level := sint (word_of_int configval :: u32)\<rparr>)
          })"

definition proc_show_drvctx :: "bool \<Rightarrow> fs \<Rightarrow> (int \<times> pdrv_ctx list) option" where
  "proc_show_drvctx intr s = (if intr then Some (- ERESTARTSYS, []) else do { c \<leftarrow> context_of s; Some (0, [c]) })"

definition DEBUG_LEVEL_MIN :: int where
  "DEBUG_LEVEL_MIN = 0"

definition DEBUG_LEVEL_MAX :: int where
  "DEBUG_LEVEL_MAX = 2"

definition myproc_write_debug_level :: "parser \<Rightarrow> bool \<Rightarrow> bool \<Rightarrow> u8 list \<Rightarrow> fs \<Rightarrow> (int \<times> fs) option" where
  "myproc_write_debug_level kstrtoint intr fault ubuf s =
     (if intr then Some (- ERESTARTSYS, s)
      else if length ubuf = 0 \<or> length ubuf > 12 then Some (- EINVAL, s)
      else if fault then Some (- EFAULT, s)
      else case kstrtoint (buf_string ubuf) of
        Inl e \<Rightarrow> Some (e, s)
      | Inr n \<Rightarrow>
          if n < DEBUG_LEVEL_MIN \<or> n > DEBUG_LEVEL_MAX then Some (- EFAULT, s\<lparr>debug_level := DEBUG_LEVEL_MIN\<rparr>)
          else do {
            c \<leftarrow> context_of s;
            s \<leftarrow> set_context (c\<lparr>config1 := word_of_int n\<rparr>) (s\<lparr>debug_level := n\<rparr>);
            Some (int (length ubuf), s)
          })"

definition proc_show_debug_level :: "bool \<Rightarrow> fs \<Rightarrow> int \<times> int list" where
  "proc_show_debug_level intr s = (if intr then (- ERESTARTSYS, []) else (0, [debug_level s]))"

text \<open>\<^verbatim>\<open>"AhA xxx"\<close> and \<^verbatim>\<open>"AhA yyy"\<close>.\<close>

definition init_secret :: "u8 \<Rightarrow> u8 list" where
  "init_secret x = [65, 104, 65, 32, x, x, x, 0] @ replicate 120 0"

definition alloc_init_drvctx :: "u8 \<Rightarrow> u64 \<Rightarrow> fs \<Rightarrow> fs" where
  "alloc_init_drvctx x c3 s =
     s\<lparr>blocks := (blocks s)(fresh s \<mapsto>
         \<lparr>tx = 0, rx = 0, err = 0, myword = 0, config1 = 0, config2 = 0x48524a5f, config3 = c3, oursecret = init_secret x, power = 1\<rparr>),
       gdrvctx := Some (fresh s), fresh := fresh s + 1\<rparr>"

record proc_answers =
  proc_fs :: bool
  mkdir_ok :: bool
  create1 :: bool
  create2 :: bool
  ctx_alloc :: bool
  create3 :: bool
  create4 :: bool

definition add_entry :: "string \<Rightarrow> fs \<Rightarrow> fs" where
  "add_entry n s = s\<lparr>entries := n # entries s\<rparr>"

definition remove_proc_subtree :: "fs \<Rightarrow> fs" where
  "remove_proc_subtree s = s\<lparr>entries := []\<rparr>"

definition procfs_fail_3 :: "fs \<Rightarrow> fs option" where
  "procfs_fail_3 s = do { s \<leftarrow> kfree_ctx s; Some (remove_proc_subtree s) }"

definition procfs_if_init :: "proc_answers \<Rightarrow> fs \<Rightarrow> (int \<times> fs) option" where
  "procfs_if_init a s =
     (if \<not> proc_fs a then Some (- EINVAL, s)
      else if \<not> mkdir_ok a then Some (- ENOMEM, s)
      else let s = add_entry ''procfs_if'' s in
        if \<not> create1 a then Some (- ENOMEM, s)
        else let s = add_entry ''llkdproc_debug_level'' s in
          if \<not> create2 a then Some (- ENOMEM, remove_proc_subtree s)
          else let s = add_entry ''llkdproc_show_pgoff'' s in
            if \<not> ctx_alloc a then Some (- ENOMEM, remove_proc_subtree s)
            else let s = alloc_init_drvctx 120 0x424c0a52 s in
              if \<not> create3 a then do { s \<leftarrow> procfs_fail_3 s; Some (- ENOMEM, s) }
              else let s = add_entry ''llkdproc_show_drvctx'' s in
                if \<not> create4 a then do { s \<leftarrow> procfs_fail_3 s; Some (- ENOMEM, s) }
                else Some (0, add_entry ''llkdproc_config1'' s))"

definition procfs_if_cleanup :: "fs \<Rightarrow> fs option" where
  "procfs_if_cleanup s =
     do {
       c \<leftarrow> context_of s;
       s \<leftarrow> set_context (c\<lparr>power := 0\<rparr>) s;
       kfree_ctx (remove_proc_subtree s)
     }"

section \<open>sysfs\<close>

definition llkdsysfs_pressure_show :: "bool \<Rightarrow> fs \<Rightarrow> int \<times> u32 list" where
  "llkdsysfs_pressure_show intr s = (if intr then (- ERESTARTSYS, []) else (0, [gpressure s]))"

definition llkdsysfs_debug_level_show :: "bool \<Rightarrow> fs \<Rightarrow> int \<times> int list" where
  "llkdsysfs_debug_level_show intr s = (if intr then (- ERESTARTSYS, []) else (0, [debug_level s]))"

text \<open>The buffer of a store is the kernel's, with a NUL behind it.\<close>

definition llkdsysfs_debug_level_store :: "parser \<Rightarrow> bool \<Rightarrow> u8 list \<Rightarrow> fs \<Rightarrow> int \<times> fs" where
  "llkdsysfs_debug_level_store kstrtoint intr buf s =
     (if intr then (- ERESTARTSYS, s)
      else let prev_dbglevel = debug_level s in
        if length buf = 0 \<or> length buf > 12 then (- EINVAL, s)
        else case kstrtoint (takeWhile (\<lambda>b. b \<noteq> 0) buf) of
          Inl e \<Rightarrow> (e, s)
        | Inr n \<Rightarrow>
            let s = s\<lparr>debug_level := n\<rparr> in
            if debug_level s < DEBUG_LEVEL_MIN \<or> debug_level s > DEBUG_LEVEL_MAX
            then (- EFAULT, s\<lparr>debug_level := prev_dbglevel\<rparr>)
            else (int (length buf), s))"

text \<open>The kernel's answers: an error code, or 0.\<close>

record sys_answers =
  sys_fs :: bool
  platdev :: int
  attr1 :: int
  attr2 :: int
  attr3 :: int

definition del_entry :: "string \<Rightarrow> fs \<Rightarrow> fs" where
  "del_entry n s = s\<lparr>entries := filter (\<lambda>m. m \<noteq> n) (entries s)\<rparr>"

definition sysfs_out2 :: "fs \<Rightarrow> fs" where
  "sysfs_out2 s = del_entry ''llkd_sysfs_if_device'' s"

definition sysfs_out3 :: "fs \<Rightarrow> fs" where
  "sysfs_out3 s = sysfs_out2 (del_entry ''SYSFS_FILE1'' s)"

definition sysfs_out4 :: "fs \<Rightarrow> fs" where
  "sysfs_out4 s = sysfs_out3 (del_entry ''llkdsysfs_pgoff'' s)"

definition sysfs_if_init :: "sys_answers \<Rightarrow> fs \<Rightarrow> int \<times> fs" where
  "sysfs_if_init a s =
     (if \<not> sys_fs a then (- EINVAL, s)
      else if platdev a \<noteq> 0 then (platdev a, s)
      else let s = add_entry ''llkd_sysfs_if_device'' s in
        if attr1 a \<noteq> 0 then (attr1 a, sysfs_out2 s)
        else let s = add_entry ''SYSFS_FILE1'' s in
          if attr2 a \<noteq> 0 then (attr2 a, sysfs_out3 s)
          else let s = (add_entry ''llkdsysfs_pgoff'' s)\<lparr>gpressure := 25\<rparr> in
            if attr3 a \<noteq> 0 then (attr3 a, sysfs_out4 s)
            else (0, add_entry ''llkdsysfs_pressure'' s))"

definition sysfs_if_cleanup :: "fs \<Rightarrow> fs" where
  "sysfs_if_cleanup s =
     del_entry ''llkd_sysfs_if_device'' (del_entry ''SYSFS_FILE1'' (del_entry ''llkdsysfs_pgoff'' (del_entry ''llkdsysfs_pressure'' s)))"

section \<open>debugfs\<close>

text \<open>What \<^verbatim>\<open>debugfs_create_dir\<close> and \<^verbatim>\<open>debugfs_create_file\<close> return: a null pointer, an error pointer, or an entry.\<close>

datatype answer = Null | ErrPtr | Entry

record debug_answers =
  debug_fs :: bool
  dir :: answer
  dctx_alloc :: bool
  file1 :: answer
  jiffies :: u64

definition created :: "answer \<Rightarrow> string \<Rightarrow> fs \<Rightarrow> fs" where
  "created a n s = (if a = Entry then add_entry n s else s)"

text \<open>\<^verbatim>\<open>PTR_ERR\<close> of a null pointer is 0.\<close>

definition debugfs_if_init :: "debug_answers \<Rightarrow> fs \<Rightarrow> (int \<times> fs) option" where
  "debugfs_if_init a s =
     (if \<not> debug_fs a then Some (- EINVAL, s)
      else if dir a = Null then Some (0, s)
      else let s = created (dir a) ''dbgfs_simple_intf'' s in
        if \<not> dctx_alloc a then Some (- ENOMEM, s\<lparr>entries := []\<rparr>)
        else let s = alloc_init_drvctx 121 (jiffies a) s in
          if file1 a = Null then do { s \<leftarrow> kfree_ctx s; Some (0, s\<lparr>entries := []\<rparr>) }
          else Some (0, add_entry ''llkd_dbgfs_debug_level'' (created (file1 a) ''llkd_dbgfs_show_drvctx'' s)))"

definition debugfs_if_cleanup :: "bool \<Rightarrow> fs \<Rightarrow> fs option" where
  "debugfs_if_cleanup cause_an_oops s =
     do { s \<leftarrow> kfree_ctx s; Some (if cause_an_oops then s else s\<lparr>entries := []\<rparr>) }"

definition dbgfs_show_drvctx :: "bool \<Rightarrow> u64 \<Rightarrow> fs \<Rightarrow> (int \<times> pdrv_ctx list \<times> fs) option" where
  "dbgfs_show_drvctx intr now s =
     (if intr then Some (- ERESTARTSYS, [], s)
      else do {
        c \<leftarrow> context_of s;
        s \<leftarrow> set_context (c\<lparr>config3 := now\<rparr>) s;
        Some (0, [c\<lparr>config3 := now\<rparr>], s)
      })"

section \<open>ioctl\<close>

definition ENOTTY :: int where
  "ENOTTY = 25"

definition EPERM :: int where
  "EPERM = 1"

definition ioc_type :: "u32 \<Rightarrow> u32" where
  "ioc_type cmd = drop_bit 8 cmd AND 0xff"

definition ioc_nr :: "u32 \<Rightarrow> u32" where
  "ioc_nr cmd = cmd AND 0xff"

definition IOCTL_LLKD_MAGIC :: u32 where
  "IOCTL_LLKD_MAGIC = 0xA8"

definition IOCTL_LLKD_MAXIOCTL :: u32 where
  "IOCTL_LLKD_MAXIOCTL = 3"

text \<open>\<^verbatim>\<open>_IO\<close>, \<^verbatim>\<open>_IOR\<close> and \<^verbatim>\<open>_IOW\<close> for an \<^verbatim>\<open>int\<close>.\<close>

definition ioc :: "u32 \<Rightarrow> u32 \<Rightarrow> u32 \<Rightarrow> u32" where
  "ioc d nr sz = push_bit 30 d OR push_bit 8 IOCTL_LLKD_MAGIC OR nr OR push_bit 16 sz"

definition IOCTL_LLKD_IOCRESET :: u32 where
  "IOCTL_LLKD_IOCRESET = ioc 0 0 0"

definition IOCTL_LLKD_IOCQPOWER :: u32 where
  "IOCTL_LLKD_IOCQPOWER = ioc 2 1 4"

definition IOCTL_LLKD_IOCSPOWER :: u32 where
  "IOCTL_LLKD_IOCSPOWER = ioc 1 2 4"

text \<open>
  The result, the value put to the user, and the power state.  \<^verbatim>\<open>admin\<close> is \<^verbatim>\<open>capable(CAP_SYS_ADMIN)\<close>, \<^verbatim>\<open>fault\<close> the result
  of \<^verbatim>\<open>__put_user\<close>.
\<close>

definition ioctl_intf_ioctl :: "bool \<Rightarrow> bool \<Rightarrow> u32 \<Rightarrow> u64 \<Rightarrow> u32 \<Rightarrow> int \<times> u32 option \<times> u32" where
  "ioctl_intf_ioctl admin fault cmd arg pw =
     (if ioc_type cmd \<noteq> IOCTL_LLKD_MAGIC then (- ENOTTY, None, pw)
      else if ioc_nr cmd > IOCTL_LLKD_MAXIOCTL then (- ENOTTY, None, pw)
      else if cmd = IOCTL_LLKD_IOCRESET then (0, None, pw)
      else if cmd = IOCTL_LLKD_IOCQPOWER then
        (if \<not> admin then (- EPERM, None, pw)
         else if fault then (- EFAULT, None, pw) else (0, Some pw, pw))
      else if cmd = IOCTL_LLKD_IOCSPOWER then
        (if \<not> admin then (- EPERM, None, pw) else (0, None, ucast arg))
      else (- ENOTTY, None, pw))"

definition ENXIO :: int where
  "ENXIO = 6"

definition ioctl_intf_open :: "nat \<Rightarrow> int" where
  "ioctl_intf_open minor = (if minor = 0 then 0 else - ENXIO)"

section \<open>Loading and unloading\<close>

lemmas proc_defs = procfs_if_init_def procfs_fail_3_def procfs_if_cleanup_def remove_proc_subtree_def alloc_init_drvctx_def
  add_entry_def kfree_ctx_def context_of_def set_context_def fs_start_def

lemmas sys_defs = sysfs_if_init_def sysfs_if_cleanup_def sysfs_out2_def sysfs_out3_def sysfs_out4_def add_entry_def del_entry_def fs_start_def

lemmas debug_defs = debugfs_if_init_def debugfs_if_cleanup_def created_def alloc_init_drvctx_def add_entry_def kfree_ctx_def fs_start_def

lemma procfs_unloads:
  "\<exists>r s. procfs_if_init a fs_start = Some (r, s)
     \<and> (if r = 0 then \<exists>s'. procfs_if_cleanup s = Some s' \<and> entries s' = [] \<and> blocks s' = Map.empty
        else blocks s = Map.empty \<and> entries s = (if proc_fs a \<and> mkdir_ok a \<and> \<not> create1 a then [''procfs_if''] else []))"
  by (auto simp: proc_defs Let_def EINVAL_def ENOMEM_def)

lemma sysfs_unloads: "sysfs_if_init b fs_start = (r, s) \<Longrightarrow> entries (if r = 0 then sysfs_if_cleanup s else s) = []"
  by (auto simp: sys_defs Let_def EINVAL_def split: if_splits)

lemma debugfs_unloads:
  "\<exists>r s. debugfs_if_init c fs_start = Some (r, s)
     \<and> (r = 0 \<longleftrightarrow> debug_fs c \<and> (dir c = Null \<or> dctx_alloc c))
     \<and> (r = 0 \<longrightarrow> (case debugfs_if_cleanup False s of
            None \<Rightarrow> dir c \<noteq> Null \<and> file1 c = Null
          | Some s' \<Rightarrow> entries s' = [] \<and> blocks s' = Map.empty \<and> \<not> (dir c \<noteq> Null \<and> file1 c = Null)))"
  by (auto simp: debug_defs Let_def EINVAL_def ENOMEM_def)

text \<open>
  Two modules free the context while a file that shows it is still there: the last failure path of
  \<^verbatim>\<open>procfs_if_init\<close>, and \<^verbatim>\<open>debugfs_if_cleanup\<close>.
\<close>

lemma freed_while_shown:
  assumes "''llkdproc_show_drvctx'' \<in> set (entries s)" "context_of s = Some c"
  shows "\<exists>s'. kfree_ctx s = Some s' \<and> ''llkdproc_show_drvctx'' \<in> set (entries s') \<and> proc_show_drvctx False s' = None
    \<and> dbgfs_show_drvctx False now s' = None"
  using assms by (auto simp: kfree_ctx_def context_of_def proc_show_drvctx_def dbgfs_show_drvctx_def split: option.splits bind_splits)

section \<open>The debug level\<close>

definition level_ok :: "fs \<Rightarrow> bool" where
  "level_ok s \<longleftrightarrow> DEBUG_LEVEL_MIN \<le> debug_level s \<and> debug_level s \<le> DEBUG_LEVEL_MAX"

text \<open>A store to the sysfs file keeps the level in its range: a number outside it is taken back.\<close>

lemma sysfs_level:
  "level_ok s \<Longrightarrow> level_ok (snd (llkdsysfs_debug_level_store p intr buf s))"
  by (auto simp: llkdsysfs_debug_level_store_def level_ok_def Let_def split: sum.splits)

lemma sysfs_level_runs: "level_ok s \<Longrightarrow> level_ok (fold (\<lambda>(intr, buf) s. snd (llkdsysfs_debug_level_store p intr buf s)) stores s)"
  by (induction stores arbitrary: s) (auto simp: sysfs_level)

text \<open>
  The procfs file of the level resets it; the file of \<^verbatim>\<open>config1\<close> sets the level to whatever was written.
\<close>

lemma procfs_level:
  "\<lbrakk>level_ok s; myproc_write_debug_level p intr fault ubuf s = Some (r, s')\<rbrakk> \<Longrightarrow> level_ok s'"
  by (auto simp: myproc_write_debug_level_def level_ok_def set_context_def DEBUG_LEVEL_MIN_def DEBUG_LEVEL_MAX_def
      split: if_splits sum.splits bind_splits)

lemma procfs_config1_level:
  assumes "context_of s = Some c" "p (buf_string ubuf) = Inr n" "0 < length ubuf" "length ubuf \<le> 8" "0 \<le> n" "n \<le> 2147483647"
  shows "\<exists>s'. myproc_write_config1 p False False ubuf s = Some (int (length ubuf), s') \<and> debug_level s' = n"
  using assms by (auto simp: myproc_write_config1_def set_context_def context_of_def signed_of_int signed_take_bit_int_eq_self split: bind_splits)

section \<open>ioctl\<close>

lemma ioctl_codes:
  "IOCTL_LLKD_IOCRESET = 0xA800" "IOCTL_LLKD_IOCQPOWER = 0x8004A801" "IOCTL_LLKD_IOCSPOWER = 0x4004A802"
  by (simp_all add: IOCTL_LLKD_IOCRESET_def IOCTL_LLKD_IOCQPOWER_def IOCTL_LLKD_IOCSPOWER_def ioc_def IOCTL_LLKD_MAGIC_def)

lemma ioctl_known: "ioc_type cmd = IOCTL_LLKD_MAGIC \<and> \<not> ioc_nr cmd > IOCTL_LLKD_MAXIOCTL"
  if "cmd = IOCTL_LLKD_IOCRESET \<or> cmd = IOCTL_LLKD_IOCQPOWER \<or> cmd = IOCTL_LLKD_IOCSPOWER"
  using that by (auto simp: ioctl_codes ioc_type_def ioc_nr_def IOCTL_LLKD_MAGIC_def IOCTL_LLKD_MAXIOCTL_def)

text \<open>Only the administrator changes or sees the power state, and sees what was set, cut to 32 bits.\<close>

lemma ioctl_set_query:
  "fst (ioctl_intf_ioctl admin fault IOCTL_LLKD_IOCSPOWER arg pw) = (if admin then 0 else - EPERM)"
  "ioctl_intf_ioctl True False IOCTL_LLKD_IOCQPOWER arg' (snd (snd (ioctl_intf_ioctl True fault IOCTL_LLKD_IOCSPOWER arg pw))) = (0, Some (ucast arg), ucast arg)"
  "\<not> admin \<Longrightarrow> snd (ioctl_intf_ioctl admin fault cmd arg pw) = (None, pw)"
  using ioctl_known [of IOCTL_LLKD_IOCSPOWER] ioctl_known [of IOCTL_LLKD_IOCQPOWER]
  by (simp_all add: ioctl_intf_ioctl_def ioctl_codes)

section \<open>What is left behind\<close>



end
