(* ===== verification/KNetfilter.thy ===== *)
theory KNetfilter
  imports HackPrelude
begin

text \<open>
  The netfilter hooks of \<^verbatim>\<open>knetfilter/knetfilter.c\<close>.  A packet is its bytes with the offsets of its network and
  transport headers, which the kernel has set; reading outside the bytes is \<^term>\<open>None\<close>.  The hooks that
  are registered run in the order of their priority until one drops the packet.
\<close>

record sk_buff =
  bytes :: packet
  network :: nat
  transport :: nat

datatype verdict = NF_ACCEPT | NF_DROP

definition ip_protocol :: "sk_buff \<Rightarrow> u8 option" where
  "ip_protocol skb = load8 (bytes skb) (network skb + 9)"

definition dest_port :: "sk_buff \<Rightarrow> u16 option" where
  "dest_port skb = map_option swap16 (load16 (bytes skb) (transport skb + 2))"

definition IPPROTO_ICMP :: u8 where
  "IPPROTO_ICMP = 1"

definition IPPROTO_TCP :: u8 where
  "IPPROTO_TCP = 6"

definition IPPROTO_UDP :: u8 where
  "IPPROTO_UDP = 17"

fun nf_blockport :: "sk_buff option \<Rightarrow> verdict option" where
  "nf_blockport None = Some NF_ACCEPT"
| "nf_blockport (Some skb) =
     do {
       proto \<leftarrow> ip_protocol skb;
       if proto = IPPROTO_TCP then do {
         dest \<leftarrow> dest_port skb;
         Some (if dest = 9999 then NF_DROP else NF_ACCEPT)
       }
       else Some NF_ACCEPT
     }"

fun nf_blockicmp :: "sk_buff option \<Rightarrow> verdict option" where
  "nf_blockicmp None = Some NF_ACCEPT"
| "nf_blockicmp (Some skb) =
     do {
       proto \<leftarrow> ip_protocol skb;
       if proto = IPPROTO_UDP then do {
         dest \<leftarrow> dest_port skb;
         Some (if dest = 53 then NF_ACCEPT else NF_ACCEPT)
       }
       else if proto = IPPROTO_TCP then Some NF_ACCEPT
       else if proto = IPPROTO_ICMP then Some NF_DROP
       else Some NF_ACCEPT
     }"

text \<open>The hooks with their priorities above \<^verbatim>\<open>NF_IP_PRI_FIRST\<close>, in the order in which they run.\<close>

type_synonym hook = "sk_buff option \<Rightarrow> verdict option"

record nf =
  hooks :: "(nat \<times> hook) list"
  icmp_ops :: bool
  port_ops :: bool

definition nf_start :: nf where
  "nf_start = \<lparr>hooks = [], icmp_ops = False, port_ops = False\<rparr>"

definition nf_register :: "nat \<Rightarrow> hook \<Rightarrow> (nat \<times> hook) list \<Rightarrow> (nat \<times> hook) list" where
  "nf_register prio h hs = insort_key fst (prio, h) hs"

definition nf_knetfilter_init :: "bool \<Rightarrow> bool \<Rightarrow> nf \<Rightarrow> nf" where
  "nf_knetfilter_init alloc1 alloc2 s =
     (let s = (if alloc1 then s\<lparr>hooks := nf_register 0 nf_blockicmp (hooks s), icmp_ops := True\<rparr> else s)
      in if alloc2 then s\<lparr>hooks := nf_register 1 nf_blockport (hooks s), port_ops := True\<rparr> else s)"

definition nf_knetfilter_exit :: "nf \<Rightarrow> nf" where
  "nf_knetfilter_exit s =
     (let s = (if icmp_ops s then s\<lparr>hooks := filter (\<lambda>(p, h). p \<noteq> 0) (hooks s)\<rparr> else s)
      in if port_ops s then s\<lparr>hooks := filter (\<lambda>(p, h). p \<noteq> 1) (hooks s)\<rparr> else s)"

fun nf_hook_slow :: "(nat \<times> hook) list \<Rightarrow> sk_buff \<Rightarrow> verdict option" where
  "nf_hook_slow [] skb = Some NF_ACCEPT"
| "nf_hook_slow ((p, h) # hs) skb =
     do { v \<leftarrow> h (Some skb); if v = NF_DROP then Some NF_DROP else nf_hook_slow hs skb }"

section \<open>Verdicts\<close>

definition headers_in :: "sk_buff \<Rightarrow> bool" where
  "headers_in skb \<longleftrightarrow> network skb + 20 \<le> length (bytes skb) \<and> transport skb + 4 \<le> length (bytes skb)"

lemma headers_loads:
  assumes "headers_in skb"
  obtains proto dest where "ip_protocol skb = Some proto" "dest_port skb = Some dest"
  using assms that by (auto simp: headers_in_def ip_protocol_def dest_port_def load8_def load16_def)

text \<open>
  With both hooks registered, a packet with its headers in memory is dropped exactly when it is ICMP, or TCP to
  port 9999; with one allocation failed, only the other rule applies.
\<close>

lemma knetfilter_verdict:
  assumes "headers_in skb" "ip_protocol skb = Some proto" "dest_port skb = Some dest"
  shows "nf_hook_slow (hooks (nf_knetfilter_init alloc1 alloc2 nf_start)) skb =
    Some (if alloc1 \<and> proto = 1 \<or> alloc2 \<and> proto = 6 \<and> dest = 9999 then NF_DROP else NF_ACCEPT)"
  using assms
  by (auto simp: nf_knetfilter_init_def nf_register_def nf_start_def IPPROTO_ICMP_def IPPROTO_TCP_def IPPROTO_UDP_def Let_def)

lemma knetfilter_exit: "hooks (nf_knetfilter_exit (nf_knetfilter_init alloc1 alloc2 nf_start)) = []"
  by (auto simp: nf_knetfilter_init_def nf_knetfilter_exit_def nf_register_def nf_start_def Let_def)

text \<open>The hooks do not check that the headers are in memory.\<close>

lemma knetfilter_short: "nf_blockport (Some \<lparr>bytes = replicate 9 0 @ [6], network = 0, transport = 20\<rparr>) = None"
  by (simp add: ip_protocol_def dest_port_def load8_def load16_def IPPROTO_TCP_def nth_append)

end
