(* ===== verification/CSmall.thy ===== *)
theory CSmall
  imports KMisc AlgoNumbers
begin

text \<open>
  Two small C programs: the hexadecimal encoder and decoder of \<^verbatim>\<open>hex/\<close>, on byte arrays with checked
  accesses, and the table of \<^verbatim>\<open>hashmap/main.c\<close>, with checked \<^verbatim>\<open>int\<close> arithmetic and C's remainder.

  Of \<^verbatim>\<open>sscanf\<close> with \<^verbatim>\<open>"%2x"\<close>, a parameter, only what it does on two hexadecimal digits is used; otherwise
  it leaves or sets the number as it likes.
\<close>

section \<open>hex\<close>

definition put :: "u8 list \<Rightarrow> nat \<Rightarrow> u8 \<Rightarrow> u8 list option" where
  "put xs i x = (if i < length xs then Some (xs[i := x]) else None)"

definition hexdigit :: "nat \<Rightarrow> u8" where
  "hexdigit d = of_nat (if d < 10 then 48 + d else 55 + d)"

text \<open>\<^verbatim>\<open>sprintf\<close> with \<^verbatim>\<open>"%02X"\<close> stores two digits and a NUL.\<close>

fun hex_loop :: "u8 list \<Rightarrow> nat \<Rightarrow> u8 list \<Rightarrow> u8 list option" where
  "hex_loop [] i hexarray = Some hexarray"
| "hex_loop (b # bs) i hexarray =
     do {
       hexarray \<leftarrow> put hexarray (2 * i) (hexdigit (unat b div 16));
       hexarray \<leftarrow> put hexarray (2 * i + 1) (hexdigit (unat b mod 16));
       hexarray \<leftarrow> put hexarray (2 * i + 2) 0;
       hex_loop bs (Suc i) hexarray
     }"

definition bin2hex :: "u8 list \<Rightarrow> u8 list option" where
  "bin2hex bytearray = hex_loop bytearray 0 (replicate (2 * length bytearray + 1) 0)"

type_synonym scanner = "u8 list \<Rightarrow> nat \<Rightarrow> nat"

definition scan_contract :: "scanner \<Rightarrow> bool" where
  "scan_contract scan \<longleftrightarrow> (\<forall>d e rest n. d < 16 \<longrightarrow> e < 16 \<longrightarrow> scan (hexdigit d # hexdigit e # rest) n = 16 * d + e)"

fun bin_loop :: "scanner \<Rightarrow> u8 list \<Rightarrow> nat \<Rightarrow> nat \<Rightarrow> nat \<Rightarrow> u8 list" where
  "bin_loop scan str 0 i n = []"
| "bin_loop scan str (Suc m) i n = (let n = scan (drop (2 * i) str) n in of_nat n # bin_loop scan str m (Suc i) n)"

definition hex2bin :: "scanner \<Rightarrow> u8 list \<Rightarrow> u8 list option" where
  "hex2bin scan hexarray =
     do {
       hexlen \<leftarrow> strlen hexarray;
       Some (bin_loop scan (take hexlen hexarray) (hexlen div 2) 0 0)
     }"

definition hexpair :: "u8 \<Rightarrow> u8 list" where
  "hexpair b = [hexdigit (unat b div 16), hexdigit (unat b mod 16)]"

lemma length_hexpairs [simp]: "length (concat (map hexpair bs)) = 2 * length bs"
  by (induction bs) (auto simp: hexpair_def)

lemma hexdigit_nonzero: "d < 16 \<Longrightarrow> hexdigit d \<noteq> 0"
  unfolding hexdigit_def word_of_nat_eq_0_iff by (auto dest!: dvd_imp_le split: if_splits)

lemma hexpairs_nonzero: "0 \<notin> set (concat (map hexpair bs))"
proof -
  have "unat b div 16 < 16" for b :: u8 using unat_u8_less [of b] by simp
  then show ?thesis by (auto simp: hexpair_def hexdigit_nonzero dest!: sym [of 0])
qed

lemma hex_loop_ok:
  "\<lbrakk>length pre = 2 * i; length rest = 2 * length bs\<rbrakk> \<Longrightarrow>
     hex_loop bs i (pre @ 0 # rest) = Some (pre @ concat (map hexpair bs) @ [0])"
proof (induction bs arbitrary: i pre rest)
  case (Cons b bs)
  then obtain x y rest' where r: "rest = x # y # rest'"
    by (cases rest; cases "tl rest") auto
  have "hex_loop (b # bs) i (pre @ 0 # rest) = hex_loop bs (Suc i) ((pre @ hexpair b) @ 0 # rest')"
    using Cons.prems(1) unfolding r hexpair_def
    by (simp add: put_def list_update_append)
  also have "\<dots> = Some ((pre @ hexpair b) @ concat (map hexpair bs) @ [0])"
    by (rule Cons.IH) (use Cons.prems r in \<open>simp_all add: hexpair_def\<close>)
  finally show ?case by simp
qed simp

lemma bin2hex_ok: "bin2hex bs = Some (concat (map hexpair bs) @ [0])"
  using hex_loop_ok [of "[]" 0 "replicate (2 * length bs) 0" bs] by (simp add: bin2hex_def)

lemma bin_loop_ok:
  assumes "scan_contract scan"
  shows "length pre = 2 * i \<Longrightarrow> bin_loop scan (pre @ concat (map hexpair bs)) (length bs) i n = bs"
proof (induction bs arbitrary: i pre n)
  case (Cons b bs)
  have "unat b div 16 < 16" using unat_u8_less [of b] by simp
  then have s: "scan (drop (2 * i) (pre @ concat (map hexpair (b # bs)))) n = unat b"
    using assms Cons.prems by (simp add: scan_contract_def hexpair_def)
  have "bin_loop scan ((pre @ hexpair b) @ concat (map hexpair bs)) (length bs) (Suc i) (unat b) = bs"
    by (rule Cons.IH) (simp add: Cons.prems hexpair_def)
  then show ?case using s by (simp add: Let_def)
qed simp

text \<open>The decoder undoes the encoder, for every array of bytes, and neither leaves its buffer.\<close>

lemma hex_round_trip:
  assumes "scan_contract scan"
  shows "bin2hex bs \<bind> hex2bin scan = Some bs"
proof -
  let ?h = "concat (map hexpair bs)"
  have "strlen (?h @ [0]) = Some (2 * length bs)"
    using takeWhile_nul [OF hexpairs_nonzero, of bs "[]"] by (simp add: strlen_def)
  then show ?thesis
    using bin_loop_ok [OF assms, of "[]" 0 bs 0] by (simp add: bin2hex_ok hex2bin_def)
qed

text \<open>
  What the decoder returns has no NUL behind it, and none in it unless the bytes had one: \<^verbatim>\<open>main\<close>, which
  prints it as a string, reads past its end.
\<close>

lemma decoded_unterminated: "scan_contract scan \<Longrightarrow> 0 \<notin> set bs \<Longrightarrow> bin2hex bs \<bind> hex2bin scan \<bind> strlen = None"
  by (simp add: hex_round_trip strlen_def)

section \<open>hashmap\<close>

definition SIZE_OF_MAP :: int where
  "SIZE_OF_MAP = 1024"

record Key =
  kx :: int
  ky :: int
  ki :: int
  kj :: int

record Map =
  assigned :: int
  key :: Key
  val :: int

definition get_hash :: "Key \<Rightarrow> int option" where
  "get_hash k =
     do {
       ii \<leftarrow> c_int (ki k * ki k);
       xx \<leftarrow> c_int (kx k * kx k);
       s \<leftarrow> c_int (ii + xx);
       yy \<leftarrow> c_int (ky k * ky k);
       result \<leftarrow> c_int (s - yy);
       Some (result smod SIZE_OF_MAP)
     }"

definition map_get :: "Key \<Rightarrow> Map list \<Rightarrow> int option" where
  "map_get k m = do { hashval \<leftarrow> get_hash k; e \<leftarrow> vget m hashval; Some (val e) }"

definition map_set :: "Key \<Rightarrow> int \<Rightarrow> Map list \<Rightarrow> (int \<times> Map list) option" where
  "map_set k v m =
     do {
       hashval \<leftarrow> get_hash k;
       m \<leftarrow> vset m hashval \<lparr>assigned = 1, key = k, val = v\<rparr>;
       Some (hashval, m)
     }"

lemma get_hash_bound: "get_hash k = Some h \<Longrightarrow> h < 1024"
proof -
  have "a smod 1024 < 1024" for a :: int using smod_int_range [of 1024 a] by simp
  then show "get_hash k = Some h \<Longrightarrow> h < 1024" by (auto simp: get_hash_def SIZE_OF_MAP_def split: bind_splits)
qed

text \<open>
  A key whose hash is not negative is found again; keys with another hash keep their values, and every key
  with the same hash gets the new one: the table does not compare keys.
\<close>

lemma map_set_get:
  assumes "length m = 1024" "get_hash k = Some h" "0 \<le> h"
  shows "\<exists>m'. map_set k v m = Some (h, m') \<and> length m' = 1024
    \<and> (\<forall>k' h'. get_hash k' = Some h' \<longrightarrow> map_get k' m' = (if h' = h then Some v else map_get k' m))"
proof -
  let ?m' = "m[nat h := \<lparr>assigned = 1, key = k, val = v\<rparr>]"
  have h: "h < 1024" using get_hash_bound [OF assms(2)] .
  then have "map_set k v m = Some (h, ?m')"
    using assms by (simp add: map_set_def vset_def)
  moreover have "map_get k' ?m' = (if h' = h then Some v else map_get k' m)" if "get_hash k' = Some h'" for k' h'
    using that h assms(1,3) by (auto simp: map_get_def vget_def nth_list_update nat_eq_iff)
  ultimately show ?thesis using assms(1) by auto
qed

text \<open>C's remainder of a negative number is negative: the access is then outside the table.\<close>

lemma map_negative_hash:
  assumes "get_hash k = Some h" "h < 0"
  shows "map_get k m = None \<and> map_set k v m = None"
  using assms by (simp add: map_get_def map_set_def vget_def vset_def)

lemma get_hash_examples:
  "get_hash \<lparr>kx = 1, ky = 2, ki = 3, kj = 4\<rparr> = Some 6"
  "get_hash \<lparr>kx = 1, ky = 2, ki = 0, kj = 4\<rparr> = Some (- 3)"
  "get_hash (k\<lparr>kj := a\<rparr>) = get_hash (k\<lparr>kj := b\<rparr>)"
  by (simp_all add: get_hash_def SIZE_OF_MAP_def signed_modulo_int_def)

end
