(* ===== verification/CCatWc.thy ===== *)
theory CCatWc
  imports CText
begin

text \<open>
  The programs \<^verbatim>\<open>cat/\<close> and \<^verbatim>\<open>wc/\<close>.  Both read a file into a buffer of exactly its size and then treat the
  buffer as a C string.  A block of memory is the list of its characters; a string function that finds no NUL in
  its block, and a use of a buffer that was never set, are \<^term>\<open>None\<close>.  Allocations succeed.
\<close>

section \<open>Reading a file\<close>

text \<open>What the library calls answer; \<^term>\<open>fsize\<close> is the result of \<^verbatim>\<open>ftell\<close>.\<close>

record file_answers =
  fopen_ok :: bool
  seek_end_ok :: bool
  fsize :: int
  seek_set_ok :: bool
  contents :: string
  read_error :: bool

text \<open>The status and, if it was set, the buffer and the number of bytes read.\<close>

definition get_file :: "file_answers \<Rightarrow> int \<times> (string \<times> nat) option" where
  "get_file f =
     (if \<not> fopen_ok f then (- 1, None)
      else if \<not> seek_end_ok f then (0, None)
      else if fsize f = - 1 then (- 2, None)
      else if \<not> seek_set_ok f then (- 3, None)
      else let bufsize = nat (fsize f); got = take bufsize (contents f); buff = got @ replicate (bufsize - length got) (CHR 0x00) in
        if read_error f then (- 4, Some (buff, 0))
        else (int (length got), Some (buff, length got)))"

definition BITCAT_GetFileIntoBuffer :: "file_answers \<Rightarrow> int \<times> string option" where
  "BITCAT_GetFileIntoBuffer f = (case get_file f of (st, b) \<Rightarrow> (st, map_option fst b))"

definition WC_get_buff_from_file_path :: "file_answers \<Rightarrow> int \<times> (string \<times> nat) option" where
  "WC_get_buff_from_file_path f = get_file f"

definition c_text :: "string \<Rightarrow> string option" where
  "c_text b = (if CHR 0x00 \<in> set b then Some (takeWhile (\<lambda>c. c \<noteq> CHR 0x00) b) else None)"

section \<open>cat\<close>

datatype BITCAT_FLAG = EARG | GETFP string

definition BITCAT_FlagParser :: "string list \<Rightarrow> BITCAT_FLAG" where
  "BITCAT_FlagParser argv = (if length argv \<noteq> 2 then EARG else GETFP (argv ! 1))"

definition BITCAT_PrintBuffer :: "string \<Rightarrow> string option" where
  "BITCAT_PrintBuffer buff = c_text buff"

text \<open>The exit status and the output; \<^verbatim>\<open>answers\<close> gives what opening and reading a path answers.\<close>

definition cat_main :: "(string \<Rightarrow> file_answers) \<Rightarrow> string list \<Rightarrow> (int \<times> string) option" where
  "cat_main answers argv =
     (case BITCAT_FlagParser argv of
        EARG \<Rightarrow> Some (- 1, [])
      | GETFP path \<Rightarrow>
          (case BITCAT_GetFileIntoBuffer (answers path) of (status, buff) \<Rightarrow>
             if status < 0 then Some (status, [])
             else do { b \<leftarrow> buff; out \<leftarrow> BITCAT_PrintBuffer b; Some (0, out) }))"

section \<open>wc\<close>

definition WC_count_line_from_buff :: "nat \<Rightarrow> string \<Rightarrow> nat option" where
  "WC_count_line_from_buff byte_len buff = do { t \<leftarrow> c_text (take byte_len buff); Some (length (sep_all newline t)) }"

definition WC_count_word_from_buff :: "nat \<Rightarrow> string \<Rightarrow> nat option" where
  "WC_count_word_from_buff byte_len buff = do { t \<leftarrow> c_text (take byte_len buff); Some (length (tok_all (CHR '' '') t)) }"

text \<open>The lines, words and bytes printed, or nothing on an error.\<close>

definition WC_default_summary :: "file_answers \<Rightarrow> (nat \<times> nat \<times> nat) list option" where
  "WC_default_summary f =
     (case WC_get_buff_from_file_path f of (status, b) \<Rightarrow>
        if status < 0 then Some []
        else do {
          (buff, byte_len) \<leftarrow> b;
          lc \<leftarrow> WC_count_line_from_buff byte_len buff;
          wc \<leftarrow> WC_count_word_from_buff byte_len buff;
          Some [(lc, wc, byte_len)]
        })"

section \<open>What they do on a readable file\<close>

definition readable :: "file_answers \<Rightarrow> bool" where
  "readable f \<longleftrightarrow> fopen_ok f \<and> seek_end_ok f \<and> fsize f = int (length (contents f)) \<and> seek_set_ok f \<and> \<not> read_error f"

lemma get_file_readable: "readable f \<Longrightarrow> get_file f = (int (length (contents f)), Some (contents f, length (contents f)))"
  by (simp add: get_file_def readable_def Let_def)

text \<open>
  Neither program puts a NUL behind what it read: on every file without a NUL byte, an empty one included, both
  read past the end of their buffer; on a file with one, they see only what is in front of it.
\<close>

lemma cat_spec:
  assumes "readable (answers path)"
  shows "cat_main answers [prg, path] = map_option (Pair 0) (c_text (contents (answers path)))"
  using get_file_readable [OF assms]
  by (cases "c_text (contents (answers path))")
    (simp_all add: cat_main_def BITCAT_FlagParser_def BITCAT_GetFileIntoBuffer_def BITCAT_PrintBuffer_def)

lemma wc_spec:
  assumes "readable f"
  shows "WC_default_summary f =
    map_option (\<lambda>t. [(Suc (length (filter ((=) newline) t)), length (tok_all (CHR '' '') t), length (contents f))]) (c_text (contents f))"
  using get_file_readable [OF assms]
  by (cases "c_text (contents f)")
    (simp_all add: WC_default_summary_def WC_get_buff_from_file_path_def WC_count_line_from_buff_def WC_count_word_from_buff_def sep_all_length)

lemma no_nul_faults:
  assumes "readable (answers path)" "CHR 0x00 \<notin> set (contents (answers path))"
  shows "cat_main answers [prg, path] = None \<and> WC_default_summary (answers path) = None"
  using assms by (simp add: cat_spec wc_spec c_text_def)

text \<open>A file that cannot be positioned leaves the buffer unset, with a status that is not an error.\<close>

lemma unseekable_faults:
  assumes "fopen_ok (answers path)" "\<not> seek_end_ok (answers path)"
  shows "cat_main answers [prg, path] = None \<and> WC_default_summary (answers path) = None"
  using assms by (simp add: cat_main_def BITCAT_FlagParser_def BITCAT_GetFileIntoBuffer_def WC_default_summary_def
      WC_get_buff_from_file_path_def get_file_def)

end
