(* ===== verification/SockServers.thy ===== *)
theory SockServers
  imports KMisc
begin

text \<open>
  The echo servers \<^verbatim>\<open>sock-select-tcp/server_s.c\<close>, \<^verbatim>\<open>sock-poll-tcp/server_p.c\<close>, \<^verbatim>\<open>sock-epoll-tcp/server_ep.c\<close> with
  \<^verbatim>\<open>server_handle.c\<close>, and \<^verbatim>\<open>sock-thread-ctx-tcp/worker.c\<close> with \<^verbatim>\<open>server_thandle.c\<close>, and the client's
  \<^verbatim>\<open>connect_with_timeout\<close>.

  One iteration of a server's loop is a function of its state and of what the kernel answers in that iteration:
  the descriptors that are ready, the connections accepted, the bytes read.  A descriptor is a number; in the
  tables 0 marks a free slot, as in the source.  The state has the descriptors that are open and the
  messages sent.  An access outside a buffer is \<^term>\<open>None\<close>.
\<close>

section \<open>The reply\<close>

definition SIZE :: nat where
  "SIZE = 1024"

text \<open>A zeroed buffer after \<^verbatim>\<open>read\<close>; a failed read leaves it zero.\<close>

definition read_buffer :: "u8 list option \<Rightarrow> u8 list" where
  "read_buffer answer = (case answer of None \<Rightarrow> replicate SIZE 0 | Some d \<Rightarrow> d @ replicate (SIZE - length d) 0)"

definition c_string :: "u8 list \<Rightarrow> u8 list" where
  "c_string = takeWhile (\<lambda>b. b \<noteq> 0)"

definition strcat :: "u8 list \<Rightarrow> u8 list \<Rightarrow> u8 list option" where
  "strcat dst src =
     do {
       m \<leftarrow> strlen dst;
       n \<leftarrow> strlen src;
       if m + n < length dst then Some (take m dst @ take n src @ [0] @ drop (Suc (m + n)) dst) else None
     }"

definition reply :: "u8 list \<Rightarrow> u8 list \<Rightarrow> u8 list option" where
  "reply prefix buff = do { wbuff \<leftarrow> strcat (replicate SIZE 0) (prefix @ [0]); strcat wbuff buff }"

text \<open>\<^verbatim>\<open>"SERVER RESP: "\<close> and \<^verbatim>\<open>"SERVER ECHO: "\<close>.\<close>

definition RESP :: "u8 list" where
  "RESP = [83, 69, 82, 86, 69, 82, 32, 82, 69, 83, 80, 58, 32]"

definition ECHO :: "u8 list" where
  "ECHO = [83, 69, 82, 86, 69, 82, 32, 69, 67, 72, 79, 58, 32]"

section \<open>The server with select\<close>

datatype 'a phase = Exited | Serving 'a

definition MAX_CONN :: nat where
  "MAX_CONN = 80"

definition FD_SETSIZE :: nat where
  "FD_SETSIZE = 1024"

record select_server =
  sockfd :: nat
  client_socket :: "nat list"
  open_fds :: "nat set"
  outbox :: "(nat \<times> u8 list) list"

text \<open>
  The answers in one iteration.  When \<^verbatim>\<open>select\<close> fails (\<^term>\<open>None\<close>) it leaves the set as it was.  \<^term>\<open>closed\<close>
  tells whether the \<^verbatim>\<open>close\<close> of a refused connection succeeds, that is, returns 0.
\<close>

record select_answers =
  selected :: "nat list option"
  accepted :: "nat option"
  nonblock :: bool
  closed :: bool
  reads :: "nat \<Rightarrow> u8 list option"

definition readfds :: "select_server \<Rightarrow> nat list option" where
  "readfds s =
     (let fds = sockfd s # filter (\<lambda>sd. 0 < sd) (client_socket s) in
      if list_all (\<lambda>sd. sd < FD_SETSIZE) fds then Some fds else None)"

fun comm :: "(nat \<Rightarrow> u8 list option) \<Rightarrow> nat list \<Rightarrow> nat list \<Rightarrow> select_server \<Rightarrow> select_server option" where
  "comm rd fds [] s = Some s"
| "comm rd fds (i # is) s =
     (let sd = client_socket s ! i in
      if sd \<notin> set fds then comm rd fds is s
      else if rd sd = Some [] then
        comm rd fds is (s\<lparr>client_socket := (client_socket s)[i := 0], open_fds := open_fds s - {sd}\<rparr>)
      else do {
        wbuff \<leftarrow> reply RESP (read_buffer (rd sd));
        comm rd fds is (s\<lparr>outbox := outbox s @ [(sd, c_string wbuff)]\<rparr>)
      })"

definition free_slot :: "nat list \<Rightarrow> nat option" where
  "free_slot cs = find (\<lambda>i. cs ! i = 0) [0..<MAX_CONN]"

definition select_round :: "select_answers \<Rightarrow> select_server \<Rightarrow> select_server phase option" where
  "select_round a s =
     do {
       before \<leftarrow> readfds s;
       let fds = (case selected a of None \<Rightarrow> before | Some r \<Rightarrow> r);
       let serve = (\<lambda>s. map_option Serving (comm (reads a) fds [0..<MAX_CONN] s));
       if sockfd s \<in> set fds then
         (case accepted a of
            None \<Rightarrow> Some Exited
          | Some new_socket \<Rightarrow>
              let s = s\<lparr>open_fds := insert new_socket (open_fds s)\<rparr> in
              if \<not> nonblock a then Some (Serving s)
              else (case free_slot (client_socket s) of
                  Some i \<Rightarrow> serve (s\<lparr>client_socket := (client_socket s)[i := new_socket]\<rparr>)
                | None \<Rightarrow> if closed a then Some Exited else serve s))
       else serve s
     }"

definition select_start :: "nat \<Rightarrow> nat set \<Rightarrow> select_server" where
  "select_start fd opened = \<lparr>sockfd = fd, client_socket = replicate MAX_CONN 0, open_fds = insert fd opened, outbox = []\<rparr>"

text \<open>
  What the kernel promises: \<^verbatim>\<open>select\<close> answers with a part of the set; a new descriptor is not open, is not
  the standard input, which is kept open, and is below the usual limit on descriptors; \<^verbatim>\<open>read\<close> delivers at most the size asked for.
\<close>

definition select_contract :: "select_answers \<Rightarrow> select_server \<Rightarrow> bool" where
  "select_contract a s \<longleftrightarrow>
     (case selected a of None \<Rightarrow> True | Some r \<Rightarrow> set r \<subseteq> insert (sockfd s) (set (client_socket s) - {0}))
   \<and> (case accepted a of None \<Rightarrow> True | Some fd \<Rightarrow> 0 < fd \<and> fd < FD_SETSIZE \<and> fd \<notin> open_fds s)
   \<and> (\<forall>fd. case reads a fd of None \<Rightarrow> True | Some d \<Rightarrow> length d \<le> SIZE)"

inductive select_reach :: "select_server \<Rightarrow> bool" where
  start: "\<lbrakk>0 < fd; fd < FD_SETSIZE\<rbrakk> \<Longrightarrow> select_reach (select_start fd opened)"
| round: "\<lbrakk>select_reach s; select_contract a s; select_round a s = Some (Serving s')\<rbrakk> \<Longrightarrow> select_reach s'"

section \<open>The server with poll\<close>

definition MAX_CLIENTS :: nat where
  "MAX_CLIENTS = 10"

text \<open>
  An entry of \<^verbatim>\<open>pollfds\<close> is its descriptor and whether \<^verbatim>\<open>events\<close> asks for input; the entry of the listening socket,
  which never changes, is left out, so the list has the entries from 1 on.  Entries that are free have descriptor 0,
  the standard input.  A message in \<^term>\<open>echoed\<close> has the number of its entry.
\<close>

record poll_server =
  pollfds :: "(nat \<times> bool) list"
  useClient :: int
  taken :: "nat set"
  echoed :: "(nat \<times> nat \<times> u8 list) list"

text \<open>
  The answers in one iteration: whether \<^verbatim>\<open>poll\<close> returns a positive number, whether it reports input on the
  listening socket and on each of the entries, the result of \<^verbatim>\<open>accept\<close> and of making the socket
  non-blocking, and the results of \<^verbatim>\<open>read\<close>.
\<close>

record poll_answers =
  positive :: bool
  incoming :: bool
  revents :: "nat \<Rightarrow> bool"
  paccept :: "nat option"
  pnonblock :: bool
  preads :: "nat \<Rightarrow> u8 list option"

fun serve_clients :: "poll_answers \<Rightarrow> nat list \<Rightarrow> poll_server \<Rightarrow> poll_server option" where
  "serve_clients a [] s = Some s"
| "serve_clients a (i # is) s =
     (let fd = fst (pollfds s ! i) in
      if 0 < fd \<and> revents a i then
        (case preads a fd of
           None \<Rightarrow> serve_clients a is (s\<lparr>pollfds := (pollfds s)[i := (0, False)], useClient := useClient s - 1\<rparr>)
         | Some [] \<Rightarrow> serve_clients a is (s\<lparr>pollfds := (pollfds s)[i := (0, False)], useClient := useClient s - 1\<rparr>)
         | Some d \<Rightarrow> do {
             _ \<leftarrow> strlen (read_buffer (Some d));
             wbuf \<leftarrow> reply ECHO (read_buffer (Some d));
             serve_clients a is (s\<lparr>echoed := echoed s @ [(i, fd, wbuf)]\<rparr>)
           })
      else serve_clients a is s)"

definition free_entry :: "(nat \<times> bool) list \<Rightarrow> nat option" where
  "free_entry es = find (\<lambda>i. fst (es ! i) = 0) [0..<MAX_CLIENTS]"

definition poll_round :: "poll_answers \<Rightarrow> poll_server \<Rightarrow> poll_server option" where
  "poll_round a s =
     (if \<not> positive a then Some s
      else if incoming a then
        (case paccept a of
           None \<Rightarrow> Some s
         | Some new_client \<Rightarrow>
             let s = s\<lparr>taken := insert new_client (taken s)\<rparr> in
             if \<not> pnonblock a then Some s
             else serve_clients a [0..<MAX_CLIENTS]
               (case free_entry (pollfds s) of
                  Some i \<Rightarrow> s\<lparr>pollfds := (pollfds s)[i := (new_client, snd (pollfds s ! i))], useClient := useClient s + 1\<rparr>
                | None \<Rightarrow> s))
      else serve_clients a [0..<MAX_CLIENTS] s)"

definition poll_start :: "nat set \<Rightarrow> poll_server" where
  "poll_start opened = \<lparr>pollfds = replicate MAX_CLIENTS (0, True), useClient = 0, taken = opened, echoed = []\<rparr>"

text \<open>
  What the kernel promises: input is reported only where \<^verbatim>\<open>events\<close> asks for it; a new descriptor is not open
  (the program never closes one); \<^verbatim>\<open>read\<close> delivers at most the size asked for.
\<close>

definition poll_contract :: "poll_answers \<Rightarrow> poll_server \<Rightarrow> bool" where
  "poll_contract a s \<longleftrightarrow>
     (\<forall>i. revents a i \<longrightarrow> i < MAX_CLIENTS \<and> snd (pollfds s ! i))
   \<and> (case paccept a of None \<Rightarrow> True | Some fd \<Rightarrow> 0 < fd \<and> fd \<notin> taken s)
   \<and> (\<forall>fd. case preads a fd of None \<Rightarrow> True | Some d \<Rightarrow> length d \<le> SIZE)"

inductive poll_reach :: "poll_server \<Rightarrow> bool" where
  start: "poll_reach (poll_start opened)"
| round: "\<lbrakk>poll_reach s; poll_contract a s; poll_round a s = Some s'\<rbrakk> \<Longrightarrow> poll_reach s'"

section \<open>The servers with epoll\<close>

record ep_event =
  efd :: nat
  eerr :: bool
  ehup :: bool
  ein :: bool

definition zero_event :: ep_event where
  "zero_event = \<lparr>efd = 0, eerr = False, ehup = False, ein = False\<rparr>"

record epoll_server =
  lfd :: nat
  events :: "ep_event list"
  opened :: "nat set"
  watched :: "nat set"
  responses :: "(nat \<times> u8 list) list"

definition close_fd :: "nat \<Rightarrow> epoll_server \<Rightarrow> epoll_server" where
  "close_fd fd s = s\<lparr>opened := opened s - {fd}, watched := watched s - {fd}\<rparr>"

text \<open>
  The connections \<^verbatim>\<open>accept\<close> delivers until it answers -1, each with the results of making it non-blocking
  and of adding it to the epoll descriptor.
\<close>

fun handle_conn :: "(nat \<times> bool \<times> bool) list \<Rightarrow> epoll_server \<Rightarrow> epoll_server phase" where
  "handle_conn [] s = Serving s"
| "handle_conn ((infd, nb, added) # as) s =
     (let s = s\<lparr>opened := insert infd (opened s)\<rparr> in
      if \<not> nb then Exited
      else if \<not> added then Exited
      else handle_conn as (s\<lparr>watched := insert infd (watched s)\<rparr>))"

definition handle_client :: "u8 list option \<Rightarrow> nat \<Rightarrow> epoll_server \<Rightarrow> epoll_server option" where
  "handle_client answer fd s =
     do {
       wbuff \<leftarrow> reply RESP (read_buffer answer);
       let s = s\<lparr>responses := responses s @ [(fd, c_string wbuff)]\<rparr>;
       Some (if answer = None \<or> answer = Some [] then close_fd fd s else s)
     }"

text \<open>The entries of the array, by their index; the answers of \<^verbatim>\<open>accept\<close> and \<^verbatim>\<open>read\<close> belong to the index too.\<close>

fun ep_entries :: "(nat \<Rightarrow> u8 list option) \<Rightarrow> (nat \<Rightarrow> (nat \<times> bool \<times> bool) list) \<Rightarrow> nat list \<Rightarrow> epoll_server \<Rightarrow> epoll_server phase option" where
  "ep_entries rd acc [] s = Some (Serving s)"
| "ep_entries rd acc (i # is) s =
     (let e = events s ! i in
      if eerr e \<or> ehup e \<or> \<not> ein e then ep_entries rd acc is (close_fd (efd e) s)
      else if efd e = lfd s then
        (case handle_conn (acc i) s of Exited \<Rightarrow> Some Exited | Serving s \<Rightarrow> ep_entries rd acc is s)
      else do { s \<leftarrow> handle_client (rd i) (efd e) s; ep_entries rd acc is s })"

text \<open>\<^verbatim>\<open>epoll_wait\<close> overwrites the first entries; \<^verbatim>\<open>server_ep.c\<close> looks at these, \<^verbatim>\<open>worker.c\<close> at the whole array.\<close>

definition waited :: "ep_event list \<Rightarrow> epoll_server \<Rightarrow> epoll_server" where
  "waited evs s = s\<lparr>events := evs @ drop (length evs) (events s)\<rparr>"

definition epoll_round ::
  "(nat \<Rightarrow> u8 list option) \<Rightarrow> (nat \<Rightarrow> (nat \<times> bool \<times> bool) list) \<Rightarrow> ep_event list \<Rightarrow> epoll_server \<Rightarrow> epoll_server phase option" where
  "epoll_round rd acc evs s = ep_entries rd acc [0..<length evs] (waited evs s)"

definition worker_round ::
  "(nat \<Rightarrow> u8 list option) \<Rightarrow> (nat \<Rightarrow> (nat \<times> bool \<times> bool) list) \<Rightarrow> ep_event list \<Rightarrow> epoll_server \<Rightarrow> epoll_server phase option" where
  "worker_round rd acc evs s = ep_entries rd acc [0..<MAX_CONN] (waited evs s)"

definition epoll_start :: "nat \<Rightarrow> nat set \<Rightarrow> epoll_server" where
  "epoll_start fd base =
     \<lparr>lfd = fd, events = replicate MAX_CONN zero_event, opened = insert fd base, watched = {fd}, responses = []\<rparr>"

section \<open>The client's connect\<close>

datatype conn_result = Connected | Pending | Refused

text \<open>
  What the calls answer; those in the loop by the number of the attempt: the milliseconds since the start,
  the result of \<^verbatim>\<open>poll\<close>, and the socket's error (\<^term>\<open>None\<close> when \<^verbatim>\<open>getsockopt\<close> fails).
\<close>

record conn_answers =
  sock :: bool
  pton :: bool
  rcvtimeo :: bool
  sndtimeo :: bool
  getfl :: bool
  setfl :: bool
  connected :: conn_result
  elapsed :: "nat \<Rightarrow> int"
  polled :: "nat \<Rightarrow> int"
  so_error :: "nat \<Rightarrow> int option"
  restored :: bool

definition EINTR :: int where
  "EINTR = 4"

partial_function (option) attempts :: "conn_answers \<Rightarrow> int \<Rightarrow> nat \<Rightarrow> int option" where
  "attempts c timeout k =
     (if elapsed c k > timeout then Some (- 10)
      else if polled c k \<le> 0 then Some (polled c k)
      else case so_error c k of
          None \<Rightarrow> Some (polled c k)
        | Some e \<Rightarrow>
            if e = 0 then Some (polled c k)
            else if e = EINTR then attempts c timeout (Suc k)
            else Some (- 11))"

definition connect_with_timeout :: "conn_answers \<Rightarrow> int \<Rightarrow> int option" where
  "connect_with_timeout c timeout =
     (if \<not> sock c then Some (- 1)
      else if \<not> pton c then Some (- 2)
      else if \<not> rcvtimeo c then Some (- 3)
      else if \<not> sndtimeo c then Some (- 4)
      else if \<not> getfl c then Some (- 5)
      else if \<not> setfl c then Some (- 6)
      else do {
        rc \<leftarrow> (case connected c of Connected \<Rightarrow> Some 0 | Refused \<Rightarrow> Some (- 11) | Pending \<Rightarrow> attempts c timeout 0);
        Some (if restored c then rc else - 20)
      })"

section \<open>What is sent\<close>

definition text_of :: "u8 list option \<Rightarrow> u8 list" where
  "text_of answer = (case answer of None \<Rightarrow> [] | Some d \<Rightarrow> c_string d)"

lemma c_string_nul [simp]: "0 \<notin> set xs \<Longrightarrow> c_string (xs @ 0 # ys) = xs"
  by (induction xs) (auto simp: c_string_def)

lemma c_string_no_nul: "0 \<notin> set (c_string xs)"
  by (auto simp: c_string_def dest: set_takeWhileD)

lemma c_string_split: "0 \<in> set xs \<Longrightarrow> xs = c_string xs @ 0 # drop (Suc (length (c_string xs))) xs"
proof (induction xs)
  case (Cons x xs)
  then show ?case by (auto simp: c_string_def)
qed simp

lemma c_string_all: "0 \<notin> set xs \<Longrightarrow> c_string (xs @ ys) = xs @ c_string ys"
  by (induction xs) (auto simp: c_string_def)

lemma strlen_c_string: "strlen xs = (if 0 \<in> set xs then Some (length (c_string xs)) else None)"
  by (simp add: strlen_def c_string_def)

lemma take_c_string: "take (length (c_string xs)) xs = c_string xs"
  by (simp add: c_string_def takeWhile_eq_take [symmetric])

lemma strcat_spec:
  assumes "0 \<in> set dst"
  shows "if 0 \<in> set src \<and> length (c_string dst) + length (c_string src) < length dst
    then \<exists>w. strcat dst src = Some w \<and> c_string w = c_string dst @ c_string src \<and> length w = length dst \<and> 0 \<in> set w
    else strcat dst src = None"
proof -
  have "0 \<notin> set (c_string dst @ c_string src)" using c_string_no_nul by simp
  then have "c_string ((c_string dst @ c_string src) @ 0 # ys) = c_string dst @ c_string src" for ys
    by (rule c_string_nul)
  then show ?thesis
    using assms by (auto simp: strcat_def strlen_c_string take_c_string)
qed

lemma read_buffer_text:
  assumes "case a of None \<Rightarrow> True | Some d \<Rightarrow> length d \<le> SIZE"
  shows "c_string (read_buffer a) = text_of a" "0 \<in> set (read_buffer a) \<longleftrightarrow> length (text_of a) < SIZE"
proof -
  have r: "c_string (replicate n 0) = []" for n by (cases n) (simp_all add: c_string_def)
  have l: "length (c_string d) \<le> length d" for d by (simp add: c_string_def length_takeWhile_le)
  have n: "c_string d = d" if "0 \<notin> set d" for d using c_string_all [OF that, of "[]"] by (simp add: c_string_def)
  have h: "c_string (d @ ys) = c_string d" if "0 \<in> set d" for d ys :: "u8 list"
    using that by (simp add: c_string_def takeWhile_append1)
  have lt: "length (c_string d) < length d" if "0 \<in> set d" for d
    using arg_cong [OF c_string_split [OF that], of length] by simp
  show "c_string (read_buffer a) = text_of a"
  proof (cases a)
    case (Some d)
    then show ?thesis by (cases "0 \<in> set d") (simp_all add: read_buffer_def text_of_def c_string_all r n h)
  qed (simp add: read_buffer_def text_of_def r)
  show "0 \<in> set (read_buffer a) \<longleftrightarrow> length (text_of a) < SIZE"
  proof (cases a)
    case (Some d)
    then show ?thesis
      using assms lt [of d] n [of d] by (cases "0 \<in> set d") (auto simp: read_buffer_def text_of_def SIZE_def)
  qed (simp add: read_buffer_def text_of_def SIZE_def)
qed

text \<open>A reply fits exactly when the text read has at most 1010 bytes.\<close>

lemma reply_read:
  assumes "case a of None \<Rightarrow> True | Some d \<Rightarrow> length d \<le> SIZE" "length prefix = 13" "0 \<notin> set prefix"
  shows "if length (text_of a) < 1011
    then \<exists>w. reply prefix (read_buffer a) = Some w \<and> c_string w = prefix @ text_of a \<and> length w = SIZE
    else reply prefix (read_buffer a) = None"
proof -
  have S: "13 < SIZE" by (simp add: SIZE_def)
  have z: "c_string (replicate SIZE 0) = []" by (simp add: c_string_def SIZE_def)
  have m: "0 \<in> set (replicate SIZE (0 :: u8))" by (simp add: SIZE_def)
  obtain w where w: "strcat (replicate SIZE 0) (prefix @ [0]) = Some w" "c_string w = prefix" "length w = SIZE" "0 \<in> set w"
    using strcat_spec [OF m, of "prefix @ [0]"] assms(2,3) by (auto simp: z S)
  show ?thesis
    using strcat_spec [OF w(4), of "read_buffer a"] w read_buffer_text [OF assms(1)] assms(2)
    by (auto simp: reply_def SIZE_def)
qed

lemma prefixes [simp]: "length RESP = 13" "0 \<notin> set RESP" "length ECHO = 13" "0 \<notin> set ECHO"
  by (simp_all add: RESP_def ECHO_def)

section \<open>The select loop\<close>

definition left :: "(nat \<Rightarrow> u8 list option) \<Rightarrow> nat list \<Rightarrow> nat \<Rightarrow> bool" where
  "left rd fds sd \<longleftrightarrow> sd \<in> set fds \<and> rd sd = Some []"

definition after_comm :: "(nat \<Rightarrow> u8 list option) \<Rightarrow> nat list \<Rightarrow> nat list \<Rightarrow> nat list \<Rightarrow> select_server \<Rightarrow> select_server" where
  "after_comm rd fds ys xs s =
     s\<lparr>client_socket := ys @ map (\<lambda>sd. if left rd fds sd then 0 else sd) xs,
       open_fds := open_fds s - set (filter (left rd fds) xs),
       outbox := outbox s @ map (\<lambda>sd. (sd, RESP @ text_of (rd sd))) (filter (\<lambda>sd. sd \<in> set fds \<and> rd sd \<noteq> Some []) xs)\<rparr>"

lemma comm_spec:
  assumes "\<forall>sd. case rd sd of None \<Rightarrow> True | Some d \<Rightarrow> length d \<le> SIZE"
  shows "client_socket s = ys @ xs \<Longrightarrow> comm rd fds [length ys..<length ys + length xs] s =
    (if \<exists>sd\<in>set xs. sd \<in> set fds \<and> 1011 \<le> length (text_of (rd sd)) then None else Some (after_comm rd fds ys xs s))"
proof (induction xs arbitrary: ys s)
  case Nil
  then show ?case by (simp add: after_comm_def)
next
  case (Cons x xs)
  have up: "[length ys..<length ys + length (x # xs)] = length ys # [length (ys @ [z])..<length (ys @ [z]) + length xs]" for z :: nat
    by (simp add: upt_conv_Cons del: upt_Suc)
  have x: "client_socket s ! length ys = x" using Cons.prems by simp
  have D: "open_fds s - {x} - A = open_fds s - insert x A" for A by blast
  note reply = reply_read [OF assms [rule_format, of x], of RESP, simplified]
  consider "x \<notin> set fds" | "x \<in> set fds" "rd x = Some []" | "x \<in> set fds" "rd x \<noteq> Some []" by blast
  then show ?case
  proof cases
    case 1
    then show ?thesis
      unfolding up [of x] using Cons.IH [of s "ys @ [x]"] Cons.prems x by (simp add: after_comm_def left_def)
  next
    case 2
    then show ?thesis
      unfolding up [of 0] using Cons.IH [of "s\<lparr>client_socket := ys @ 0 # xs, open_fds := open_fds s - {x}\<rparr>" "ys @ [0]"] Cons.prems x
      by (simp add: after_comm_def left_def text_of_def c_string_def D)
  next
    case 3
    show ?thesis
    proof (cases "length (text_of (rd x)) < 1011")
      case True
      then obtain w where w: "reply RESP (read_buffer (rd x)) = Some w" "c_string w = RESP @ text_of (rd x)" using reply by auto
      show ?thesis
        unfolding up [of x] using Cons.IH [of "s\<lparr>outbox := outbox s @ [(x, c_string w)]\<rparr>" "ys @ [x]"] Cons.prems x 3 w True
        by (auto simp: after_comm_def left_def)
    next
      case False
      then show ?thesis
        unfolding up [of x] using x 3 reply by auto
    qed
  qed
qed

definition select_inv :: "select_server \<Rightarrow> bool" where
  "select_inv s \<longleftrightarrow> length (client_socket s) = MAX_CONN \<and> 0 < sockfd s \<and> sockfd s < FD_SETSIZE
     \<and> sockfd s \<in> open_fds s \<and> sockfd s \<notin> set (client_socket s)
     \<and> (\<forall>sd\<in>set (client_socket s). sd < FD_SETSIZE \<and> (0 < sd \<longrightarrow> sd \<in> open_fds s))
     \<and> distinct (filter (\<lambda>sd. 0 < sd) (client_socket s))"

lemma free_slot_cases:
  assumes "length cs = MAX_CONN"
  shows "free_slot cs = None \<longleftrightarrow> 0 \<notin> set cs" "free_slot cs = Some i \<Longrightarrow> i < length cs \<and> cs ! i = 0"
proof -
  show "free_slot cs = None \<longleftrightarrow> 0 \<notin> set cs"
    using assms by (auto simp: free_slot_def find_None_iff in_set_conv_nth)
  show "i < length cs \<and> cs ! i = 0" if "free_slot cs = Some i"
    using that assms by (auto simp: free_slot_def find_Some_iff)
qed

lemma filter_update:
  assumes "i < length xs" "\<not> P (xs ! i)"
  shows "filter P (xs[i := x]) = filter P (take i xs) @ (if P x then [x] else []) @ filter P (drop (Suc i) xs)"
    and "filter P xs = filter P (take i xs) @ filter P (drop (Suc i) xs)"
proof -
  show "filter P (xs[i := x]) = filter P (take i xs) @ (if P x then [x] else []) @ filter P (drop (Suc i) xs)"
    using assms(1) by (simp add: upd_conv_take_nth_drop)
  show "filter P xs = filter P (take i xs) @ filter P (drop (Suc i) xs)"
    using assms by (subst id_take_nth_drop [OF assms(1)]) simp
qed

lemma select_inv_accept:
  assumes "select_inv s" "free_slot (client_socket s) = Some i" "0 < fd" "fd < FD_SETSIZE" "fd \<notin> open_fds s"
  shows "select_inv (s\<lparr>open_fds := insert fd (open_fds s), client_socket := (client_socket s)[i := fd]\<rparr>)"
proof -
  let ?cs = "client_socket s"
  have i: "i < length ?cs" "\<not> 0 < ?cs ! i"
    using assms(1,2) free_slot_cases(2) [of ?cs i] by (auto simp: select_inv_def)
  have "fd \<notin> set ?cs" using assms by (auto simp: select_inv_def)
  then have "fd \<notin> set (take i ?cs)" "fd \<notin> set (drop (Suc i) ?cs)" by (auto dest: in_set_takeD in_set_dropD)
  then have "distinct (filter (\<lambda>sd. 0 < sd) (?cs[i := fd]))"
    using assms(1) filter_update(1) [of i ?cs "\<lambda>sd. 0 < sd" fd] filter_update(2) [of i ?cs "\<lambda>sd. 0 < sd"] i by (auto simp: select_inv_def)
  then show ?thesis
    using assms set_update_subset_insert [of ?cs i fd] by (auto simp: select_inv_def)
qed

lemma select_inv_comm:
  assumes "select_inv s"
  shows "select_inv (after_comm rd fds [] (client_socket s) s)"
proof -
  let ?g = "\<lambda>sd. if left rd fds sd then 0 else sd"
  have "filter (\<lambda>sd. 0 < sd) (map ?g xs) = filter (\<lambda>sd. 0 < sd \<and> \<not> left rd fds sd) xs" for xs
    by (induction xs) auto
  moreover have "distinct (filter (\<lambda>sd. 0 < sd \<and> \<not> left rd fds sd) (client_socket s))"
    using distinct_filter [of "filter (\<lambda>sd. 0 < sd) (client_socket s)" "\<lambda>sd. \<not> left rd fds sd"] assms
    by (simp add: select_inv_def conj_commute)
  ultimately show ?thesis
    using assms by (auto simp: select_inv_def after_comm_def FD_SETSIZE_def)
qed

definition ready_fds :: "select_answers \<Rightarrow> select_server \<Rightarrow> nat list" where
  "ready_fds a s = (case selected a of None \<Rightarrow> sockfd s # filter (\<lambda>sd. 0 < sd) (client_socket s) | Some r \<Rightarrow> r)"

lemma ready_fds_open:
  assumes "select_contract a s" "select_inv s"
  shows "set (ready_fds a s) \<subseteq> open_fds s - {0}"
  using assms by (auto simp: select_contract_def ready_fds_def select_inv_def split: option.splits)

text \<open>The clients that are answered, before and after a new one is entered.\<close>

definition too_long :: "select_answers \<Rightarrow> select_server \<Rightarrow> bool" where
  "too_long a s \<longleftrightarrow> (\<exists>sd\<in>set (client_socket s). sd \<in> set (ready_fds a s) \<and> 1011 \<le> length (text_of (reads a sd)))"

definition replies :: "select_answers \<Rightarrow> select_server \<Rightarrow> (nat \<times> u8 list) list" where
  "replies a s = map (\<lambda>sd. (sd, RESP @ text_of (reads a sd))) (filter (\<lambda>sd. sd \<in> set (ready_fds a s) \<and> reads a sd \<noteq> Some []) (client_socket s))"

lemma same_ready:
  assumes "select_inv s" "select_contract a s" "free_slot (client_socket s) = Some i" "accepted a = Some fd"
  shows "filter (\<lambda>sd. sd \<in> set (ready_fds a s) \<and> P sd) ((client_socket s)[i := fd])
    = filter (\<lambda>sd. sd \<in> set (ready_fds a s) \<and> P sd) (client_socket s)"
proof -
  let ?cs = "client_socket s"
  have "i < length ?cs" "?cs ! i = 0" using assms(1,3) free_slot_cases(2) [of ?cs i] by (auto simp: select_inv_def)
  moreover have "0 \<notin> set (ready_fds a s)" "fd \<notin> set (ready_fds a s)"
    using ready_fds_open [OF assms(2,1)] assms(2,4) by (auto simp: select_contract_def)
  ultimately show ?thesis
    using filter_update(1) [of i ?cs "\<lambda>sd. sd \<in> set (ready_fds a s) \<and> P sd" fd]
      filter_update(2) [of i ?cs "\<lambda>sd. sd \<in> set (ready_fds a s) \<and> P sd"] by simp
qed

lemma too_long_filter:
  "(\<exists>sd\<in>set cs. sd \<in> A \<and> 1011 \<le> length (text_of (rd sd))) \<longleftrightarrow> filter (\<lambda>sd. sd \<in> A \<and> 1011 \<le> length (text_of (rd sd))) cs \<noteq> []"
  by (simp add: filter_empty_conv)

text \<open>The state that the clients are served in, and the whole iteration in terms of it.\<close>

definition entered :: "select_answers \<Rightarrow> select_server \<Rightarrow> select_server" where
  "entered a s =
     (case accepted a of
        Some fd \<Rightarrow>
          if sockfd s \<in> set (ready_fds a s) then
            (let s = s\<lparr>open_fds := insert fd (open_fds s)\<rparr> in
             case free_slot (client_socket s) of Some i \<Rightarrow> s\<lparr>client_socket := (client_socket s)[i := fd]\<rparr> | None \<Rightarrow> s)
          else s
      | None \<Rightarrow> s)"

lemma entered_ok:
  assumes "select_inv s" "select_contract a s"
  shows "select_inv (entered a s)" "sockfd (entered a s) = sockfd s" "outbox (entered a s) = outbox s"
    "filter (\<lambda>sd. sd \<in> set (ready_fds a s) \<and> P sd) (client_socket (entered a s))
      = filter (\<lambda>sd. sd \<in> set (ready_fds a s) \<and> P sd) (client_socket s)"
proof -
  have acc: "0 < fd \<and> fd < FD_SETSIZE \<and> fd \<notin> open_fds s" if "accepted a = Some fd" for fd
    using assms(2) that by (auto simp: select_contract_def)
  have grow: "select_inv (s\<lparr>open_fds := insert fd (open_fds s)\<rparr>)" for fd
    using assms(1) by (auto simp: select_inv_def)
  show "select_inv (entered a s)"
    using assms(1) acc select_inv_accept [OF assms(1)] grow
    by (auto simp: entered_def Let_def split: option.splits)
  show "sockfd (entered a s) = sockfd s" "outbox (entered a s) = outbox s"
    by (auto simp: entered_def Let_def split: option.splits)
  show "filter (\<lambda>sd. sd \<in> set (ready_fds a s) \<and> P sd) (client_socket (entered a s))
      = filter (\<lambda>sd. sd \<in> set (ready_fds a s) \<and> P sd) (client_socket s)"
    using same_ready [OF assms] by (auto simp: entered_def Let_def split: option.splits)
qed

lemma select_round_spec:
  assumes "select_inv s" "select_contract a s"
  shows "select_round a s =
    (let conn = sockfd s \<in> set (ready_fds a s); full = (0 \<notin> set (client_socket s)) in
     if conn \<and> (accepted a = None \<or> nonblock a \<and> full \<and> closed a) then Some Exited
     else if conn \<and> \<not> nonblock a then Some (Serving (s\<lparr>open_fds := insert (the (accepted a)) (open_fds s)\<rparr>))
     else if too_long a s then None
     else Some (Serving (after_comm (reads a) (ready_fds a s) [] (client_socket (entered a s)) (entered a s))))"
proof -
  let ?fds = "ready_fds a s" and ?e = "entered a s"
  have rd: "\<forall>sd. case reads a sd of None \<Rightarrow> True | Some d \<Rightarrow> length d \<le> SIZE"
    using assms(2) by (auto simp: select_contract_def)
  have "readfds s = Some (sockfd s # filter (\<lambda>sd. 0 < sd) (client_socket s))"
    using assms(1) by (auto simp: readfds_def select_inv_def list_all_iff)
  then have fds: "select_round a s =
      (let serve = (\<lambda>s. map_option Serving (comm (reads a) ?fds [0..<MAX_CONN] s)) in
       if sockfd s \<in> set ?fds then
         (case accepted a of
            None \<Rightarrow> Some Exited
          | Some new_socket \<Rightarrow>
              let s = s\<lparr>open_fds := insert new_socket (open_fds s)\<rparr> in
              if \<not> nonblock a then Some (Serving s)
              else (case free_slot (client_socket s) of
                  Some i \<Rightarrow> serve (s\<lparr>client_socket := (client_socket s)[i := new_socket]\<rparr>)
                | None \<Rightarrow> if closed a then Some Exited else serve s))
       else serve s)"
    by (simp add: select_round_def ready_fds_def Let_def)
  have "length (client_socket ?e) = MAX_CONN" using entered_ok(1) [OF assms] by (simp add: select_inv_def)
  then have serve: "map_option Serving (comm (reads a) ?fds [0..<MAX_CONN] ?e) =
      (if too_long a s then None else Some (Serving (after_comm (reads a) ?fds [] (client_socket ?e) ?e)))"
    using comm_spec [OF rd, of ?e "[]" "client_socket ?e" ?fds]
    unfolding too_long_def too_long_filter entered_ok(4) [OF assms] by simp
  have full: "free_slot (client_socket s) = None \<longleftrightarrow> 0 \<notin> set (client_socket s)"
    using free_slot_cases(1) assms(1) by (simp add: select_inv_def)
  show ?thesis
  proof (cases "sockfd s \<in> set ?fds")
    case False
    then have "?e = s" by (simp add: entered_def split: option.splits)
    then show ?thesis using False serve by (simp add: fds)
  next
    case True
    show ?thesis
    proof (cases "accepted a")
      case None
      then show ?thesis using True by (simp add: fds)
    next
      case (Some fd)
      then show ?thesis
        using True serve full by (cases "free_slot (client_socket s)") (auto simp: fds entered_def Let_def)
    qed
  qed
qed

lemma select_reach_inv: "select_reach s \<Longrightarrow> select_inv s"
proof (induction rule: select_reach.induct)
  case (start fd opened)
  then show ?case by (auto simp: select_start_def select_inv_def MAX_CONN_def FD_SETSIZE_def)
next
  case (round s a s')
  have "select_inv (s\<lparr>open_fds := insert fd (open_fds s)\<rparr>)" for fd
    using round.IH by (auto simp: select_inv_def)
  then show ?case
    using round.hyps(3) select_inv_comm [OF entered_ok(1) [OF round.IH round.hyps(2)]]
    by (auto simp: select_round_spec [OF round.IH round.hyps(2)] Let_def split: if_splits)
qed

section \<open>The poll loop\<close>

text \<open>
  An entry that asks for input has answered nobody but the client it holds; an entry that does not has
  answered at most one client.  Accepted descriptors are never closed, so each stands for one connection.
\<close>

definition entry_ok :: "poll_server \<Rightarrow> nat \<Rightarrow> bool" where
  "entry_ok s i \<longleftrightarrow>
     (if snd (pollfds s ! i) then \<forall>fd w. (i, fd, w) \<in> set (echoed s) \<longrightarrow> 0 < fd \<and> fd = fst (pollfds s ! i)
      else \<forall>fd w gd u. (i, fd, w) \<in> set (echoed s) \<and> (i, gd, u) \<in> set (echoed s) \<longrightarrow> fd = gd)"

definition poll_inv :: "poll_server \<Rightarrow> bool" where
  "poll_inv s \<longleftrightarrow> length (pollfds s) = MAX_CLIENTS
     \<and> (\<forall>i<MAX_CLIENTS. entry_ok s i)
     \<and> (\<forall>i fd w. (i, fd, w) \<in> set (echoed s) \<longrightarrow> i < MAX_CLIENTS)
     \<and> useClient s = int (length (filter (\<lambda>e. 0 < fst e) (pollfds s)))
     \<and> (\<forall>e\<in>set (pollfds s). 0 < fst e \<longrightarrow> fst e \<in> taken s)"

lemma filter_count_update:
  assumes "i < length xs" "P (xs ! i)" "\<not> P x"
  shows "Suc (length (filter P (xs[i := x]))) = length (filter P xs)"
proof -
  have "length (filter P xs) = length (filter P (take i xs)) + Suc (length (filter P (drop (Suc i) xs)))"
    using assms(2) by (subst id_take_nth_drop [OF assms(1)]) simp
  then show ?thesis using assms by (simp add: upd_conv_take_nth_drop)
qed

lemma poll_inv_drop:
  assumes "poll_inv s" "i < MAX_CLIENTS" "0 < fst (pollfds s ! i)"
  shows "poll_inv (s\<lparr>pollfds := (pollfds s)[i := (0, False)], useClient := useClient s - 1\<rparr>)"
proof -
  let ?t = "s\<lparr>pollfds := (pollfds s)[i := (0, False)], useClient := useClient s - 1\<rparr>"
  have l: "length (pollfds s) = MAX_CLIENTS" using assms(1) by (simp add: poll_inv_def)
  have "entry_ok ?t j" if "j < MAX_CLIENTS" for j
  proof -
    have "entry_ok s j" using assms(1) that by (simp add: poll_inv_def)
    then show ?thesis using l that by (cases "j = i") (auto simp: entry_ok_def split: if_splits)
  qed
  moreover have "Suc (length (filter (\<lambda>e. 0 < fst e) ((pollfds s)[i := (0, False)]))) = length (filter (\<lambda>e. 0 < fst e) (pollfds s))"
    by (rule filter_count_update) (use assms l in auto)
  ultimately show ?thesis
    using assms(1) set_update_subset_insert [of "pollfds s" i "(0, False)"] by (auto simp: poll_inv_def)
qed

lemma poll_inv_echo:
  assumes "poll_inv s" "i < MAX_CLIENTS" "0 < fst (pollfds s ! i)" "snd (pollfds s ! i)"
  shows "poll_inv (s\<lparr>echoed := echoed s @ [(i, fst (pollfds s ! i), w)]\<rparr>)"
proof -
  let ?t = "s\<lparr>echoed := echoed s @ [(i, fst (pollfds s ! i), w)]\<rparr>"
  have "entry_ok ?t j" if "j < MAX_CLIENTS" for j
  proof -
    have "entry_ok s j" using assms(1) that by (simp add: poll_inv_def)
    then show ?thesis using assms(3,4) by (auto simp: entry_ok_def split: if_splits)
  qed
  then show ?thesis using assms by (auto simp: poll_inv_def)
qed

lemma serve_clients_cases:
  assumes "\<forall>fd. case preads a fd of None \<Rightarrow> True | Some d \<Rightarrow> length d \<le> SIZE"
    and "poll_inv s" "distinct is" "\<forall>i\<in>set is. i < MAX_CLIENTS \<and> (revents a i \<longrightarrow> snd (pollfds s ! i))"
  shows "(serve_clients a is s = None \<longleftrightarrow>
      (\<exists>i\<in>set is. 0 < fst (pollfds s ! i) \<and> revents a i \<and> 1011 \<le> length (text_of (preads a (fst (pollfds s ! i))))))
    \<and> (\<forall>s'. serve_clients a is s = Some s' \<longrightarrow> poll_inv s')"
  using assms(2-)
proof (induction "is" arbitrary: s)
  case (Cons i "is")
  let ?fd = "fst (pollfds s ! i)"
  let ?gone = "s\<lparr>pollfds := (pollfds s)[i := (0, False)], useClient := useClient s - 1\<rparr>"
  have i: "i < MAX_CLIENTS" "i \<notin> set is" "distinct is" using Cons.prems by auto
  have l: "length (pollfds s) = MAX_CLIENTS" using Cons.prems(1) by (simp add: poll_inv_def)
  note rest = Cons.prems(3)
  show ?case
  proof (cases "0 < ?fd \<and> revents a i")
    case False
    then show ?thesis using Cons.IH [OF Cons.prems(1) i(3)] rest by (auto simp: Let_def)
  next
    case True
    have other: "(pollfds s)[i := e] ! j = pollfds s ! j" if "j \<in> set is" for j e using that i(2) by (cases "i = j") auto
    have gone: "poll_inv ?gone" using poll_inv_drop Cons.prems(1) i(1) True by blast
    note IHg = Cons.IH [OF gone i(3)]
    show ?thesis
    proof (cases "preads a ?fd = None \<or> preads a ?fd = Some []")
      case empty: True
      then have "text_of (preads a ?fd) = []" by (auto simp: text_of_def c_string_def)
      moreover have "serve_clients a (i # is) s = serve_clients a is ?gone" using True empty by auto
      ultimately show ?thesis using IHg rest other by auto
    next
      case False
      then obtain d where d: "preads a ?fd = Some d" "d \<noteq> []" by auto
      then have step: "serve_clients a (i # is) s =
          do {
            _ \<leftarrow> strlen (read_buffer (Some d));
            wbuf \<leftarrow> reply ECHO (read_buffer (Some d));
            serve_clients a is (s\<lparr>echoed := echoed s @ [(i, ?fd, wbuf)]\<rparr>)
          }"
        using True by (cases d) auto
      have len: "case Some d of None \<Rightarrow> True | Some d \<Rightarrow> length d \<le> SIZE" using assms(1) d(1) by (metis option.simps(5))
      note r = reply_read [OF len, of ECHO, simplified prefixes simp_thms]
      show ?thesis
      proof (cases "length (text_of (Some d)) < 1011")
        case False
        then show ?thesis using step r True d(1) by (auto split: Option.bind_splits)
      next
        case short: True
        then obtain w where w: "reply ECHO (read_buffer (Some d)) = Some w" using r by auto
        have "strlen (read_buffer (Some d)) \<noteq> None"
          using read_buffer_text(2) [OF len] short by (simp add: strlen_c_string SIZE_def)
        then have "serve_clients a (i # is) s = serve_clients a is (s\<lparr>echoed := echoed s @ [(i, ?fd, w)]\<rparr>)"
          using step w by auto
        moreover have "poll_inv (s\<lparr>echoed := echoed s @ [(i, ?fd, w)]\<rparr>)"
          by (rule poll_inv_echo) (use Cons.prems i True in auto)
        ultimately show ?thesis
          using Cons.IH [of "s\<lparr>echoed := echoed s @ [(i, ?fd, w)]\<rparr>"] i(3) rest short d(1) by auto
      qed
    qed
  qed
qed simp

lemma serve_clients_silent:
  "\<forall>i\<in>set is. \<not> revents a i \<Longrightarrow> serve_clients a is s = Some s"
  by (induction "is") (auto simp: Let_def)

lemma free_entry_cases:
  assumes "length es = MAX_CLIENTS" "free_entry es = Some i"
  shows "i < MAX_CLIENTS" "fst (es ! i) = 0"
  using assms by (auto simp: free_entry_def find_Some_iff)

lemma poll_inv_accept:
  assumes "poll_inv s" "free_entry (pollfds s) = Some i" "0 < fd"
  shows "poll_inv (s\<lparr>taken := insert fd (taken s), pollfds := (pollfds s)[i := (fd, snd (pollfds s ! i))], useClient := useClient s + 1\<rparr>)"
    (is "poll_inv ?t")
proof -
  have l: "length (pollfds s) = MAX_CLIENTS" using assms(1) by (simp add: poll_inv_def)
  note i = free_entry_cases [OF l assms(2)]
  have "entry_ok ?t j" if "j < MAX_CLIENTS" for j
  proof -
    have "entry_ok s j" using assms(1) that by (simp add: poll_inv_def)
    then show ?thesis using l i that by (cases "j = i") (auto simp: entry_ok_def split: if_splits)
  qed
  moreover have "length (filter (\<lambda>e. 0 < fst e) ((pollfds s)[i := (fd, b)])) = Suc (length (filter (\<lambda>e. 0 < fst e) (pollfds s)))" for b
    using filter_update(1) [of i "pollfds s" "\<lambda>e. 0 < fst e" "(fd, b)"] filter_update(2) [of i "pollfds s" "\<lambda>e. 0 < fst e"]
      i l assms(3) by simp
  ultimately show ?thesis
    using assms(1) set_update_subset_insert [of "pollfds s" i "(fd, snd (pollfds s ! i))"] by (auto simp: poll_inv_def)
qed

text \<open>The state in which an iteration serves the clients, when it gets there.\<close>

definition placed :: "poll_answers \<Rightarrow> poll_server \<Rightarrow> poll_server" where
  "placed a s =
     (case paccept a of
        Some fd \<Rightarrow>
          if incoming a then
            (let s = s\<lparr>taken := insert fd (taken s)\<rparr> in
             case free_entry (pollfds s) of
               Some i \<Rightarrow> s\<lparr>pollfds := (pollfds s)[i := (fd, snd (pollfds s ! i))], useClient := useClient s + 1\<rparr>
             | None \<Rightarrow> s)
          else s
      | None \<Rightarrow> s)"

lemma poll_round_placed:
  "poll_round a s =
     (if \<not> positive a \<or> incoming a \<and> paccept a = None then Some s
      else if incoming a \<and> \<not> pnonblock a then Some (s\<lparr>taken := insert (the (paccept a)) (taken s)\<rparr>)
      else serve_clients a [0..<MAX_CLIENTS] (placed a s))"
  by (auto simp: poll_round_def placed_def Let_def split: option.splits)

lemma placed_ok:
  assumes "poll_inv s" "poll_contract a s"
  shows "poll_inv (placed a s)" "echoed (placed a s) = echoed s"
    "i < MAX_CLIENTS \<Longrightarrow> snd (pollfds (placed a s) ! i) = snd (pollfds s ! i)"
proof -
  have fd: "0 < fd" if "paccept a = Some fd" for fd using assms(2) that by (simp add: poll_contract_def)
  have l: "length (pollfds s) = MAX_CLIENTS" using assms(1) by (simp add: poll_inv_def)
  have grow: "poll_inv (s\<lparr>taken := insert fd (taken s)\<rparr>)" for fd
    using assms(1) by (auto simp: poll_inv_def entry_ok_def)
  show "poll_inv (placed a s)"
    using assms(1) fd poll_inv_accept [OF assms(1)] grow by (auto simp: placed_def Let_def split: option.splits)
  show "echoed (placed a s) = echoed s" by (auto simp: placed_def Let_def split: option.splits)
  show "snd (pollfds (placed a s) ! i) = snd (pollfds s ! i)" if "i < MAX_CLIENTS"
  proof -
    have "snd ((pollfds s)[k := (fd, snd (pollfds s ! k))] ! i) = snd (pollfds s ! i)" for k fd
      using that l by (cases "i = k") simp_all
    then show ?thesis by (auto simp: placed_def Let_def split: option.splits)
  qed
qed

lemma poll_round_inv:
  assumes "poll_inv s" "poll_contract a s" "poll_round a s = Some s'"
  shows "poll_inv s'"
proof -
  have "poll_inv (s\<lparr>taken := insert fd (taken s)\<rparr>)" for fd
    using assms(1) by (auto simp: poll_inv_def entry_ok_def)
  moreover have "\<forall>s'. serve_clients a [0..<MAX_CLIENTS] (placed a s) = Some s' \<longrightarrow> poll_inv s'"
    by (rule serve_clients_cases [THEN conjunct2])
      (use assms(2) placed_ok [OF assms(1,2)] in \<open>auto simp: poll_contract_def\<close>)
  ultimately show ?thesis using assms(1,3) by (auto simp: poll_round_placed split: if_splits)
qed

lemma poll_reach_inv: "poll_reach s \<Longrightarrow> poll_inv s"
proof (induction rule: poll_reach.induct)
  case (start opened)
  then show ?case by (auto simp: poll_start_def poll_inv_def entry_ok_def MAX_CLIENTS_def)
qed (rule poll_round_inv)

definition answered :: "poll_server \<Rightarrow> nat set" where
  "answered s = (\<lambda>(i, fd, w). fd) ` set (echoed s)"

lemma answered_ten:
  assumes "poll_inv s"
  shows "card (answered s) \<le> MAX_CLIENTS"
proof -
  let ?A = "\<lambda>i. {fd. \<exists>w. (i, fd, w) \<in> set (echoed s)}"
  have fin: "finite (?A i)" for i
    by (rule finite_subset [of _ "answered s"]) (force simp: answered_def)+
  have "card (?A i) \<le> 1" if "i < MAX_CLIENTS" for i
  proof -
    have "entry_ok s i" using assms that by (simp add: poll_inv_def)
    then have "\<forall>f\<in>?A i. \<forall>g\<in>?A i. f = g" by (auto simp: entry_ok_def split: if_splits)
    then show ?thesis using fin [of i] by (simp add: card_le_Suc0_iff_eq)
  qed
  then have "(\<Sum>i\<in>{..<MAX_CLIENTS}. card (?A i)) \<le> (\<Sum>i\<in>{..<MAX_CLIENTS}. 1)" by (intro sum_mono) auto
  moreover have "answered s = (\<Union>i\<in>{..<MAX_CLIENTS}. ?A i)"
    using assms by (force simp: answered_def poll_inv_def)
  ultimately show ?thesis
    using card_UN_le [of "{..<MAX_CLIENTS}" ?A] by simp
qed

section \<open>The epoll loops\<close>

text \<open>The open descriptors are those the process had before and the registered ones.\<close>

definition ep_inv :: "nat set \<Rightarrow> epoll_server \<Rightarrow> bool" where
  "ep_inv base s \<longleftrightarrow> opened s = base \<union> watched s \<and> base \<inter> watched s = {}"

lemma handle_conn_inv:
  "handle_conn as s = Serving s' \<Longrightarrow> ep_inv base s \<Longrightarrow> \<forall>(fd, _, _)\<in>set as. fd \<notin> base \<Longrightarrow>
   ep_inv base s' \<and> events s' = events s \<and> lfd s' = lfd s \<and> watched s \<subseteq> watched s'"
proof (induction as s rule: handle_conn.induct)
  case (2 infd nb added as s)
  let ?s = "s\<lparr>opened := insert infd (opened s), watched := insert infd (watched s)\<rparr>"
  have "ep_inv base ?s" using 2(3,4) by (auto simp: ep_inv_def)
  moreover have "nb" "added" "handle_conn as ?s = Serving s'"
    using 2(2) by (auto simp: Let_def split: if_splits)
  ultimately show ?case using 2(1) [of "s\<lparr>opened := insert infd (opened s)\<rparr>"] 2(4) by auto
qed simp

lemma close_fd_inv: "ep_inv base s \<Longrightarrow> fd \<notin> base \<Longrightarrow> ep_inv base (close_fd fd s)"
  by (auto simp: ep_inv_def close_fd_def)

lemma handle_client_inv:
  "handle_client answer fd s = Some s' \<Longrightarrow> ep_inv base s \<Longrightarrow> fd \<notin> base \<Longrightarrow> ep_inv base s' \<and> events s' = events s \<and> lfd s' = lfd s"
  by (auto simp: handle_client_def ep_inv_def close_fd_def Let_def split: Option.bind_splits if_splits)

text \<open>
  In the epoll server an iteration with the descriptors that are registered leaks none: whatever it
  leaves open besides what the process had before is registered.
\<close>

lemma epoll_round_keeps:
  assumes "ep_inv base s" "\<forall>e\<in>set evs. efd e \<in> watched s" "\<forall>i. \<forall>(fd, _, _)\<in>set (acc i). fd \<notin> base"
    and "epoll_round rd acc evs s = Some (Serving s')"
  shows "ep_inv base s'"
proof -
  have "ep_inv base s'"
    if "ep_entries rd acc is s = Some (Serving s')" "ep_inv base s" "\<forall>i\<in>set is. efd (events s ! i) \<notin> base" for "is" s
    using that
  proof (induction "is" arbitrary: s)
    case (Cons i "is")
    let ?e = "events s ! i"
    have e: "efd ?e \<notin> base" using Cons.prems(3) by simp
    consider "eerr ?e \<or> ehup ?e \<or> \<not> ein ?e"
      | "\<not> (eerr ?e \<or> ehup ?e \<or> \<not> ein ?e)" "efd ?e = lfd s"
      | "\<not> (eerr ?e \<or> ehup ?e \<or> \<not> ein ?e)" "efd ?e \<noteq> lfd s" by blast
    then show ?case
    proof cases
      case 1
      then show ?thesis
        using Cons.IH [of "close_fd (efd ?e) s"] close_fd_inv [OF Cons.prems(2) e] Cons.prems by (auto simp: close_fd_def Let_def)
    next
      case 2
      then obtain t where "handle_conn (acc i) s = Serving t" "ep_entries rd acc is t = Some (Serving s')"
        using Cons.prems(1) by (auto simp: Let_def split: phase.splits)
      then show ?thesis using handle_conn_inv [of "acc i" s t base] Cons.IH [of t] Cons.prems(2,3) assms(3) by auto
    next
      case 3
      then obtain t where "handle_client (rd i) (efd ?e) s = Some t" "ep_entries rd acc is t = Some (Serving s')"
        using Cons.prems(1) by (auto simp: Let_def split: Option.bind_splits)
      then show ?thesis using handle_client_inv [of "rd i" "efd ?e" s t base] Cons.IH [of t] Cons.prems(2,3) e by auto
    qed
  qed simp
  moreover have "ep_inv base (waited evs s)" using assms(1) by (simp add: ep_inv_def waited_def)
  moreover have "\<forall>i\<in>set [0..<length evs]. efd (events (waited evs s) ! i) \<notin> base"
    using assms(1,2) by (auto simp: waited_def ep_inv_def nth_append)
  ultimately show ?thesis using assms(4) by (simp add: epoll_round_def)
qed

text \<open>
  The worker looks at the entries \<^verbatim>\<open>epoll_wait\<close> has not filled.  As long as it fills one, the others are zero:
  each iteration closes the standard input, and a connection that is accepted as descriptor 0 after that
  is closed in the same iteration.
\<close>

lemma zero_entries:
  "\<forall>i\<in>set is. events s ! i = zero_event \<Longrightarrow> ep_entries rd acc is s = Some (Serving (if is = [] then s else close_fd 0 s))"
proof (induction "is" arbitrary: s)
  case (Cons i "is")
  have "close_fd 0 (close_fd 0 s) = close_fd 0 s" by (simp add: close_fd_def)
  then show ?case using Cons.IH [of "close_fd 0 s"] Cons.prems by (auto simp: zero_event_def close_fd_def Let_def)
qed simp

lemma handle_conn_events: "handle_conn as s = Serving s' \<Longrightarrow> events s' = events s"
  by (induction as s rule: handle_conn.induct) (auto simp: Let_def split: if_splits)

lemma worker_closes_zero:
  assumes "drop 1 (events s) = replicate 79 zero_event"
    and "handle_conn conns (waited [\<lparr>efd = lfd s, eerr = False, ehup = False, ein = True\<rparr>] s) = Serving t"
  shows "worker_round rd (\<lambda>_. conns) [\<lparr>efd = lfd s, eerr = False, ehup = False, ein = True\<rparr>] s = Some (Serving (close_fd 0 t))"
    "drop 1 (events (close_fd 0 t)) = replicate 79 zero_event" "0 \<notin> opened (close_fd 0 t)"
proof -
  let ?e = "\<lparr>efd = lfd s, eerr = False, ehup = False, ein = True\<rparr>"
  have ev: "events t = ?e # replicate 79 zero_event"
    using handle_conn_events [OF assms(2)] assms(1) by (simp add: waited_def)
  have zero: "\<forall>i\<in>set [1..<80]. events t ! i = zero_event"
  proof
    fix i :: nat assume "i \<in> set [1..<80]"
    then have "1 \<le> i \<and> i < 80" by (simp only: set_upt atLeastLessThan_iff)
    then obtain j where "i = Suc j" "j < 79" by (cases i) auto
    then show "events t ! i = zero_event" by (simp add: ev)
  qed
  have up: "[0..<MAX_CONN] = 0 # [1..<80]" by (simp add: MAX_CONN_def upt_conv_Cons del: upt_Suc upt_rec_numeral)
  have "ep_entries rd (\<lambda>_. conns) (0 # [1..<80]) (waited [?e] s) = ep_entries rd (\<lambda>_. conns) [1..<80] t"
    using assms(2) by (simp add: waited_def Let_def del: upt_rec_numeral)
  also have "\<dots> = Some (Serving (close_fd 0 t))"
    using zero_entries [OF zero] by (simp del: upt_rec_numeral)
  finally show "worker_round rd (\<lambda>_. conns) [?e] s = Some (Serving (close_fd 0 t))"
    unfolding worker_round_def up .
  show "drop 1 (events (close_fd 0 t)) = replicate 79 zero_event" "0 \<notin> opened (close_fd 0 t)"
    by (simp_all add: close_fd_def ev)
qed

section \<open>Connecting\<close>

text \<open>The loop returns when the clock passes the timeout.\<close>

lemma attempts_return:
  assumes "timeout < elapsed c n"
  shows "\<exists>rc. attempts c timeout 0 = Some rc"
proof -
  have "\<exists>rc. attempts c timeout k = Some rc" if "k \<le> n" for k
    using that
  proof (induction k rule: inc_induct)
    case base
    then show ?case using assms by (subst attempts.simps) simp
  next
    case (step k)
    then show ?case by (subst attempts.simps) (auto split: option.splits)
  qed
  then show ?thesis by simp
qed

text \<open>
  The first \<^verbatim>\<open>poll\<close> is given the time that has passed, 0 milliseconds.  When the connection is still under way it returns 0
  at once, which is returned as success.
\<close>

lemma connect_reports_success:
  assumes "sock c" "pton c" "rcvtimeo c" "sndtimeo c" "getfl c" "setfl c" "restored c" "connected c = Pending"
    and "elapsed c 0 = 0" "0 \<le> timeout" "polled c 0 = 0"
  shows "connect_with_timeout c timeout = Some 0"
  using assms by (simp add: connect_with_timeout_def attempts.simps)

section \<open>Main theorems\<close>

text \<open>
  C18: the server with \<^verbatim>\<open>poll\<close> answers at most ten connections in its whole life.  An entry whose client has left keeps
  \<^verbatim>\<open>events\<close> zero, so a later client that is put there is never heard; once all ten are like that, no iteration
  answers anybody.  The counter of clients is right all the time.
\<close>

theorem poll_serves_ten:
  assumes "poll_reach s"
  shows "card (answered s) \<le> 10
    \<and> useClient s = int (length (filter (\<lambda>e. 0 < fst e) (pollfds s)))
    \<and> ((\<forall>i<10. \<not> snd (pollfds s ! i)) \<longrightarrow>
        (\<forall>a s'. poll_contract a s \<and> poll_round a s = Some s' \<longrightarrow>
           echoed s' = echoed s \<and> (\<forall>i<10. \<not> snd (pollfds s' ! i))))"
proof (intro conjI impI allI)
  have inv: "poll_inv s" by (rule poll_reach_inv [OF assms])
  show "card (answered s) \<le> 10" using answered_ten [OF inv] by (simp add: MAX_CLIENTS_def)
  show "useClient s = int (length (filter (\<lambda>e. 0 < fst e) (pollfds s)))" using inv by (simp add: poll_inv_def)
  fix a s'
  assume off: "\<forall>i<10. \<not> snd (pollfds s ! i)" and a: "poll_contract a s \<and> poll_round a s = Some s'"
  then have "\<forall>i\<in>set [0..<MAX_CLIENTS]. \<not> revents a i" by (auto simp: poll_contract_def MAX_CLIENTS_def)
  then have "s' = s \<or> s' = s\<lparr>taken := insert (the (paccept a)) (taken s)\<rparr> \<or> s' = placed a s"
    using a serve_clients_silent by (auto simp: poll_round_placed split: if_splits)
  note cases = this
  show "echoed s' = echoed s" using cases placed_ok(2) [OF inv, of a] a by auto
  show "\<not> snd (pollfds s' ! i)" if "i < 10" for i
    using cases placed_ok(3) [OF inv, of a] a off that by (auto simp: MAX_CLIENTS_def)
qed

theorem poll_serves_ten_witness:
  "\<exists>s. poll_round \<lparr>positive = True, incoming = True, revents = (\<lambda>i. i = 0), paccept = Some 5, pnonblock = True, preads = (\<lambda>_. Some [65])\<rparr> (poll_start {0}) = Some s
     \<and> answered s = {5} \<and> card (answered s) \<le> 10"
proof -
  let ?a = "\<lparr>positive = True, incoming = True, revents = (\<lambda>i. i = 0), paccept = Some 5, pnonblock = True, preads = (\<lambda>_. Some [65])\<rparr>"
  have "map_option answered (poll_round ?a (poll_start {0})) = Some {5}" by code_simp
  then obtain s where s: "poll_round ?a (poll_start {0}) = Some s" "answered s = {5}" by auto
  have "poll_contract ?a (poll_start {0})"
    by (simp add: poll_contract_def poll_start_def MAX_CLIENTS_def SIZE_def)
  then have "poll_reach s" using s(1) poll_reach.round [OF poll_reach.start] by blast
  then show ?thesis using poll_serves_ten [of s] s by blast
qed

text \<open>
  C27: one iteration of the server with \<^verbatim>\<open>select\<close>, in every state it reaches.  The entries of its table are distinct open
  descriptors other than the listening one.  The program ends exactly when input is
  reported on the listening socket and \<^verbatim>\<open>accept\<close> fails, as it does after an interrupted \<^verbatim>\<open>select\<close>, or when a connection comes
  while the table is full.  It overruns a buffer exactly when it comes to serve a client whose text has 1011 bytes or more.
  Otherwise every ready client that sent something, and no other, is sent its text behind the prefix, once.
\<close>

theorem select_server_round:
  assumes "select_reach s" "select_contract a s"
  shows "distinct (filter (\<lambda>sd. 0 < sd) (client_socket s)) \<and> set (client_socket s) - {0} \<subseteq> open_fds s - {sockfd s}
    \<and> (select_round a s = Some Exited \<longleftrightarrow>
        sockfd s \<in> set (ready_fds a s) \<and> (accepted a = None \<or> nonblock a \<and> 0 \<notin> set (client_socket s) \<and> closed a))
    \<and> (select_round a s = None \<longleftrightarrow> too_long a s
        \<and> \<not> (sockfd s \<in> set (ready_fds a s) \<and> (accepted a = None \<or> \<not> nonblock a \<or> 0 \<notin> set (client_socket s) \<and> closed a)))
    \<and> (\<forall>s'. select_round a s = Some (Serving s') \<longrightarrow>
        outbox s' = outbox s @ (if sockfd s \<in> set (ready_fds a s) \<and> \<not> nonblock a then [] else replies a s))"
proof (intro conjI allI impI)
  have inv: "select_inv s" by (rule select_reach_inv [OF assms(1)])
  note spec = select_round_spec [OF inv assms(2), unfolded Let_def]
  show "distinct (filter (\<lambda>sd. 0 < sd) (client_socket s))" using inv by (simp add: select_inv_def)
  show "set (client_socket s) - {0} \<subseteq> open_fds s - {sockfd s}" using inv by (auto simp: select_inv_def)
  show "select_round a s = Some Exited \<longleftrightarrow>
      sockfd s \<in> set (ready_fds a s) \<and> (accepted a = None \<or> nonblock a \<and> 0 \<notin> set (client_socket s) \<and> closed a)"
    by (simp add: spec)
  show "select_round a s = None \<longleftrightarrow> too_long a s
      \<and> \<not> (sockfd s \<in> set (ready_fds a s) \<and> (accepted a = None \<or> \<not> nonblock a \<or> 0 \<notin> set (client_socket s) \<and> closed a))"
    by (auto simp: spec)
  fix s'
  assume "select_round a s = Some (Serving s')"
  then show "outbox s' = outbox s @ (if sockfd s \<in> set (ready_fds a s) \<and> \<not> nonblock a then [] else replies a s)"
    using entered_ok(3,4) [OF inv assms(2)] by (auto simp: spec after_comm_def replies_def split: if_splits)
qed

theorem select_server_round_witness:
  "select_round \<lparr>selected = None, accepted = None, nonblock = True, closed = True, reads = (\<lambda>_. None)\<rparr> (select_start 3 {0}) = Some Exited"
proof -
  let ?a = "\<lparr>selected = None, accepted = None, nonblock = True, closed = True, reads = (\<lambda>_. None)\<rparr>"
  have "select_reach (select_start 3 {0})" by (rule select_reach.start) (simp_all add: FD_SETSIZE_def)
  moreover have "select_contract ?a (select_start 3 {0})" by (simp add: select_contract_def)
  ultimately show ?thesis
    using select_server_round [of "select_start 3 {0}" ?a] by (simp add: ready_fds_def)
qed

end
