(* ===== verification/Spec2Isabelle.thy ===== *)
theory Spec2Isabelle
  imports HackPrelude XdpProgs XskPort DummethRun CVectorCopy CGrep AlgoNumbers AlgoConvert BookRcu KSync KFs
    KNetfilter CSmall CCatWc SockServers
begin

text \<open>
  The repository is a collection of small Linux programs, most of them in C: packet programs for XDP and
  AF_XDP, kernel modules, command-line tools and exercises.  Each part stands alone, and so does the theory that
  models it; what they share is the way C is modelled, in \<^verbatim>\<open>HackPrelude\<close> and, for the programs that use the
  heap, in \<^verbatim>\<open>CHeap\<close>.  File names below are relative to \<^verbatim>\<open>src/\<close>.

  \<^bold>\<open>The model of C.\<close>  A fault (an access outside a buffer or to freed memory, a second free, an uninitialised
  pointer, a lock taken twice, signed overflow) is the value \<^term>\<open>None\<close> of the option type, so "not \<^term>\<open>None\<close>" is the absence of
  faults.  Machine integers are words where they wrap around, and integers with a range check where overflow is
  undefined.  Structures are records, error codes are the integers the code returns.  The functions of the kernel and of
  libraries whose code is not in the repository are parameters; what is assumed of them is a named contract
  (\<^verbatim>\<open>adjust_head_contract\<close>, \<^verbatim>\<open>copy_contract\<close>, \<^verbatim>\<open>kstrtoint_contract\<close>, \<^verbatim>\<open>scan_contract\<close>), and a concrete function that
  satisfies it is given for every contract that a property needs.  Their success or failure is an argument, so
  properties hold for every answer.  Log output is left out unless printing is what the program is for.

  \<^bold>\<open>XDP (\<^verbatim>\<open>ebpf-xdp/packet/kernel\<close>, \<^verbatim>\<open>ebpf-xdp/kernel\<close>).\<close>  A packet is a list of bytes with checked loads and stores.
  \<^verbatim>\<open>XdpParsing\<close> has the parsers of \<^verbatim>\<open>parsing_helpers.h\<close>; locale \<^verbatim>\<open>hdr_parser\<close> is their common contract (total, in
  bounds, the cursor moves by the header size), interpreted by every parser, and \<^verbatim>\<open>hdr_parser_seq\<close> composes two of them.
  \<^verbatim>\<open>XdpRewrite\<close> has \<^verbatim>\<open>rewrite_helpers.h\<close> (VLAN push and pop are inverse, swaps are involutions) and the statistics of
  \<^verbatim>\<open>stats_kern.h\<close>.  \<^verbatim>\<open>XdpBlock\<close> is \<^verbatim>\<open>xdp_packet_block.c\<close> and \<^verbatim>\<open>XdpProgs\<close> the programs \<^verbatim>\<open>xdp_pass.c\<close>, \<^verbatim>\<open>xdp_map_allow.c\<close>,
  \<^verbatim>\<open>xdp_redirect_dev.c\<close>, \<^verbatim>\<open>xdp_redirect_xsk.c\<close> and \<^verbatim>\<open>_xsk_def_xdp_prog.c\<close>: verdict and rewritten packet for each kind of
  packet, and that no program leaves the packet, whatever its bytes are.

  \<^bold>\<open>AF_XDP forwarder (\<^verbatim>\<open>ebpf-xdp/xsk\<close>).\<close>  \<^verbatim>\<open>XskPool\<close> models \<^verbatim>\<open>bpool_init\<close> and the \<^verbatim>\<open>bcache_\<close> functions of \<^verbatim>\<open>af_rxtx.c\<close>; in every
  reachable state each buffer is in exactly one place (locale \<^verbatim>\<open>buffer_store\<close>, interpreted by the port's cache).
  \<^verbatim>\<open>XskPort\<close> models \<^verbatim>\<open>port_init\<close>, \<^verbatim>\<open>port_rx_burst\<close>, \<^verbatim>\<open>port_tx_burst\<close>, \<^verbatim>\<open>thread_func\<close>, \<^verbatim>\<open>thread_func_poll\<close>, \<^verbatim>\<open>parse_args\<close> and
  the set-up in \<^verbatim>\<open>main.c\<close>: conservation of buffers by the forwarding loops, which ports are served, and the command lines
  accepted.  The rings of libxdp are a parameter.

  \<^bold>\<open>Virtual Ethernet pair (\<^verbatim>\<open>keth-if/kernel/core.\<close>c\<close>).  \<^verbatim>\<open>Dummeth\<close> has the linked packet buffers, the pool, the receive
  queue (locale \<^verbatim>\<open>packet_stack\<close>, interpreted by both), interrupts and polling; \<^verbatim>\<open>DummethRun\<close> transmission, module life cycle
  and the step relation of the pair, with safety of all reachable states, the order and contents of delivered
  frames, and the two ways in which the driver fails.

  \<^bold>\<open>RCU list (\<^verbatim>\<open>ksync-rcu/list_rcu.\<close>c\<close>).  \<^verbatim>\<open>BookRcu\<close> cuts each function at the points where other threads run, down to
  single nodes of a traversal; nodes taken off the list keep their next pointer.  With one writer and any number of
  printing threads no freed node is touched; two schedules outside that discipline fault.

  \<^bold>\<open>Drivers with a secret.\<close>  \<^verbatim>\<open>KMisc\<close> is \<^verbatim>\<open>kmisc/miscdrv_rdwr.c\<close> and its test program \<^verbatim>\<open>rdwr_test_secret.c\<close>: a state invariant,
  when a write faults, and the round trip of a message.  \<^verbatim>\<open>KSync\<close> is \<^verbatim>\<open>ksync-mutex/mutexlock_misc.c\<close> and
  \<^verbatim>\<open>ksync-spin/spinlock_misc.c\<close> with explicit locks and copies byte by byte: the invariant of all interleavings, and
  schedules in which a read delivers what no write had stored.

  \<^bold>\<open>Kernel interfaces.\<close>  \<^verbatim>\<open>KFs\<close> has the callbacks, loading and unloading of \<^verbatim>\<open>kfsproc/procfs_if.c\<close>, \<^verbatim>\<open>kfssys/sysfs_if.c\<close> and
  \<^verbatim>\<open>kfsdebug/debugfs_if.c\<close> and the commands of \<^verbatim>\<open>kioctl/k/ioctl_llkd_kdrv.c\<close>; \<^verbatim>\<open>KNetfilter\<close> is \<^verbatim>\<open>knetfilter/knetfilter.c\<close>:
  the verdict of the two hooks in order, and a packet too short for the header read.

  \<^bold>\<open>User-space programs on the heap.\<close>  \<^verbatim>\<open>CHeap\<close> has blocks of cells, \<^verbatim>\<open>CText\<close> strings, \<^verbatim>\<open>strsep\<close> and lines.  \<^verbatim>\<open>CVector\<close>,
  \<^verbatim>\<open>CVectorProgs\<close> and \<^verbatim>\<open>CVectorCopy\<close> model \<^verbatim>\<open>vector/\<close> (\<^verbatim>\<open>int.c\<close>, \<^verbatim>\<open>string.c\<close>, \<^verbatim>\<open>interface.c\<close>, \<^verbatim>\<open>inefficient.c\<close>): locale \<^verbatim>\<open>c_vector\<close>
  is the contract of a growable array, interpreted by both element types, from which the refinement to lists follows;
  the demonstrations print what they should, and the copying arrays are equivalent to the growing ones.  \<^verbatim>\<open>CGrep\<close> is
  \<^verbatim>\<open>grep/\<close>, the whole program.  \<^verbatim>\<open>CCatWc\<close> is \<^verbatim>\<open>cat/\<close> and \<^verbatim>\<open>wc/\<close>; \<^verbatim>\<open>CSmall\<close> is \<^verbatim>\<open>hex/\<close> (a round trip) and \<^verbatim>\<open>hashmap/main.c\<close>.

  \<^bold>\<open>Socket servers.\<close>  \<^verbatim>\<open>SockServers\<close> has one iteration of the loops of \<^verbatim>\<open>sock-select-tcp/server_s.c\<close>, \<^verbatim>\<open>sock-poll-tcp/server_p.c\<close>,
  \<^verbatim>\<open>sock-epoll-tcp/server_ep.c\<close> and \<^verbatim>\<open>sock-thread-ctx-tcp/worker.c\<close> as functions of what the kernel answers
  (\<^verbatim>\<open>select_contract\<close> and \<^verbatim>\<open>poll_contract\<close> state what is assumed of it), and \<^verbatim>\<open>connect_with_timeout\<close> of the clients: the table of clients in every
  reachable state, what is sent, when the program ends or overruns a buffer, and that the poll server answers ten
  connections at most.

  \<^bold>\<open>Exercises (\<^verbatim>\<open>0xetc/0xcc\<close>).\<close>  \<^verbatim>\<open>AlgoWindows\<close>, \<^verbatim>\<open>AlgoNumbers\<close>, \<^verbatim>\<open>AlgoText\<close> and \<^verbatim>\<open>AlgoConvert\<close> prove the solutions against definitions of the
  problems: container-with-most-water, minimum-size-subarray-sum,
  longest-substring-without-repeating-characters, add-two-numbers, two-sum, remove-element, merge-sorted-array,
  ransom-note, valid-palindrome, valid-sudoku,
  zigzag-conversion, palindrome-number.

  \<^bold>\<open>Bounds and termination.\<close>  No definition uses fuel.  Loops over data are structural or have a termination
  proof; the VLAN loop is bounded by \<^verbatim>\<open>VLAN_MAX_DEPTH\<close> as in the source.  Four loops that may run for ever are partial
  functions with \<^term>\<open>None\<close> for not returning: the search of two-sum (it returns exactly when a pair exists), the
  reservation of ring slots in the forwarder (its property assumes the ring gives way eventually) and the release of the packet chain
  in dummeth (it returns on every well-formed pool), and
  the attempts to connect (they end when the clock passes the timeout).  The schedules that show faults or
  races are finite lists of steps that are evaluated.

  \<^bold>\<open>Not modelled.\<close>  Programs whose text is a sequence of calls of something outside the repository, with no state
  or decision of their own to state a property about: the other socket programs, TLS (OpenSSL), processes, threads, pipes and shared
  memory, seccomp and other eBPF examples (libbpf), loaders of the XDP programs, device programs (GPIO, I2C, SPI,
  UART, GPU, DPDK, RTMP), the kernel modules that call one service of the kernel and log the result (allocation, timers,
  tasklets, threads, parameters, netlink), set-up scripts, and the Go, Rust and JavaScript programs on third-party packages.
  Inside the modelled parts: log output and statistics printing, weak memory order (each step sees the effects of
  the steps before it), the release of memory in \<^verbatim>\<open>cat\<close> and \<^verbatim>\<open>wc\<close>, the creation of the servers' sockets and threads, the exit of the two drivers of \<^verbatim>\<open>KSync\<close>, the
  character device registration of \<^verbatim>\<open>kioctl\<close>, the page-offset files of \<^verbatim>\<open>kfsproc\<close> and \<^verbatim>\<open>kfssys\<close>, and the reading of input in the exercises.
\<close>

end
